(* ===== verification/Prelude.thy ===== *)
theory Prelude
  imports Main "HOL-Library.Word"
begin

text \<open>
  The vocabulary the component theories share: the machine types of the Rust source, results as
  values of a sum type (\<^term>\<open>Inl e\<close> is \<open>Err(e)\<close>, \<^term>\<open>Inr x\<close> is \<open>Ok(x)\<close>), checked and saturating
  \<open>usize\<close> arithmetic, little-endian byte encodings, and the list facts that index-driven loops need.

  A \<open>usize\<close> is a natural number; every operation of the source whose overflow the source itself
  handles (\<open>checked_mul\<close>, \<open>checked_add\<close>, \<open>saturating_mul\<close>, \<open>try_from\<close>) tests the 64-bit bound explicitly.
  Bytes and bit-level words are machine words.
\<close>

section \<open>Types\<close>

type_synonym u8 = "8 word"
type_synonym u16 = "16 word"
type_synonym u32 = "32 word"
type_synonym u64 = "64 word"
type_synonym bytes = "u8 list"
type_synonym usize = nat
type_synonym i8 = int

text \<open>An IEEE half is only moved around as its bit pattern.\<close>
type_synonym f16 = "16 word"

named_theorems result_simps \<open>equations that run the result monad\<close>
named_theorems codec_len \<open>length facts of encoders\<close>

section \<open>Results\<close>

text \<open>The \<open>?\<close> operator.\<close>
definition rbind :: "'e + 'a \<Rightarrow> ('a \<Rightarrow> 'e + 'b) \<Rightarrow> 'e + 'b" where
  "rbind r f = (case r of Inl e \<Rightarrow> Inl e | Inr x \<Rightarrow> f x)"

definition ensure :: "bool \<Rightarrow> 'e \<Rightarrow> 'e + unit" where
  "ensure b e = (if b then Inr () else Inl e)"

definition ok_or :: "'a option \<Rightarrow> 'e \<Rightarrow> 'e + 'a" where
  "ok_or x e = (case x of None \<Rightarrow> Inl e | Some y \<Rightarrow> Inr y)"

definition map_err :: "('e \<Rightarrow> 'f) \<Rightarrow> 'e + 'a \<Rightarrow> 'f + 'a" where
  "map_err g r = (case r of Inl e \<Rightarrow> Inl (g e) | Inr x \<Rightarrow> Inr x)"

definition is_ok :: "'e + 'a \<Rightarrow> bool" where
  "is_ok r = (case r of Inl _ \<Rightarrow> False | Inr _ \<Rightarrow> True)"

text \<open>An operation that may also panic (an out-of-range index, a failed assertion).\<close>
datatype 'e fault = Fail 'e | Panic

text \<open>A loop that produces one value per item and stops at the first error.\<close>
fun mapR :: "('a \<Rightarrow> 'e + 'b) \<Rightarrow> 'a list \<Rightarrow> 'e + 'b list" where
  "mapR f [] = Inr []"
| "mapR f (x # xs) = (case f x of Inl e \<Rightarrow> Inl e
     | Inr y \<Rightarrow> (case mapR f xs of Inl e \<Rightarrow> Inl e | Inr ys \<Rightarrow> Inr (y # ys)))"

text \<open>A loop that threads a state and stops at the first error.\<close>
fun foldR :: "('a \<Rightarrow> 's \<Rightarrow> 'e + 's) \<Rightarrow> 'a list \<Rightarrow> 's \<Rightarrow> 'e + 's" where
  "foldR f [] s = Inr s"
| "foldR f (x # xs) s = (case f x s of Inl e \<Rightarrow> Inl e | Inr s' \<Rightarrow> foldR f xs s')"

text \<open>A counting loop whose body advances a reader and stops at the first error.\<close>
fun repeatR :: "nat \<Rightarrow> ('c \<Rightarrow> 'e + 'a \<times> 'c) \<Rightarrow> 'c \<Rightarrow> 'e + 'a list \<times> 'c" where
  "repeatR 0 p c = Inr ([], c)"
| "repeatR (Suc n) p c = (case p c of Inl e \<Rightarrow> Inl e
     | Inr (x, c') \<Rightarrow> (case repeatR n p c' of Inl e \<Rightarrow> Inl e | Inr (xs, c'') \<Rightarrow> Inr (x # xs, c'')))"

lemma repeatR_cong [fundef_cong]:
  "n = m \<Longrightarrow> c = d \<Longrightarrow> (\<And>x. p x = q x) \<Longrightarrow> repeatR n p c = repeatR m q d"
proof -
  assume eqs: "n = m" "c = d" and "\<And>x. p x = q x"
  then have "p = q" by blast
  with eqs show ?thesis by simp
qed

lemma rbind_Inl [simp, result_simps]: "rbind (Inl e) f = Inl e"
  by (simp add: rbind_def)

lemma rbind_Inr [simp, result_simps]: "rbind (Inr x) f = f x"
  by (simp add: rbind_def)

lemma rbind_eq_Inr: "rbind r f = Inr y \<longleftrightarrow> (\<exists>x. r = Inr x \<and> f x = Inr y)"
  by (cases r) (auto simp: rbind_def)

lemma rbind_eq_Inl: "rbind r f = Inl e \<longleftrightarrow> r = Inl e \<or> (\<exists>x. r = Inr x \<and> f x = Inl e)"
  by (cases r) (auto simp: rbind_def)

lemma rbind_cong [fundef_cong]:
  "r = r' \<Longrightarrow> (\<And>x. r' = Inr x \<Longrightarrow> f x = f' x) \<Longrightarrow> rbind r f = rbind r' f'"
  by (cases r') (auto simp: rbind_def)

lemma rbind_assoc: "rbind (rbind r f) g = rbind r (\<lambda>x. rbind (f x) g)"
  by (cases r) auto

lemma ensure_True [simp, result_simps]: "ensure True e = Inr ()"
  by (simp add: ensure_def)

lemma ensure_False [simp, result_simps]: "ensure False e = Inl e"
  by (simp add: ensure_def)

lemma ensure_eq_Inr [simp]: "ensure b e = Inr u \<longleftrightarrow> b"
  by (simp add: ensure_def)

lemma ensure_eq_Inl [simp]: "ensure b e = Inl e' \<longleftrightarrow> \<not> b \<and> e' = e"
  by (auto simp: ensure_def)

lemma ok_or_simps [simp, result_simps]:
  "ok_or None e = Inl e" "ok_or (Some x) e = Inr x"
  by (simp_all add: ok_or_def)

lemma ok_or_eq_Inr [simp]: "ok_or m e = Inr x \<longleftrightarrow> m = Some x"
  by (cases m) auto

lemma map_err_simps [simp, result_simps]:
  "map_err g (Inl e) = Inl (g e)" "map_err g (Inr x) = Inr x"
  by (simp_all add: map_err_def)

lemma map_err_eq_Inr [simp]: "map_err g r = Inr x \<longleftrightarrow> r = Inr x"
  by (cases r) auto

lemma is_ok_simps [simp]: "\<not> is_ok (Inl e)" "is_ok (Inr x)"
  by (simp_all add: is_ok_def)

lemma is_ok_ensure [simp]: "is_ok (ensure b e) = b"
  by (simp add: ensure_def)

lemma is_ok_iff: "is_ok r \<longleftrightarrow> (\<exists>x. r = Inr x)"
  by (cases r) auto

lemma is_ok_rbind: "is_ok (rbind r f) \<longleftrightarrow> (\<exists>x. r = Inr x \<and> is_ok (f x))"
  by (cases r) auto

lemma is_ok_rbind_pure [simp]: "is_ok (rbind r (\<lambda>x. Inr (g x))) \<longleftrightarrow> is_ok r"
  by (cases r) auto

lemma is_ok_rbind_pure2 [simp]: "is_ok (rbind r (\<lambda>(x, y). Inr (g x y))) \<longleftrightarrow> is_ok r"
  by (cases r) auto

lemma mapR_eq_Inr: "mapR f xs = Inr ys \<longleftrightarrow> list_all2 (\<lambda>x y. f x = Inr y) xs ys"
proof (induction xs arbitrary: ys)
  case (Cons x xs)
  show ?case
  proof (cases "mapR f xs")
    case (Inl e)
    then have "\<not> list_all2 (\<lambda>x y. f x = Inr y) xs zs" for zs
      using Cons.IH [of zs] by simp
    with Inl show ?thesis by (auto simp: list_all2_Cons1 split: sum.splits)
  next
    case (Inr zs)
    then have "list_all2 (\<lambda>x y. f x = Inr y) xs us \<longleftrightarrow> us = zs" for us
      using Cons.IH [of us] by auto
    with Inr show ?thesis by (auto simp: list_all2_Cons1 split: sum.splits)
  qed
qed auto

lemma mapR_map: "(\<And>x. x \<in> set xs \<Longrightarrow> f x = Inr (g x)) \<Longrightarrow> mapR f xs = Inr (map g xs)"
  by (induction xs) auto

lemma mapR_length: "mapR f xs = Inr ys \<Longrightarrow> length ys = length xs"
  by (metis mapR_eq_Inr list_all2_lengthD)

lemma mapR_Inr_in: "mapR f xs = Inr ys \<Longrightarrow> y \<in> set ys \<Longrightarrow> \<exists>x\<in>set xs. f x = Inr y"
  by (induction xs arbitrary: ys) (auto split: sum.splits)

lemma mapR_append: "mapR f (xs @ ys) =
    rbind (mapR f xs) (\<lambda>as. rbind (mapR f ys) (\<lambda>bs. Inr (as @ bs)))"
  by (induction xs) (auto split: sum.splits simp: rbind_def)

lemma mapR_eq_Inl: "mapR f xs = Inl e \<Longrightarrow> \<exists>x\<in>set xs. f x = Inl e"
  by (induction xs) (auto split: sum.splits)

lemma mapR_Inl_ex: "x \<in> set xs \<Longrightarrow> f x = Inl e \<Longrightarrow> \<exists>e'. mapR f xs = Inl e'"
  by (induction xs) (auto split: sum.splits)

lemma mapR_is_ok: "is_ok (mapR f xs) \<longleftrightarrow> (\<forall>x\<in>set xs. is_ok (f x))"
  by (induction xs) (auto split: sum.splits)

lemma mapR_cong [fundef_cong]:
  "xs = ys \<Longrightarrow> (\<And>x. x \<in> set ys \<Longrightarrow> f x = g x) \<Longrightarrow> mapR f xs = mapR g ys"
proof -
  assume "xs = ys" and "\<And>x. x \<in> set ys \<Longrightarrow> f x = g x"
  then have "mapR f ys = mapR g ys" 
    by (induction ys arbitrary: xs) (simp_all cong: sum.case_cong)
  with \<open>xs = ys\<close> show ?thesis by simp
qed

lemma mapR_map_comp: "mapR f (map g xs) = mapR (\<lambda>x. f (g x)) xs"
  by (induction xs) (auto split: sum.splits)

lemma foldR_append: "foldR f (xs @ ys) s = rbind (foldR f xs s) (foldR f ys)"
  by (induction xs arbitrary: s) (auto split: sum.splits)

lemma foldR_cong [fundef_cong]:
  "xs = ys \<Longrightarrow> s = t \<Longrightarrow> (\<And>x u. x \<in> set ys \<Longrightarrow> f x u = g x u) \<Longrightarrow> foldR f xs s = foldR g ys t"
  by (induction xs arbitrary: ys s t) (auto split: sum.splits)

lemma foldR_invariant:
  assumes "foldR f xs s = Inr t" and "P s"
    and "\<And>x u v. x \<in> set xs \<Longrightarrow> P u \<Longrightarrow> f x u = Inr v \<Longrightarrow> P v"
  shows "P t"
  using assms
proof (induction xs arbitrary: s)
  case (Cons x xs)
  from Cons.prems(1) obtain u where "f x s = Inr u" "foldR f xs u = Inr t"
    by (auto split: sum.splits)
  with Cons.IH [of u] Cons.prems(2,3) show ?case by (meson list.set_intros)
qed simp

section \<open>Machine arithmetic on \<open>usize\<close>\<close>

definition usize_MAX :: nat where "usize_MAX = 2 ^ 64 - 1"

definition checked_add :: "nat \<Rightarrow> nat \<Rightarrow> nat option" where
  "checked_add a b = (if a + b \<le> usize_MAX then Some (a + b) else None)"

definition checked_sub :: "nat \<Rightarrow> nat \<Rightarrow> nat option" where
  "checked_sub a b = (if b \<le> a then Some (a - b) else None)"

definition checked_mul :: "nat \<Rightarrow> nat \<Rightarrow> nat option" where
  "checked_mul a b = (if a * b \<le> usize_MAX then Some (a * b) else None)"

definition saturating_add :: "nat \<Rightarrow> nat \<Rightarrow> nat" where
  "saturating_add a b = min (a + b) usize_MAX"

definition saturating_mul :: "nat \<Rightarrow> nat \<Rightarrow> nat" where
  "saturating_mul a b = min (a * b) usize_MAX"

text \<open>A multiplication the code leaves unchecked, as a release build computes it.\<close>
definition wrapping_mul :: "nat \<Rightarrow> nat \<Rightarrow> nat" where
  "wrapping_mul a b = (a * b) mod 2 ^ 64"

definition div_ceil :: "nat \<Rightarrow> nat \<Rightarrow> nat" where
  "div_ceil a b = (a + b - 1) div b"

lemma usize_MAX_num: "usize_MAX = 18446744073709551615"
  by (simp add: usize_MAX_def)

lemma checked_mul_eq_Some [simp]: "checked_mul a b = Some c \<longleftrightarrow> c = a * b \<and> a * b \<le> usize_MAX"
  by (auto simp: checked_mul_def)

lemma wrapping_mul_fits: "a * b \<le> usize_MAX \<Longrightarrow> wrapping_mul a b = a * b"
  by (simp add: wrapping_mul_def usize_MAX_def)

lemma wrapping_mul_le: "wrapping_mul a b \<le> a * b"
  by (simp add: wrapping_mul_def)

lemma checked_add_eq_Some [simp]: "checked_add a b = Some c \<longleftrightarrow> c = a + b \<and> a + b \<le> usize_MAX"
  by (auto simp: checked_add_def)

lemma checked_sub_eq_Some [simp]: "checked_sub a b = Some c \<longleftrightarrow> c = a - b \<and> b \<le> a"
  by (auto simp: checked_sub_def)

lemma div_ceil_0 [simp]: "0 < b \<Longrightarrow> div_ceil 0 b = 0"
  by (simp add: div_ceil_def)

lemma div_ceil_mult_ge: "0 < b \<Longrightarrow> a \<le> div_ceil a b * b"
proof -
  assume b: "0 < b"
  have "(a + b - 1) div b * b + (a + b - 1) mod b = a + b - 1" by (rule div_mult_mod_eq)
  moreover have "(a + b - 1) mod b < b" using b by simp
  ultimately have "a \<le> (a + b - 1) div b * b" by linarith
  then show ?thesis unfolding div_ceil_def .
qed

lemma div_ceil_mult_less: "0 < b \<Longrightarrow> 0 < a \<Longrightarrow> (div_ceil a b - 1) * b < a"
proof -
  assume b: "0 < b" and a: "0 < a"
  have "(a + b - 1) div b * b \<le> a + b - 1" by (rule div_times_less_eq_dividend)
  then have "(a + b - 1) div b * b - b < a" using a b by linarith
  then show ?thesis unfolding div_ceil_def by (simp add: diff_mult_distrib)
qed

lemma div_ceil_less: "0 < b \<Longrightarrow> i < div_ceil a b \<longleftrightarrow> i * b < a"
proof
  assume b: "0 < b"
  { assume "i < div_ceil a b"
    then have "Suc i \<le> (a + b - 1) div b" by (simp add: div_ceil_def)
    then have "Suc i * b \<le> a + b - 1"
      using b by (simp add: less_eq_div_iff_mult_less_eq)
    then show "i * b < a" using b by simp }
  assume "i * b < a"
  then have "Suc i * b \<le> a + b - 1" using b by simp
  then have "Suc i \<le> (a + b - 1) div b"
    using b by (simp only: less_eq_div_iff_mult_less_eq)
  then show "i < div_ceil a b" by (simp add: div_ceil_def)
qed

lemma div_ceil_mult [simp]: "0 < b \<Longrightarrow> div_ceil (n * b) b = n"
proof -
  assume b: "0 < b"
  then have "n * b + b - 1 = b - 1 + n * b" by simp
  then have "(n * b + b - 1) div b = (b - 1) div b + n"
    using b by (simp only: div_mult_self1 neq0_conv)
  then show ?thesis using b by (simp add: div_ceil_def)
qed

section \<open>Little-endian byte strings\<close>

lemma unat8_less [simp]: "unat (b :: 8 word) < 256"
  using unsigned_less [of b] by simp

lemma unat16_less [simp]: "unat (h :: 16 word) < 65536"
  using unsigned_less [of h] by simp

lemma unat32_less [simp]: "unat (w :: 32 word) < 4294967296"
  using unsigned_less [of w] by simp

lemma unat64_less [simp]: "unat (d :: 64 word) < 18446744073709551616"
  using unsigned_less [of d] by simp

text \<open>\<open>to_le_bytes\<close> and \<open>from_le_bytes\<close> at a width of \<open>n\<close> bytes.\<close>
fun le_enc :: "nat \<Rightarrow> nat \<Rightarrow> bytes" where
  "le_enc 0 v = []"
| "le_enc (Suc n) v = of_nat v # le_enc n (v div 256)"

fun le_dec :: "bytes \<Rightarrow> nat" where
  "le_dec [] = 0"
| "le_dec (b # bs) = unat b + 256 * le_dec bs"

lemma le_enc_numeral: "le_enc (numeral k) v = of_nat v # le_enc (pred_numeral k) (v div 256)"
  using le_enc.simps(2) [of "pred_numeral k" v] unfolding numeral_eq_Suc [of k, symmetric] .

lemma length_le_enc [simp, codec_len]: "length (le_enc n v) = n"
  by (induction n arbitrary: v) auto

lemma le_dec_less: "le_dec bs < 256 ^ length bs"
proof (induction bs)
  case (Cons b bs)
  have step: "a < 256 \<Longrightarrow> d < m \<Longrightarrow> a + 256 * d < 256 * m" for a d m :: nat
    by linarith
  show ?case using step [OF unat8_less Cons] by simp
qed simp

lemma le_dec_enc: "le_dec (le_enc n v) = v mod 256 ^ n"
proof (induction n arbitrary: v)
  case (Suc n)
  have "unat (of_nat v :: 8 word) = v mod 256" by (simp add: unat_of_nat)
  with Suc show ?case by (simp add: mod_mult2_eq)
qed simp

lemma le_dec_enc_less [simp]: "v < 256 ^ n \<Longrightarrow> le_dec (le_enc n v) = v"
  by (simp add: le_dec_enc)

lemma le_enc_dec [simp]: "le_enc (length bs) (le_dec bs) = bs"
proof (induction bs)
  case (Cons b bs)
  have b: "unat b < 256" by simp
  have "(of_nat (unat b + 256 * le_dec bs) :: 8 word) = b"
    by (rule word_unat_eq_iff [THEN iffD2]) (simp add: unat_of_nat b del: of_nat_add)
  then show ?case using Cons b by simp
qed simp

lemma le_dec_inj: "length as = length bs \<Longrightarrow> le_dec as = le_dec bs \<Longrightarrow> as = bs"
  by (metis le_enc_dec)

definition le16 :: "16 word \<Rightarrow> bytes" where "le16 w = le_enc 2 (unat w)"
definition le32 :: "32 word \<Rightarrow> bytes" where "le32 w = le_enc 4 (unat w)"
definition le64 :: "64 word \<Rightarrow> bytes" where "le64 w = le_enc 8 (unat w)"

definition un_le16 :: "bytes \<Rightarrow> 16 word" where "un_le16 bs = of_nat (le_dec bs)"
definition un_le32 :: "bytes \<Rightarrow> 32 word" where "un_le32 bs = of_nat (le_dec bs)"
definition un_le64 :: "bytes \<Rightarrow> 64 word" where "un_le64 bs = of_nat (le_dec bs)"

lemma length_le [simp, codec_len]:
  "length (le16 h) = 2" "length (le32 w) = 4" "length (le64 d) = 8"
  by (simp_all add: le16_def le32_def le64_def)

lemma un_le16_le16 [simp]: "un_le16 (le16 h) = h"
  by (simp add: un_le16_def le16_def le_dec_enc)

lemma un_le32_le32 [simp]: "un_le32 (le32 w) = w"
  by (simp add: un_le32_def le32_def le_dec_enc)

lemma un_le64_le64 [simp]: "un_le64 (le64 d) = d"
  by (simp add: un_le64_def le64_def le_dec_enc)

lemma le16_un_le16: "length bs = 2 \<Longrightarrow> le16 (un_le16 bs) = bs"
  using le_dec_less [of bs] le_enc_dec [of bs]
  by (simp add: le16_def un_le16_def unat_of_nat)

lemma le32_un_le32: "length bs = 4 \<Longrightarrow> le32 (un_le32 bs) = bs"
  using le_dec_less [of bs] le_enc_dec [of bs]
  by (simp add: le32_def un_le32_def unat_of_nat)

lemma le64_un_le64: "length bs = 8 \<Longrightarrow> le64 (un_le64 bs) = bs"
  using le_dec_less [of bs] le_enc_dec [of bs]
  by (simp add: le64_def un_le64_def unat_of_nat)

lemmas le_eval = le16_def le32_def le64_def le_enc_numeral

section \<open>Index-driven loops\<close>

text \<open>\<open>&xs[a..a + n]\<close>.\<close>
definition window :: "nat \<Rightarrow> nat \<Rightarrow> 'a list \<Rightarrow> 'a list" where
  "window a n xs = take n (drop a xs)"

lemma length_window [simp]: "a + n \<le> length xs \<Longrightarrow> length (window a n xs) = n"
  by (simp add: window_def)

lemma nth_window: "i < n \<Longrightarrow> a + n \<le> length xs \<Longrightarrow> window a n xs ! i = xs ! (a + i)"
  by (simp add: window_def)

lemma window_append1 [simp]: "a + n \<le> length xs \<Longrightarrow> window a n (xs @ ys) = window a n xs"
  by (simp add: window_def)

lemma window_append2: "length xs \<le> a \<Longrightarrow> window a n (xs @ ys) = window (a - length xs) n ys"
  by (simp add: window_def)

lemma window_all [simp]: "window 0 (length xs) xs = xs"
  by (simp add: window_def)

text \<open>The same slice, the slice \<open>&xs[a..]\<close> and the index \<open>xs[i]\<close> as the language has them: out of range they panic.\<close>
definition slice_at :: "'a list \<Rightarrow> nat \<Rightarrow> nat \<Rightarrow> 'e fault + 'a list" where
  "slice_at xs a n = (if a + n \<le> length xs then Inr (window a n xs) else Inl Panic)"

definition slice_from :: "'a list \<Rightarrow> nat \<Rightarrow> 'e fault + 'a list" where
  "slice_from xs a = (if a \<le> length xs then Inr (drop a xs) else Inl Panic)"

definition index_at :: "'a list \<Rightarrow> nat \<Rightarrow> 'e fault + 'a" where
  "index_at xs i = (if i < length xs then Inr (xs ! i) else Inl Panic)"

lemma slice_at_ok [simp]: "a + n \<le> length xs \<Longrightarrow> slice_at xs a n = Inr (window a n xs)"
  by (simp add: slice_at_def)

lemma slice_from_ok [simp]: "a \<le> length xs \<Longrightarrow> slice_from xs a = Inr (drop a xs)"
  by (simp add: slice_from_def)

lemma index_at_ok [simp]: "i < length xs \<Longrightarrow> index_at xs i = Inr (xs ! i)"
  by (simp add: index_at_def)

lemma slice_eq_Inr [simp]:
  "slice_at xs a n = Inr ys \<longleftrightarrow> a + n \<le> length xs \<and> ys = window a n xs"
  "slice_from xs a = Inr ys \<longleftrightarrow> a \<le> length xs \<and> ys = drop a xs"
  "index_at xs i = Inr x \<longleftrightarrow> i < length xs \<and> x = xs ! i"
  by (auto simp: slice_at_def slice_from_def index_at_def)

lemma slice_eq_Panic:
  "slice_at xs a n = Inl Panic \<longleftrightarrow> length xs < a + n"
  "slice_from xs a = Inl Panic \<longleftrightarrow> length xs < a"
  "index_at xs i = Inl Panic \<longleftrightarrow> length xs \<le> i"
  by (auto simp: slice_at_def slice_from_def index_at_def)

lemma map_err_Panic [simp]: "map_err Fail r \<noteq> Inl Panic" "Inl Panic \<noteq> map_err Fail r"
  by (cases r; simp)+

lemma ok_or_Panic [simp]: "ok_or r (Fail e) \<noteq> Inl Panic"
  by (simp add: ok_or_def split: option.splits)

lemma rbind_Panic: "rbind r f = Inl Panic \<longleftrightarrow> r = Inl Panic \<or> (\<exists>x. r = Inr x \<and> f x = Inl Panic)"
  by (cases r) auto

text \<open>Equal-width chunks laid end to end are found again by position.\<close>
lemma length_concat_const:
  "(\<And>x. x \<in> set xs \<Longrightarrow> length x = w) \<Longrightarrow> length (concat xs) = length xs * w"
  by (induction xs) auto

lemma window_concat_const:
  assumes "\<And>x. x \<in> set xs \<Longrightarrow> length x = w" and "i < length xs"
  shows "window (i * w) w (concat xs) = xs ! i"
  using assms
proof (induction xs arbitrary: i)
  case (Cons x xs)
  show ?case
  proof (cases i)
    case 0
    with Cons show ?thesis by (simp add: window_def)
  next
    case (Suc j)
    with Cons have "window (j * w) w (concat xs) = xs ! j" by simp
    with Cons Suc show ?thesis by (simp add: window_def add.commute)
  qed
qed simp

text \<open>A doubly nested counting loop visits the row-major grid.\<close>
lemma grid2: "[f c m. c \<leftarrow> [0..<a], m \<leftarrow> [0..<b]] = map (\<lambda>i. f (i div b) (i mod b)) [0..<a * b]"
proof (induction a)
  case (Suc a)
  have "[a * b..<Suc a * b] = map (\<lambda>m. a * b + m) [0..<b]"
    by (rule nth_equalityI) (auto simp: add.commute)
  then have split: "[0..<Suc a * b] = [0..<a * b] @ map (\<lambda>m. a * b + m) [0..<b]"
    using upt_add_eq_append [of 0 "a * b" b] by (simp add: add.commute)
  have "map (\<lambda>m. f a m) [0..<b]
      = map (\<lambda>i. f (i div b) (i mod b)) (map (\<lambda>m. a * b + m) [0..<b])"
    by (auto simp: add.commute)
  with Suc split show ?case by simp
qed simp

lemma grid3: "[f x y z. x \<leftarrow> [0..<a], y \<leftarrow> [0..<b], z \<leftarrow> [0..<c]]
    = map (\<lambda>i. f (i div (b * c)) (i mod (b * c) div c) (i mod (b * c) mod c)) [0..<a * (b * c)]"
  by (simp only: grid2)

lemma set_pairs: "x \<in> set [(i, j). i \<leftarrow> [0..<a], j \<leftarrow> [0..<b]] \<longleftrightarrow> (\<exists>i j. x = (i, j) \<and> i < a \<and> j < b)"
  by (cases x) (auto simp: image_iff)

lemma set_triples: "x \<in> set [(i, j, l). i \<leftarrow> [0..<a], j \<leftarrow> [0..<b], l \<leftarrow> [0..<c]] \<longleftrightarrow>
    (\<exists>i j l. x = (i, j, l) \<and> i < a \<and> j < b \<and> l < c)"
  by (cases x) (auto simp: image_iff)

lemma grid3_index: "i div d * d + i mod d div c * c + i mod d mod c = (i :: nat)"
  using div_mult_mod_eq [of i d] div_mult_mod_eq [of "i mod d" c] by linarith

lemma map_plus_upt: "map ((+) a) [0..<n] = [a..<a + n]"
  by (intro nth_equalityI) auto

lemma upt_join: "a \<le> b \<Longrightarrow> b \<le> c \<Longrightarrow> [a..<b] @ [b..<c] = [a..<c]"
  using upt_add_eq_append [of a b "c - b"] by simp

lemma map_nth_offset: "a + n = length xs \<Longrightarrow> map (\<lambda>i. xs ! (a + i)) [0..<n] = drop a xs"
  by (intro nth_equalityI) auto

lemma map_nth_window: "a + n \<le> length xs \<Longrightarrow> map (\<lambda>i. xs ! (a + i)) [0..<n] = window a n xs"
  by (intro nth_equalityI) (auto simp: window_def)

lemma grid_bound: "i < m \<Longrightarrow> j < k \<Longrightarrow> i * k + j < m * (k :: nat)"
proof -
  assume "i < m" "j < k"
  then have "i * k + j < Suc i * k" by simp
  also have "\<dots> \<le> m * k" using \<open>i < m\<close> by (intro mult_le_mono1) simp
  finally show ?thesis .
qed

lemma row_window: "i < m \<Longrightarrow> length xs = m * k \<Longrightarrow> j < k \<Longrightarrow> window (i * k) k xs ! j = xs ! (i * k + j)"
proof -
  assume "i < m" "length xs = m * k" "j < k"
  moreover have "Suc i * k \<le> m * k" using \<open>i < m\<close> by (intro mult_le_mono1) simp
  ultimately show ?thesis by (intro nth_window) simp_all
qed

lemma group_window:
  assumes "g < G" "n < N" "i < K" "length xs = G * N * K"
  shows "window (g * N * K) (N * K) xs ! (n * K + i) = xs ! ((g * N + n) * K + i)"
proof -
  have "window (g * (N * K)) (N * K) xs ! (n * K + i) = xs ! (g * (N * K) + (n * K + i))"
    using assms grid_bound [OF assms(2,3)] by (intro row_window [of g G]) (simp_all add: mult.assoc)
  then show ?thesis by (simp add: add_mult_distrib mult.assoc add.assoc)
qed

lemma nth_grid2:
  assumes "i < a" "j < b"
  shows "[f c m. c \<leftarrow> [0..<a], m \<leftarrow> [0..<b]] ! (i * b + j) = f i j"
  unfolding grid2 using assms grid_bound [OF assms] by (simp add: nth_upt)

lemma length_grid2 [simp]: "length [f c m. c \<leftarrow> [0..<a], m \<leftarrow> [0..<b]] = a * b"
  unfolding grid2 by simp

lemma nth_grid3:
  assumes "i < a" "j < b" "l < c"
  shows "[f x y z. x \<leftarrow> [0..<a], y \<leftarrow> [0..<b], z \<leftarrow> [0..<c]] ! (i * (b * c) + (j * c + l)) = f i j l"
proof -
  let ?row = "\<lambda>x. [f x y z. y \<leftarrow> [0..<b], z \<leftarrow> [0..<c]]"
  have jl: "j * c + l < b * c" using assms by (simp add: grid_bound)
  have "window (i * (b * c)) (b * c) (concat (map ?row [0..<a])) = map ?row [0..<a] ! i"
    using assms by (intro window_concat_const) auto
  then have "window (i * (b * c)) (b * c) (concat (map ?row [0..<a])) ! (j * c + l) = ?row i ! (j * c + l)"
    using assms(1) by simp
  moreover have "length (concat (map ?row [0..<a])) = a * (b * c)"
    by (subst length_concat_const [where w = "b * c"]) auto
  moreover have "Suc i * (b * c) \<le> a * (b * c)" using assms(1) by (intro mult_le_mono1) simp
  ultimately show ?thesis using jl nth_grid2 [OF assms(2,3), of "f i"]
    by (simp add: nth_window add.commute)
qed

lemma fold_grid:
  "fold f [0..<a * b] s = fold (\<lambda>i. fold (\<lambda>j. f (i * b + j)) [0..<b]) [0..<a] s"
proof (induction a)
  case (Suc a)
  have split: "[0..<Suc a * b] = [0..<a * b] @ map (\<lambda>m. a * b + m) [0..<b]"
    using upt_add_eq_append [of 0 "a * b" b] map_add_upt [of "a * b" b]
    by (simp add: add.commute)
  with Suc show ?case by (simp add: fold_map comp_def)
qed simp

text \<open>Padding to a fixed width, as the last block of a row is padded.\<close>
definition pad_to :: "'a \<Rightarrow> nat \<Rightarrow> 'a list \<Rightarrow> 'a list" where
  "pad_to z n xs = xs @ replicate (n - length xs) z"

lemma length_pad_to [simp]: "length xs \<le> n \<Longrightarrow> length (pad_to z n xs) = n"
  by (simp add: pad_to_def)

lemma take_pad_to [simp]: "take (length xs) (pad_to z n xs) = xs"
  by (simp add: pad_to_def)

lemma pad_to_full [simp]: "length xs = n \<Longrightarrow> pad_to z n xs = xs"
  by (simp add: pad_to_def)

lemma concat_take_drop: "concat (map (\<lambda>i. take B (drop (i * B) xs)) [0..<n]) = take (n * B) xs"
proof (induction n)
  case (Suc n)
  have "take (n * B) xs @ take B (drop (n * B) xs) = take (n * B + B) xs" by (simp add: take_add)
  with Suc show ?case by (simp add: add.commute)
qed simp

text \<open>A row cut into blocks of \<open>B\<close>, the last one short.\<close>
lemma window_row_chunk:
  "window (i * B) (min (i * B + B) (length xs) - i * B) xs = take B (drop (i * B) xs)"
  by (auto simp: window_def min_def)

lemma concat_row_chunks:
  "0 < B \<Longrightarrow> concat (map (\<lambda>i. take B (drop (i * B) xs)) [0..<div_ceil (length xs) B]) = xs"
  unfolding concat_take_drop using div_ceil_mult_ge [of B "length xs"] by simp

lemma length_row_chunk: "length (take B (drop (i * B) xs)) = min (i * B + B) (length xs) - i * B"
  by (auto simp: min_def)

lemma concat_windows:
  "length xs = n * w \<Longrightarrow> concat (map (\<lambda>i. window (i * w) w xs) [0..<n]) = xs"
proof (induction n arbitrary: xs)
  case (Suc n)
  have shift: "map (\<lambda>i. window (i * w) w xs) [0..<Suc n]
      = window 0 w xs # map (\<lambda>i. window (i * w) w (drop w xs)) [0..<n]"
    by (simp add: upt_conv_Cons map_Suc_upt [symmetric] window_def add.commute del: upt_Suc)
  have "concat (map (\<lambda>i. window (i * w) w (drop w xs)) [0..<n]) = drop w xs"
    using Suc.prems by (intro Suc.IH) simp
  with shift show ?case by (simp add: window_def del: upt_Suc)
qed simp

end
