(* ===== verification/F32.thy ===== *)
theory F32
  imports Prelude
begin

text \<open>
  Single-precision arithmetic as the kernels use it: an \<open>f32\<close> is its 32-bit pattern, and \<open>+ - * /\<close> are
  the IEEE 754 operations with rounding to nearest, ties to even.  Every finite \<open>f32\<close> is an integer
  multiple of \<open>2^-149\<close> (the smallest subnormal), so a finite value is represented exactly by that
  integer; a result is computed exactly as a fraction of that unit and rounded once.  A NaN result is
  the quiet NaN; Rust leaves the payload of a NaN result open.
\<close>

type_synonym f32 = "32 word"

section \<open>Fields of the bit pattern\<close>

definition f32_sign :: "f32 \<Rightarrow> bool" where
  "f32_sign x \<longleftrightarrow> 2 ^ 31 \<le> unat x"

definition f32_mag :: "f32 \<Rightarrow> nat" where
  "f32_mag x = unat x mod 2 ^ 31"

definition f32_mk :: "bool \<Rightarrow> nat \<Rightarrow> f32" where
  "f32_mk s n = of_nat ((if s then 2 ^ 31 else 0) + n)"

definition INF_MAG :: nat where "INF_MAG = 0x7F800000"

definition f32_NAN :: f32 where "f32_NAN = 0x7FC00000"

definition f32_is_nan :: "f32 \<Rightarrow> bool" where "f32_is_nan x \<longleftrightarrow> INF_MAG < f32_mag x"
definition f32_is_inf :: "f32 \<Rightarrow> bool" where "f32_is_inf x \<longleftrightarrow> f32_mag x = INF_MAG"
definition f32_is_finite :: "f32 \<Rightarrow> bool" where "f32_is_finite x \<longleftrightarrow> f32_mag x < INF_MAG"

text \<open>The magnitude of a finite pattern in units of \<open>2^-149\<close>: significand times its exponent.\<close>
definition f32_units :: "nat \<Rightarrow> nat" where
  "f32_units n = (if n div 2 ^ 23 = 0 then n
     else (n mod 2 ^ 23 + 2 ^ 23) * 2 ^ (n div 2 ^ 23 - 1))"

definition f32_int :: "f32 \<Rightarrow> int" where
  "f32_int x = (if f32_sign x then - int (f32_units (f32_mag x)) else int (f32_units (f32_mag x)))"

section \<open>Rounding\<close>

text \<open>\<open>a / b\<close> to the nearest integer, ties to the even one.\<close>
definition rne :: "nat \<Rightarrow> nat \<Rightarrow> nat" where
  "rne a b = (let q = a div b; r = a mod b
     in if 2 * r < b \<or> (2 * r = b \<and> even q) then q else q + 1)"

text \<open>How many binary places the integer part exceeds the 24-bit significand.\<close>
fun f32_shift :: "nat \<Rightarrow> nat" where
  "f32_shift q = (if q < 2 ^ 24 then 0 else Suc (f32_shift (q div 2)))"

declare f32_shift.simps [simp del]

lemma f32_shift_small: "q < 2 ^ 24 \<Longrightarrow> f32_shift q = 0"
  by (simp add: f32_shift.simps)

lemma f32_shift_step: "2 ^ 24 \<le> q \<Longrightarrow> f32_shift q = Suc (f32_shift (q div 2))"
  by (simp add: f32_shift.simps)

lemma f32_shift_jump: "2 ^ (23 + j) \<le> q \<Longrightarrow> f32_shift q = j + f32_shift (q div 2 ^ j)"
proof (induction j arbitrary: q)
  case (Suc j)
  have "(2 :: nat) ^ 24 \<le> 2 ^ (23 + Suc j)" by (intro power_increasing) simp_all
  with Suc.prems have "2 ^ 24 \<le> q" by linarith
  then have "f32_shift q = Suc (f32_shift (q div 2))" by (rule f32_shift_step)
  also have "2 ^ (23 + j) \<le> q div 2" using Suc.prems by (simp add: less_eq_div_iff_mult_less_eq power_add)
  then have "f32_shift (q div 2) = j + f32_shift (q div 2 div 2 ^ j)" by (rule Suc.IH)
  finally show ?case by (simp add: div_mult2_eq)
qed simp

text \<open>Evaluation in strides, so that exponents of the whole range compute in a few steps.\<close>
lemma f32_shift_run:
  "q < 16777216 \<Longrightarrow> f32_shift q = 0"
  "16777216 \<le> q \<Longrightarrow> q < 2147483648 \<Longrightarrow> f32_shift q = Suc (f32_shift (q div 2))"
  "2 ^ 31 \<le> q \<Longrightarrow> q < 2 ^ 55 \<Longrightarrow> f32_shift q = 8 + f32_shift (q div 2 ^ 8)"
  "2 ^ 55 \<le> q \<Longrightarrow> q < 2 ^ 151 \<Longrightarrow> f32_shift q = 32 + f32_shift (q div 2 ^ 32)"
  "2 ^ 151 \<le> q \<Longrightarrow> f32_shift q = 128 + f32_shift (q div 2 ^ 128)"
  using f32_shift_small [of q] f32_shift_step [of q] f32_shift_jump [of 8 q] f32_shift_jump [of 32 q]
    f32_shift_jump [of 128 q]
  by simp_all

text \<open>The pattern of \<open>a / b\<close> units: the significand rounded at its exponent, carries running into the
  exponent field, and everything past the largest finite value becoming infinity.\<close>
definition f32_round :: "nat \<Rightarrow> nat \<Rightarrow> nat" where
  "f32_round a b = (let k = f32_shift (a div b) in min INF_MAG (k * 2 ^ 23 + rne a (b * 2 ^ k)))"

section \<open>Operations\<close>

definition fneg :: "f32 \<Rightarrow> f32" where
  "fneg x = f32_mk (\<not> f32_sign x) (f32_mag x)"

definition f32_abs :: "f32 \<Rightarrow> f32" where
  "f32_abs x = f32_mk False (f32_mag x)"

definition fadd :: "f32 \<Rightarrow> f32 \<Rightarrow> f32" where
  "fadd x y =
    (if f32_is_nan x \<or> f32_is_nan y then f32_NAN
     else if f32_is_inf x then (if f32_is_inf y \<and> f32_sign x \<noteq> f32_sign y then f32_NAN else x)
     else if f32_is_inf y then y
     else let s = f32_int x + f32_int y in
       if s = 0 then f32_mk (f32_sign x \<and> f32_sign y) 0
       else f32_mk (s < 0) (f32_round (nat \<bar>s\<bar>) 1))"

definition fsub :: "f32 \<Rightarrow> f32 \<Rightarrow> f32" where
  "fsub x y = fadd x (fneg y)"

definition fmul :: "f32 \<Rightarrow> f32 \<Rightarrow> f32" where
  "fmul x y =
    (let s = (f32_sign x \<noteq> f32_sign y); a = f32_units (f32_mag x); b = f32_units (f32_mag y) in
     if f32_is_nan x \<or> f32_is_nan y then f32_NAN
     else if f32_is_inf x \<or> f32_is_inf y
       then (if f32_mag x = 0 \<or> f32_mag y = 0 then f32_NAN else f32_mk s INF_MAG)
     else f32_mk s (f32_round (a * b) (2 ^ 149)))"

definition fdiv :: "f32 \<Rightarrow> f32 \<Rightarrow> f32" where
  "fdiv x y =
    (let s = (f32_sign x \<noteq> f32_sign y); a = f32_units (f32_mag x); b = f32_units (f32_mag y) in
     if f32_is_nan x \<or> f32_is_nan y then f32_NAN
     else if f32_is_inf x then (if f32_is_inf y then f32_NAN else f32_mk s INF_MAG)
     else if f32_is_inf y then f32_mk s 0
     else if f32_mag y = 0 then (if f32_mag x = 0 then f32_NAN else f32_mk s INF_MAG)
     else f32_mk s (f32_round (a * 2 ^ 149) b))"

text \<open>The order of the non-NaN patterns (infinities included), and the comparisons of the source.\<close>
definition f32_key :: "f32 \<Rightarrow> int" where
  "f32_key x = (if f32_sign x then - int (f32_mag x) else int (f32_mag x))"

definition flt :: "f32 \<Rightarrow> f32 \<Rightarrow> bool" where
  "flt x y \<longleftrightarrow> \<not> f32_is_nan x \<and> \<not> f32_is_nan y \<and> f32_key x < f32_key y"

definition fle :: "f32 \<Rightarrow> f32 \<Rightarrow> bool" where
  "fle x y \<longleftrightarrow> \<not> f32_is_nan x \<and> \<not> f32_is_nan y \<and> f32_key x \<le> f32_key y"

definition feq :: "f32 \<Rightarrow> f32 \<Rightarrow> bool" where
  "feq x y \<longleftrightarrow> \<not> f32_is_nan x \<and> \<not> f32_is_nan y \<and> f32_key x = f32_key y"

text \<open>\<open>n as f32\<close> for an unsigned integer.\<close>
definition f32_of_nat :: "nat \<Rightarrow> f32" where
  "f32_of_nat n = f32_mk False (f32_round (n * 2 ^ 149) 1)"

definition f32_of_int :: "int \<Rightarrow> f32" where
  "f32_of_int i = f32_mk (i < 0) (f32_round (nat \<bar>i\<bar> * 2 ^ 149) 1)"

text \<open>\<open>x as i32\<close>: truncate toward zero, saturate, NaN to zero.\<close>
definition f32_to_i32 :: "f32 \<Rightarrow> int" where
  "f32_to_i32 x =
    (if f32_is_nan x then 0
     else if f32_is_inf x then (if f32_sign x then - (2 ^ 31) else 2 ^ 31 - 1)
     else let t = int (f32_units (f32_mag x) div 2 ^ 149) in
       max (- (2 ^ 31)) (min (2 ^ 31 - 1) (if f32_sign x then - t else t)))"

text \<open>\<open>x.clamp(lo, hi)\<close>: a NaN stays a NaN.\<close>
definition f32_clamp :: "f32 \<Rightarrow> f32 \<Rightarrow> f32 \<Rightarrow> f32" where
  "f32_clamp x lo hi = (if flt x lo then lo else if flt hi x then hi else x)"

definition f32_zero :: f32 where "f32_zero = 0"
definition f32_neg_zero :: f32 where "f32_neg_zero = 0x80000000"
definition f32_one :: f32 where "f32_one = 0x3F800000"
definition f32_neg_one :: f32 where "f32_neg_one = 0xBF800000"
definition f32_half :: f32 where "f32_half = 0x3F000000"
definition f32_two :: f32 where "f32_two = 0x40000000"

text \<open>\<open>iter.sum::<f32>()\<close> folds from negative zero, the neutral element of \<open>+\<close>.\<close>
definition f32_sum :: "f32 list \<Rightarrow> f32" where
  "f32_sum xs = foldl fadd f32_neg_zero xs"

lemmas f32_fields = f32_sign_def f32_mag_def INF_MAG_def f32_is_nan_def f32_is_inf_def
  f32_is_finite_def

lemmas f32_eval = f32_fields f32_NAN_def f32_mk_def f32_units_def f32_int_def rne_def f32_round_def
  f32_key_def fneg_def f32_abs_def fadd_def fsub_def fmul_def fdiv_def flt_def fle_def feq_def
  f32_of_nat_def f32_of_int_def f32_to_i32_def f32_clamp_def f32_zero_def f32_neg_zero_def
  f32_one_def f32_neg_one_def f32_half_def f32_two_def f32_shift_run

section \<open>The pattern is sign and magnitude\<close>

lemma f32_mag_less [simp]: "f32_mag x < 2147483648"
  by (simp add: f32_mag_def)

lemma unat_f32_mk: "n < 2 ^ 31 \<Longrightarrow> unat (f32_mk s n) = (if s then 2 ^ 31 else 0) + n"
  unfolding f32_mk_def unat_of_nat by simp

lemma f32_sign_mk [simp]: "n < 2147483648 \<Longrightarrow> f32_sign (f32_mk s n) \<longleftrightarrow> s"
  by (simp add: f32_sign_def unat_f32_mk)

lemma f32_mag_mk [simp]: "n < 2147483648 \<Longrightarrow> f32_mag (f32_mk s n) = n"
  by (simp add: f32_mag_def unat_f32_mk)

lemma f32_mk_fields [simp]: "f32_mk (f32_sign x) (f32_mag x) = x"
proof (rule word_unat_eq_iff [THEN iffD2])
  have "(if 2 ^ 31 \<le> n then 2 ^ 31 else 0) + n mod 2 ^ 31 = n" if "n < 4294967296" for n :: nat
    using that by (auto simp: mod_if)
  from this [OF unat32_less] show "unat (f32_mk (f32_sign x) (f32_mag x)) = unat x"
    unfolding f32_sign_def f32_mag_def by (subst unat_f32_mk) simp_all
qed

lemma f32_eqI:
  assumes "f32_sign x = f32_sign y" "f32_mag x = f32_mag y"
  shows "x = y"
proof -
  have "x = f32_mk (f32_sign y) (f32_mag y)" unfolding assms [symmetric] by simp
  then show ?thesis by simp
qed

lemma fneg_fields [simp]: "f32_sign (fneg x) \<longleftrightarrow> \<not> f32_sign x" "f32_mag (fneg x) = f32_mag x"
  by (simp_all add: fneg_def)

lemma fneg_fneg [simp]: "fneg (fneg x) = x"
  by (rule f32_eqI) simp_all

lemma fneg_class [simp]: "f32_is_nan (fneg x) = f32_is_nan x" "f32_is_inf (fneg x) = f32_is_inf x"
  "f32_is_finite (fneg x) = f32_is_finite x"
  by (simp_all add: f32_is_nan_def f32_is_inf_def f32_is_finite_def)

lemma f32_int_fneg [simp]: "f32_int (fneg x) = - f32_int x"
  by (simp add: f32_int_def)

lemma f32_finite_not [simp]:
  "f32_is_finite x \<Longrightarrow> \<not> f32_is_nan x" "f32_is_finite x \<Longrightarrow> \<not> f32_is_inf x"
  by (simp_all add: f32_is_nan_def f32_is_inf_def f32_is_finite_def)

section \<open>Rounding is exact on representable values\<close>

lemma rne_exact [simp]: "0 < b \<Longrightarrow> rne (n * b) b = n"
  by (simp add: rne_def)

lemma f32_shift_normal: "2 ^ 23 \<le> m \<Longrightarrow> m < 2 ^ 24 \<Longrightarrow> f32_shift (m * 2 ^ j) = j"
proof (induction j)
  case (Suc j)
  have "2 ^ 23 * 2 \<le> m * 2 ^ Suc j"
    using Suc.prems(1) mult_le_mono [of "2 ^ 23" m 2 "2 ^ Suc j"] by simp
  then have "\<not> m * 2 ^ Suc j < 2 ^ 24" by simp
  moreover have "m * 2 ^ Suc j div 2 = m * 2 ^ j" by simp
  ultimately show ?case using Suc by (subst f32_shift.simps) simp
qed (simp add: f32_shift_small)

lemma f32_units_fields:
  "r < 2 ^ 23 \<Longrightarrow> f32_units (e * 2 ^ 23 + r) = (if e = 0 then r else (r + 2 ^ 23) * 2 ^ (e - 1))"
  by (simp add: f32_units_def)

lemma f32_shift_exact:
  "c \<noteq> 0 \<Longrightarrow> 2 ^ 23 \<le> m \<Longrightarrow> m < 2 ^ 24 \<Longrightarrow> f32_shift (m * 2 ^ j * c div c) = j"
  by (subst nonzero_mult_div_cancel_right) (simp, rule f32_shift_normal)

lemma f32_round_normal:
  assumes "c \<noteq> 0" "2 ^ 23 \<le> m" "m < 2 ^ 24"
  shows "f32_round (m * 2 ^ j * c) c = min INF_MAG (j * 2 ^ 23 + m)"
proof -
  have "rne (m * 2 ^ j * c) (c * 2 ^ j) = m"
    using rne_exact [of "c * 2 ^ j" m] assms(1) by (simp add: ac_simps)
  then show ?thesis unfolding f32_round_def by (simp only: f32_shift_exact [OF assms] Let_def)
qed

lemma f32_round_small: "c \<noteq> 0 \<Longrightarrow> n < 2 ^ 24 \<Longrightarrow> f32_round (n * c) c = n"
  by (simp add: f32_round_def f32_shift_small INF_MAG_def)

lemma f32_round_units:
  assumes "n < INF_MAG" "c \<noteq> 0"
  shows "f32_round (f32_units n * c) c = n"
proof -
  obtain e r where n: "n = e * 2 ^ 23 + r" and r: "r < 2 ^ 23"
    using mod_less_divisor [of "2 ^ 23" n] div_mult_mod_eq [of n "2 ^ 23"] by (metis zero_less_numeral zero_less_power)
  show ?thesis
  proof (cases e)
    case 0
    with n r assms(2) show ?thesis by (simp add: f32_units_def f32_round_small)
  next
    case (Suc j)
    have "f32_units n = (r + 2 ^ 23) * 2 ^ j"
      unfolding n using f32_units_fields [OF r, of e] Suc by (simp only: nat.simps if_False diff_Suc_1)
    then have "f32_round (f32_units n * c) c = min INF_MAG (j * 2 ^ 23 + (r + 2 ^ 23))"
      using f32_round_normal [of c "r + 2 ^ 23" j] assms(2) r by (simp only: ) simp
    also have "j * 2 ^ 23 + (r + 2 ^ 23) = n" using n Suc by simp
    finally show ?thesis using assms(1) by simp
  qed
qed

lemma f32_round_units1 [simp]: "n < INF_MAG \<Longrightarrow> f32_round (f32_units n) (Suc 0) = n"
  using f32_round_units [of n 1] by simp

lemma f32_units_0 [simp]: "f32_units 0 = 0"
  by (simp add: f32_units_def)

lemma f32_units_eq_0 [simp]: "f32_units n = 0 \<longleftrightarrow> n = 0"
  by (auto simp: f32_units_def div_eq_0_iff)

lemma f32_round_le: "f32_round a b \<le> INF_MAG"
  by (simp add: f32_round_def Let_def)

lemma f32_round_less [simp]: "f32_round a b < 2147483648"
  using f32_round_le [of a b] by (simp add: INF_MAG_def)

lemma f32_round_0 [simp]: "f32_round 0 b = 0"
  by (cases "b = 0") (simp_all add: f32_round_def f32_shift_small rne_def)

text \<open>A nonzero multiple of the unit never rounds to zero.\<close>
lemma f32_round_pos: "0 < a \<Longrightarrow> 0 < f32_round a 1"
proof (cases "a < 2 ^ 24")
  case True
  moreover assume "0 < a"
  ultimately show ?thesis by (simp add: f32_round_def f32_shift_small rne_def INF_MAG_def)
next
  case False
  then have "f32_shift a \<noteq> 0" by (subst f32_shift.simps) simp
  then show ?thesis by (simp add: f32_round_def Let_def INF_MAG_def)
qed

section \<open>Exact products and sums\<close>

lemma f32_fields_const [simp]:
  "f32_sign f32_one = False" "f32_mag f32_one = 0x3F800000"
  "f32_sign f32_neg_one = True" "f32_mag f32_neg_one = 0x3F800000"
  "f32_sign f32_zero = False" "f32_mag f32_zero = 0"
  "f32_sign f32_neg_zero = True" "f32_mag f32_neg_zero = 0"
  "f32_sign f32_NAN = False" "f32_mag f32_NAN = 0x7FC00000"
  by (simp_all add: f32_sign_def f32_mag_def f32_one_def f32_neg_one_def f32_zero_def
      f32_neg_zero_def f32_NAN_def)

lemma f32_class_const [simp]:
  "f32_is_finite f32_one" "f32_is_finite f32_neg_one" "f32_is_finite f32_zero"
  "f32_is_finite f32_neg_zero" "f32_is_nan f32_NAN" "\<not> f32_is_inf f32_NAN"
  by (simp_all add: f32_is_finite_def f32_is_nan_def f32_is_inf_def INF_MAG_def)

lemma f32_units_one: "f32_units 0x3F800000 = 2 ^ 149"
  by (simp add: f32_units_def)

lemma f32_mk_0 [simp]: "f32_mk False 0 = f32_zero" "f32_mk True 0 = f32_neg_zero"
  by (simp_all add: f32_mk_def f32_zero_def f32_neg_zero_def)

lemma f32_neg_zero_iff: "x = f32_neg_zero \<longleftrightarrow> f32_sign x \<and> f32_mag x = 0"
  by (auto intro: f32_eqI)

lemma f32_zero_iff: "x = f32_zero \<longleftrightarrow> \<not> f32_sign x \<and> f32_mag x = 0"
  by (auto intro: f32_eqI)

lemma f32_int_eq_0: "f32_int x = 0 \<longleftrightarrow> f32_mag x = 0"
  by (simp add: f32_int_def)

lemma f32_units_pos [simp]: "0 < f32_units n \<longleftrightarrow> 0 < n"
  using f32_units_eq_0 [of n] by linarith

lemma f32_int_less_0: "f32_int x < 0 \<longleftrightarrow> f32_sign x \<and> f32_mag x \<noteq> 0"
  by (simp add: f32_int_def)

lemma f32_int_abs: "nat \<bar>f32_int x\<bar> = f32_units (f32_mag x)"
  by (simp add: f32_int_def)

lemma fmul_one [simp]:
  assumes "f32_is_finite x"
  shows "fmul x f32_one = x"
proof -
  have "f32_round (f32_units (f32_mag x) * 2 ^ 149) (2 ^ 149) = f32_mag x"
    using assms by (intro f32_round_units) (simp_all add: f32_is_finite_def)
  with assms show ?thesis unfolding fmul_def Let_def
    by (simp only: f32_fields_const f32_units_one f32_finite_not f32_class_const if_False
        simp_thms f32_mk_fields)
qed

lemma fmul_neg_one [simp]:
  assumes "f32_is_finite x"
  shows "fmul x f32_neg_one = fneg x"
proof -
  have "f32_round (f32_units (f32_mag x) * 2 ^ 149) (2 ^ 149) = f32_mag x"
    using assms by (intro f32_round_units) (simp_all add: f32_is_finite_def)
  with assms show ?thesis unfolding fmul_def Let_def fneg_def
    by (simp only: f32_fields_const f32_units_one f32_finite_not f32_class_const if_False
        simp_thms)
qed

lemma fmul_zero [simp]: "f32_is_finite x \<Longrightarrow> fmul x f32_zero = f32_mk (f32_sign x) 0"
  by (simp add: fmul_def)

text \<open>An accumulator that started at \<open>0.0\<close>: never negative zero, and a NaN only as an operation makes it.\<close>
definition acc_ok :: "f32 \<Rightarrow> bool" where
  "acc_ok a \<longleftrightarrow> a \<noteq> f32_neg_zero \<and> (f32_is_nan a \<longrightarrow> a = f32_NAN)"

lemma acc_ok_zero [simp]: "acc_ok f32_zero"
  by (simp add: acc_ok_def f32_neg_zero_iff)

lemma acc_ok_fadd [simp]:
  assumes "acc_ok a"
  shows "acc_ok (fadd a y)"
proof -
  consider "f32_is_nan a \<or> f32_is_nan y" | "\<not> f32_is_nan a" "\<not> f32_is_nan y" "f32_is_inf a \<or> f32_is_inf y"
    | "\<not> f32_is_nan a" "\<not> f32_is_nan y" "\<not> f32_is_inf a" "\<not> f32_is_inf y" by blast
  then show ?thesis
  proof cases
    case 1
    then show ?thesis by (simp add: fadd_def acc_ok_def f32_neg_zero_iff)
  next
    case 2
    then show ?thesis using assms
      by (auto simp: fadd_def acc_ok_def f32_neg_zero_iff f32_is_inf_def INF_MAG_def)
  next
    case 3
    show ?thesis
    proof (cases "f32_int a + f32_int y = 0")
      case True
      have "\<not> (f32_sign a \<and> f32_sign y)"
      proof
        assume neg: "f32_sign a \<and> f32_sign y"
        with True have "f32_mag a = 0" by (simp add: f32_int_def)
        with neg assms show False by (simp add: acc_ok_def f32_neg_zero_iff)
      qed
      then have "f32_mk (f32_sign a \<and> f32_sign y) 0 = f32_zero" by (cases "f32_sign a") simp_all
      with 3 True have "fadd a y = f32_zero" unfolding fadd_def Let_def by simp
      then show ?thesis by simp
    next
      case False
      let ?r = "f32_round (nat \<bar>f32_int a + f32_int y\<bar>) 1"
      have "0 < ?r" using False by (intro f32_round_pos) simp
      moreover have "\<not> INF_MAG < ?r" using f32_round_le by (simp add: not_less)
      ultimately show ?thesis using 3 False
        by (simp add: fadd_def Let_def acc_ok_def f32_neg_zero_iff f32_is_nan_def)
    qed
  qed
qed

lemma acc_ok_fsub [simp]: "acc_ok a \<Longrightarrow> acc_ok (fsub a y)"
  by (simp add: fsub_def)

lemma fadd_zero_right:
  assumes "f32_mag z = 0" and "f32_is_nan a \<longrightarrow> a = f32_NAN"
  shows "fadd a z = a \<or> (a = f32_neg_zero \<and> z = f32_zero \<and> fadd a z = f32_zero)"
proof -
  have z: "\<not> f32_is_nan z" "\<not> f32_is_inf z" "f32_int z = 0"
    using assms(1) by (simp_all add: f32_is_nan_def f32_is_inf_def INF_MAG_def f32_int_eq_0)
  show ?thesis
  proof (cases "f32_mag a = 0")
    case True
    then have "\<not> f32_is_nan a" "\<not> f32_is_inf a"
      by (simp_all add: f32_is_nan_def f32_is_inf_def INF_MAG_def)
    moreover have "f32_int a + f32_int z = 0" using True assms(1) by (simp add: f32_int_def)
    ultimately have "fadd a z = f32_mk (f32_sign a \<and> f32_sign z) 0"
      using z by (simp add: fadd_def)
    with True assms(1) show ?thesis
      by (cases "f32_sign a"; cases "f32_sign z") (auto simp: f32_neg_zero_iff f32_zero_iff intro: f32_eqI)
  next
    case False
    have "f32_mk (f32_int a < 0) (f32_round (nat \<bar>f32_int a\<bar>) 1) = a"
      if "\<not> f32_is_nan a" "\<not> f32_is_inf a"
      using that False
      by (simp add: f32_int_less_0 f32_int_abs f32_is_nan_def f32_is_inf_def)
    moreover have "f32_int a + f32_int z = f32_int a" using z(3) by simp
    moreover have "f32_int a \<noteq> 0" using False by (simp add: f32_int_eq_0)
    ultimately show ?thesis using z(1,2) assms(2) by (auto simp: fadd_def Let_def)
  qed
qed

lemma fadd_zero_acc [simp]: "f32_mag z = 0 \<Longrightarrow> acc_ok a \<Longrightarrow> fadd a z = a"
  using fadd_zero_right [of z a] by (auto simp: acc_ok_def)

lemma fadd_commute: "f32_is_nan x \<or> f32_is_nan y \<or> \<not> (f32_is_inf x \<and> f32_is_inf y) \<Longrightarrow> fadd x y = fadd y x"
  by (auto simp: fadd_def add.commute conj_commute Let_def)

lemma fmul_commute: "fmul x y = fmul y x"
proof -
  have "(f32_sign x \<noteq> f32_sign y) = (f32_sign y \<noteq> f32_sign x)" by blast
  then show ?thesis unfolding fmul_def Let_def by (simp only: mult.commute disj_commute)
qed

section \<open>Rounding is monotone\<close>

lemma f32_shift_upper: "q < 2 ^ (24 + f32_shift q)"
proof (induction q rule: f32_shift.induct)
  case (1 q)
  show ?case
  proof (cases "q < 2 ^ 24")
    case True
    then show ?thesis by (simp add: f32_shift_small f32_shift_step)
  next
    case False
    then have "q div 2 < 2 ^ (24 + f32_shift (q div 2))" by (rule 1)
    moreover have "f32_shift q = Suc (f32_shift (q div 2))" using False by (simp add: f32_shift_small f32_shift_step)
    ultimately show ?thesis by (simp add: div_less_iff_less_mult power_add)
  qed
qed

lemma f32_shift_lower: "0 < f32_shift q \<Longrightarrow> 2 ^ (23 + f32_shift q) \<le> q"
proof (induction q rule: f32_shift.induct)
  case (1 q)
  then have big: "\<not> q < 2 ^ 24" by (auto simp: f32_shift_small f32_shift_step)
  then have s: "f32_shift q = Suc (f32_shift (q div 2))" by (simp add: f32_shift_small f32_shift_step)
  have "2 ^ (23 + f32_shift (q div 2)) \<le> q div 2"
  proof (cases "f32_shift (q div 2)")
    case 0
    have "2 ^ 23 \<le> q div 2" using big by simp
    with 0 show ?thesis by simp
  next
    case (Suc j)
    with 1 big show ?thesis by simp
  qed
  then have "2 * 2 ^ (23 + f32_shift (q div 2)) \<le> q" by simp
  then show ?case using s by (simp add: power_add)
qed

lemma f32_shift_mono: "p \<le> q \<Longrightarrow> f32_shift p \<le> f32_shift q"
proof (rule ccontr)
  assume pq: "p \<le> q" and "\<not> f32_shift p \<le> f32_shift q"
  then have lt: "f32_shift q < f32_shift p" by simp
  then have "(2 :: nat) ^ (24 + f32_shift q) \<le> 2 ^ (23 + f32_shift p)"
    by (intro power_increasing) simp_all
  also have "\<dots> \<le> p" using lt by (intro f32_shift_lower) simp
  also have "\<dots> < 2 ^ (24 + f32_shift q)" using pq f32_shift_upper [of q] by simp
  finally show False by simp
qed

lemma rne_bounds: "a div c \<le> rne a c" "rne a c \<le> a div c + 1"
  by (simp_all add: rne_def Let_def)

lemma mod_le_same_div:
  fixes a a' c :: nat
  assumes "a \<le> a'" "a div c = a' div c"
  shows "a mod c \<le> a' mod c"
proof -
  have "a' div c * c + a mod c \<le> a' div c * c + a' mod c"
    using assms div_mult_mod_eq [of a c] div_mult_mod_eq [of a' c] by argo
  then show ?thesis by (rule add_le_imp_le_left)
qed

lemma rne_mono:
  assumes "a \<le> a'"
  shows "rne a c \<le> rne a' c"
proof (cases "a div c = a' div c")
  case True
  with assms have "a mod c \<le> a' mod c" by (rule mod_le_same_div)
  with True show ?thesis by (auto simp: rne_def Let_def)
next
  case False
  with assms have "a div c + 1 \<le> a' div c" using div_le_mono [OF assms, of c] by simp
  with rne_bounds(2) [of a c] rne_bounds(1) [of a' c] show ?thesis by linarith
qed

lemma rne_shift_le: "0 < b \<Longrightarrow> rne a (b * 2 ^ f32_shift (a div b)) \<le> 2 ^ 24"
proof -
  let ?k = "f32_shift (a div b)"
  have "a div b div 2 ^ ?k < 2 ^ 24"
    using f32_shift_upper [of "a div b"] by (simp add: div_less_iff_less_mult power_add)
  then have "a div (b * 2 ^ ?k) < 2 ^ 24" by (simp add: div_mult2_eq)
  with rne_bounds(2) [of a "b * 2 ^ ?k"] show ?thesis by linarith
qed

lemma rne_shift_ge: "0 < f32_shift (a div b) \<Longrightarrow> 2 ^ 23 \<le> rne a (b * 2 ^ f32_shift (a div b))"
proof -
  let ?k = "f32_shift (a div b)"
  assume "0 < ?k"
  then have "2 ^ 23 * 2 ^ ?k \<le> a div b" using f32_shift_lower [of "a div b"] by (simp add: power_add)
  then have "2 ^ 23 \<le> a div b div 2 ^ ?k" by (simp add: less_eq_div_iff_mult_less_eq)
  then have "2 ^ 23 \<le> a div (b * 2 ^ ?k)" by (simp add: div_mult2_eq)
  with rne_bounds(1) [of a "b * 2 ^ ?k"] show ?thesis by linarith
qed

lemma f32_round_mono:
  assumes "a \<le> a'" "0 < b"
  shows "f32_round a b \<le> f32_round a' b"
proof -
  let ?k = "f32_shift (a div b)" and ?k' = "f32_shift (a' div b)"
  have "?k \<le> ?k'" using assms by (intro f32_shift_mono div_le_mono)
  have "?k * 2 ^ 23 + rne a (b * 2 ^ ?k) \<le> ?k' * 2 ^ 23 + rne a' (b * 2 ^ ?k')"
  proof (cases "?k = ?k'")
    case True
    with rne_mono [OF assms(1), of "b * 2 ^ ?k'"] show ?thesis by simp
  next
    case False
    with \<open>?k \<le> ?k'\<close> have "?k + 1 \<le> ?k'" by simp
    then have "(?k + 1) * 2 ^ 23 \<le> ?k' * 2 ^ 23" by (rule mult_le_mono1)
    moreover have "2 ^ 23 \<le> rne a' (b * 2 ^ ?k')" using \<open>?k + 1 \<le> ?k'\<close> by (intro rne_shift_ge) simp
    moreover have "rne a (b * 2 ^ ?k) \<le> 2 ^ 24" using assms(2) by (rule rne_shift_le)
    ultimately show ?thesis by simp
  qed
  then show ?thesis by (simp add: f32_round_def Let_def min_le_iff_disj)
qed

text \<open>Rounding never crosses a representable bound.\<close>
lemma f32_round_le_units: "a \<le> f32_units n * b \<Longrightarrow> 0 < b \<Longrightarrow> n < INF_MAG \<Longrightarrow> f32_round a b \<le> n"
  using f32_round_mono [of a "f32_units n * b" b] f32_round_units [of n b] by simp

lemma f32_units_mono:
  assumes "n \<le> n'"
  shows "f32_units n \<le> f32_units n'"
proof (cases "n div 2 ^ 23 = n' div 2 ^ 23")
  case True
  with assms have "n mod 2 ^ 23 \<le> n' mod 2 ^ 23" by (rule mod_le_same_div)
  with True assms show ?thesis by (auto simp: f32_units_def intro!: mult_le_mono1)
next
  case False
  let ?e = "n div 2 ^ 23" and ?e' = "n' div 2 ^ 23"
  have lt: "?e < ?e'" using False div_le_mono [OF assms, of "2 ^ 23"] by simp
  have m: "n mod 2 ^ 23 + 2 ^ 23 \<le> 2 ^ 24" using mod_less_divisor [of "2 ^ 23" n] by simp
  have "f32_units n \<le> 2 ^ 23 * 2 ^ (?e' - 1)"
  proof (cases "?e = 0")
    case True
    then have "n < 2 ^ 23" by (simp add: div_eq_0_iff)
    moreover have "(2 :: nat) ^ 23 * 1 \<le> 2 ^ 23 * 2 ^ (?e' - 1)" by (intro mult_le_mono2) simp
    ultimately have "n \<le> 2 ^ 23 * 2 ^ (?e' - 1)" by linarith
    then show ?thesis using True by (simp add: f32_units_def)
  next
    case e: False
    then have "f32_units n \<le> 2 ^ 24 * 2 ^ (?e - 1)" using m by (simp add: f32_units_def)
    also have "\<dots> = 2 ^ 23 * 2 ^ ?e" using e by (cases ?e) simp_all
    also have "\<dots> \<le> 2 ^ 23 * 2 ^ (?e' - 1)" using lt by (intro mult_le_mono2 power_increasing) simp_all
    finally show ?thesis .
  qed
  also have "\<dots> \<le> f32_units n'" using lt by (simp add: f32_units_def)
  finally show ?thesis .
qed

end
