(* ===== verification/Trits.thy ===== *)
theory Trits
  imports F32
begin

text \<open>
  The vocabulary of \<open>tritium-core\<close>: the ternary scalar (\<open>trit.rs\<close>), its errors (\<open>error.rs\<close>), the
  geometry records (\<open>shape.rs\<close>), the precision lattice (\<open>dtype.rs\<close>) and the scale granularities
  (\<open>scale.rs\<close>).  \<open>Trit\<close> is a transparent \<open>i8\<close> whose constructors admit only the three states, so its
  model has exactly those three constructors and \<^term>\<open>get\<close> reads the integer.  Products of plain
  \<open>usize\<close> dimensions are taken in the naturals: the model covers shapes whose buffers can exist.
\<close>

section \<open>The ternary scalar\<close>

datatype trit = NEG | ZERO | POS

datatype TritError = OutOfRange int | ShapeMismatch (expected: nat) (got: nat)

fun get :: "trit \<Rightarrow> i8" where
  "get NEG = -1"
| "get ZERO = 0"
| "get POS = 1"

definition from_i8 :: "i8 \<Rightarrow> TritError + trit" where
  "from_i8 v = (if v = -1 then Inr NEG else if v = 0 then Inr ZERO else if v = 1 then Inr POS
     else Inl (OutOfRange v))"

definition from_sign :: "i8 \<Rightarrow> trit" where
  "from_sign v = (if v > 0 then POS else if v < 0 then NEG else ZERO)"

definition trit_to_f32 :: "trit \<Rightarrow> f32" where
  "trit_to_f32 t = f32_of_int (get t)"

definition trit_is_zero :: "trit \<Rightarrow> bool" where
  "trit_is_zero t \<longleftrightarrow> get t = 0"

text \<open>The derived order of \<open>Trit\<close> is the order of its \<open>i8\<close>.\<close>
instantiation trit :: linorder
begin

definition less_eq_trit :: "trit \<Rightarrow> trit \<Rightarrow> bool" where "less_eq_trit s t \<longleftrightarrow> get s \<le> get t"
definition less_trit :: "trit \<Rightarrow> trit \<Rightarrow> bool" where "less_trit s t \<longleftrightarrow> get s < get t"

instance
proof
  fix s t u :: trit
  show "s \<le> t \<Longrightarrow> t \<le> s \<Longrightarrow> s = t" by (cases s; cases t) (simp_all add: less_eq_trit_def)
qed (auto simp: less_eq_trit_def less_trit_def)

end

lemma get_range: "get t \<in> {-1, 0, 1}"
  by (cases t) simp_all

lemma get_inject [simp]: "get s = get t \<longleftrightarrow> s = t"
  by (cases s; cases t) simp_all

lemma from_i8_get [simp]: "from_i8 (get t) = Inr t"
  by (cases t) (simp_all add: from_i8_def)

lemma from_i8_eq_Inr: "from_i8 v = Inr t \<longleftrightarrow> v = get t"
  by (cases t) (auto simp: from_i8_def)

lemma from_sign_get [simp]: "from_sign (get t) = t"
  by (cases t) (simp_all add: from_sign_def)

lemma f32_of_int_one: "f32_of_int 1 = f32_one" "f32_of_int (-1) = f32_neg_one"
proof -
  have "f32_round (2 ^ 149) (Suc 0) = 0x3F800000"
    using f32_round_units1 [of "0x3F800000"] by (simp only: f32_units_one) (simp add: INF_MAG_def)
  then show "f32_of_int 1 = f32_one" "f32_of_int (-1) = f32_neg_one"
    by (simp_all add: f32_of_int_def f32_mk_def f32_one_def f32_neg_one_def)
qed

lemma trit_to_f32_simps [simp]:
  "trit_to_f32 POS = f32_one" "trit_to_f32 NEG = f32_neg_one" "trit_to_f32 ZERO = f32_zero"
  using f32_of_int_one by (simp_all add: trit_to_f32_def f32_of_int_def)

section \<open>Problem geometry\<close>

record GemmShape =
  gemm_m :: usize
  gemm_n :: usize
  gemm_k :: usize

definition macs :: "GemmShape \<Rightarrow> u64" where
  "macs s = of_nat (gemm_m s) * of_nat (gemm_n s) * of_nat (gemm_k s)"

definition gemm_buffers_fit :: "GemmShape \<Rightarrow> usize \<Rightarrow> usize \<Rightarrow> usize \<Rightarrow> bool" where
  "gemm_buffers_fit s act_len weight_len out_len \<longleftrightarrow>
     act_len = gemm_m s * gemm_k s \<and> weight_len = gemm_n s * gemm_k s
     \<and> out_len = gemm_m s * gemm_n s"

record ConvShape =
  cv_batch :: usize
  cv_c_in :: usize
  cv_c_out :: usize
  cv_l_in :: usize
  cv_k :: usize
  cv_stride :: usize
  cv_dilation :: usize
  cv_pad_left :: usize
  cv_pad_right :: usize
  cv_groups :: usize

definition l_out :: "ConvShape \<Rightarrow> usize" where
  "l_out s =
    (if cv_k s = 0 \<or> cv_stride s = 0 then 0
     else let eff = cv_dilation s * (cv_k s - 1) + 1;
              padded = cv_l_in s + cv_pad_left s + cv_pad_right s
       in if padded < eff then 0 else (padded - eff) div cv_stride s + 1)"

definition c_in_pg :: "ConvShape \<Rightarrow> usize" where "c_in_pg s = cv_c_in s div cv_groups s"
definition n_g :: "ConvShape \<Rightarrow> usize" where "n_g s = cv_c_out s div cv_groups s"
definition k_g :: "ConvShape \<Rightarrow> usize" where "k_g s = c_in_pg s * cv_k s"

definition conv_buffers_fit :: "ConvShape \<Rightarrow> usize \<Rightarrow> usize \<Rightarrow> usize \<Rightarrow> usize \<Rightarrow> bool" where
  "conv_buffers_fit s x_len weight_len scale_len out_len \<longleftrightarrow>
     cv_groups s \<noteq> 0 \<and> cv_k s \<noteq> 0 \<and> cv_stride s \<noteq> 0 \<and> cv_dilation s \<noteq> 0
     \<and> cv_c_in s mod cv_groups s = 0 \<and> cv_c_out s mod cv_groups s = 0
     \<and> l_out s > 0
     \<and> x_len = cv_batch s * cv_c_in s * cv_l_in s
     \<and> weight_len = cv_c_out s * k_g s
     \<and> scale_len = cv_c_out s
     \<and> out_len = cv_batch s * cv_c_out s * l_out s"

text \<open>The last tap of the last window still falls inside the padded input.\<close>
lemma l_out_last_window:
  assumes "0 < l_out s"
  shows "(l_out s - 1) * cv_stride s + cv_dilation s * (cv_k s - 1)
    < cv_l_in s + cv_pad_left s + cv_pad_right s"
proof -
  let ?eff = "cv_dilation s * (cv_k s - 1) + 1"
  let ?padded = "cv_l_in s + cv_pad_left s + cv_pad_right s"
  have l: "l_out s = (?padded - ?eff) div cv_stride s + 1" and fit: "?eff \<le> ?padded"
    using assms by (auto simp: l_out_def Let_def split: if_splits)
  have e: "l_out s - 1 = (?padded - ?eff) div cv_stride s" using l by simp
  have "(l_out s - 1) * cv_stride s \<le> ?padded - ?eff"
    unfolding e by (rule div_times_less_eq_dividend)
  with fit show ?thesis by linarith
qed

lemma conv_buffers_fit_dims:
  "conv_buffers_fit s a b c d \<Longrightarrow> cv_groups s * n_g s = cv_c_out s"
  "conv_buffers_fit s a b c d \<Longrightarrow> cv_groups s * c_in_pg s = cv_c_in s"
  by (auto simp: conv_buffers_fit_def n_g_def c_in_pg_def)

section \<open>Precisions and packings\<close>

datatype DType = Ternary | I4 | I8 | U8 | F8E4M3 | F8E5M2 | F4E2M1 | F16 | BF16 | DF32

definition dtype_is_ternary :: "DType \<Rightarrow> bool" where
  "dtype_is_ternary d \<longleftrightarrow> d = Ternary"

definition dtype_is_float :: "DType \<Rightarrow> bool" where
  "dtype_is_float d \<longleftrightarrow> d \<in> {F8E4M3, F8E5M2, F4E2M1, F16, BF16, DF32}"

datatype TernaryFormat = Tq1_0 | Tq2_0 | I2sInt8

text \<open>The literals \<open>1.6875\<close>, \<open>2.0625\<close> and \<open>2.0\<close>.\<close>
fun bits_per_weight :: "TernaryFormat \<Rightarrow> f32" where
  "bits_per_weight Tq1_0 = 0x3FD80000"
| "bits_per_weight Tq2_0 = 0x40040000"
| "bits_per_weight I2sInt8 = 0x40000000"

definition block_size :: "TernaryFormat \<Rightarrow> usize" where
  "block_size f = 256"

definition is_bit_aligned :: "TernaryFormat \<Rightarrow> bool" where
  "is_bit_aligned f \<longleftrightarrow> f \<in> {Tq2_0, I2sInt8}"

section \<open>Scales\<close>

datatype ScaleGranularity = PerTensor | PerChannel | PerGroup nat

fun scale_count :: "ScaleGranularity \<Rightarrow> usize \<Rightarrow> usize \<Rightarrow> usize" where
  "scale_count PerTensor n_out k_in = 1"
| "scale_count PerChannel n_out k_in = n_out"
| "scale_count (PerGroup g) n_out k_in = n_out * div_ceil k_in g"

definition absmean :: "f32 list \<Rightarrow> f32" where
  "absmean weights = (if weights = [] then f32_zero
     else fdiv (foldl (\<lambda>sum w. fadd sum (f32_abs w)) f32_zero weights)
       (f32_of_nat (length weights)))"

end
