(* ===== verification/Kernels.thy ===== *)
theory Kernels
  imports Trits
begin

text \<open>
  The reference kernels of \<open>tritium-core\<close> (\<open>reference.rs\<close>, \<open>dense.rs\<close>) and the training forwards of
  \<open>tritium-train\<close> they are documented to agree with (\<open>ops/matmul.rs\<close>, \<open>ops/conv1d.rs\<close>).  An output
  buffer is returned as a list; the loops write its cells in ascending order, so a nest of counting
  loops is a list comprehension over the same ranges.  Accumulations keep the loop order, since
  floating-point addition does not associate.
\<close>

section \<open>Ternary kernels\<close>

text \<open>The add / subtract / skip step of the inner loop.\<close>
fun acc_trit :: "trit \<Rightarrow> f32 \<Rightarrow> f32 \<Rightarrow> f32" where
  "acc_trit POS acc x = fadd acc x"
| "acc_trit NEG acc x = fsub acc x"
| "acc_trit ZERO acc x = acc"

definition check :: "usize \<Rightarrow> usize \<Rightarrow> TritError + unit" where
  "check g e = (if g = e then Inr () else Inl (ShapeMismatch e g))"

definition reference_mpgemm ::
  "f32 list \<Rightarrow> trit list \<Rightarrow> f32 list \<Rightarrow> GemmShape \<Rightarrow> usize \<Rightarrow> TritError + f32 list" where
  "reference_mpgemm act weights scale_n shape out_len =
    (let m = gemm_m shape; n = gemm_n shape; k = gemm_k shape in
     rbind (check (length act) (m * k)) (\<lambda>_.
     rbind (check (length weights) (n * k)) (\<lambda>_.
     rbind (check (length scale_n) n) (\<lambda>_.
     rbind (check out_len (m * n)) (\<lambda>_.
     Inr [let arow = window (mi * k) k act; wrow = window (ni * k) k weights;
              acc = fold (\<lambda>ki acc. acc_trit (wrow ! ki) acc (arow ! ki)) [0..<k] f32_zero
          in fmul acc (scale_n ! ni).
          mi \<leftarrow> [0..<m], ni \<leftarrow> [0..<n]])))))"

text \<open>The tap of window position \<open>l\<close> and kernel offset \<open>kk\<close>, when it is not padding.\<close>
definition conv_tap :: "ConvShape \<Rightarrow> nat \<Rightarrow> nat \<Rightarrow> nat option" where
  "conv_tap s l kk =
    (let p = int l * int (cv_stride s) + int kk * int (cv_dilation s) - int (cv_pad_left s)
     in if p \<ge> 0 \<and> nat p < cv_l_in s then Some (nat p) else None)"

definition reference_conv1d ::
  "f32 list \<Rightarrow> trit list \<Rightarrow> f32 list \<Rightarrow> ConvShape \<Rightarrow> usize \<Rightarrow> TritError + f32 list" where
  "reference_conv1d x weights scale_n s out_len =
    (if \<not> conv_buffers_fit s (length x) (length weights) (length scale_n) out_len
     then Inl (ShapeMismatch (cv_batch s * cv_c_out s * l_out s) out_len)
     else Inr
      [let co = g * n_g s + n; wrow = window (co * k_g s) (k_g s) weights;
           acc = fold (\<lambda>ci_local acc.
               let ci = g * c_in_pg s + ci_local; xbase = (b * cv_c_in s + ci) * cv_l_in s
               in fold (\<lambda>kk acc. case conv_tap s l kk of None \<Rightarrow> acc
                     | Some p \<Rightarrow> acc_trit (wrow ! (ci_local * cv_k s + kk)) acc (x ! (xbase + p)))
                   [0..<cv_k s] acc) [0..<c_in_pg s] f32_zero
       in fmul acc (scale_n ! co).
       b \<leftarrow> [0..<cv_batch s], g \<leftarrow> [0..<cv_groups s], n \<leftarrow> [0..<n_g s], l \<leftarrow> [0..<l_out s]])"

section \<open>Training forwards\<close>

definition matmul_forward ::
  "f32 list \<Rightarrow> f32 list \<Rightarrow> f32 list \<Rightarrow> usize \<Rightarrow> usize \<Rightarrow> usize \<Rightarrow> f32 list" where
  "matmul_forward act weights scale m n k =
     [let acc = fold (\<lambda>ki acc. fadd acc (fmul (act ! (mi * k + ki)) (weights ! (ni * k + ki))))
                  [0..<k] f32_zero
      in fmul (scale ! ni) acc.
      mi \<leftarrow> [0..<m], ni \<leftarrow> [0..<n]]"

text \<open>Column \<open>j = ci' * K + kk\<close> of row \<open>l\<close>; padding taps keep the initial zero.\<close>
definition im2col :: "f32 list \<Rightarrow> ConvShape \<Rightarrow> nat \<Rightarrow> nat \<Rightarrow> f32 list" where
  "im2col x s b g =
     [let ci = g * c_in_pg s + ci_local; base = (b * cv_c_in s + ci) * cv_l_in s
      in case conv_tap s l kk of None \<Rightarrow> f32_zero | Some p \<Rightarrow> x ! (base + p).
      l \<leftarrow> [0..<l_out s], ci_local \<leftarrow> [0..<c_in_pg s], kk \<leftarrow> [0..<cv_k s]]"

definition conv1d_forward :: "f32 list \<Rightarrow> f32 list \<Rightarrow> f32 list \<Rightarrow> ConvShape \<Rightarrow> f32 list" where
  "conv1d_forward x w scale s =
     concat (map (\<lambda>b. concat (map (\<lambda>g.
       let cols = im2col x s b g;
           w_g = window (g * n_g s * k_g s) (n_g s * k_g s) w;
           s_g = window (g * n_g s) (n_g s) scale;
           y_bg = matmul_forward cols w_g s_g (l_out s) (n_g s) (k_g s)
       in [y_bg ! (l * n_g s + n). n \<leftarrow> [0..<n_g s], l \<leftarrow> [0..<l_out s]])
       [0..<cv_groups s])) [0..<cv_batch s])"

section \<open>Multiply-free accumulation is the float accumulation\<close>

lemma acc_trit_ok [simp]: "acc_ok acc \<Longrightarrow> acc_ok (acc_trit t acc x)"
  by (cases t) simp_all

text \<open>One step: for a finite operand, adding \<open>x * t\<close> is adding, subtracting or skipping \<open>x\<close>.\<close>
lemma acc_trit_float:
  assumes "f32_is_finite x" "acc_ok acc"
  shows "fadd acc (fmul x (trit_to_f32 t)) = acc_trit t acc x"
  using assms by (cases t) (simp_all add: fsub_def)

lemma acc_trit_zero [simp]: "acc_ok acc \<Longrightarrow> acc_trit t acc f32_zero = acc"
  by (cases t) (simp_all add: fsub_def)

lemma fold_acc_trit:
  assumes "\<And>i. i \<in> set is \<Longrightarrow> f32_is_finite (x i)" "acc_ok acc"
  shows "fold (\<lambda>i acc. fadd acc (fmul (x i) (trit_to_f32 (t i)))) is acc
       = fold (\<lambda>i acc. acc_trit (t i) acc (x i)) is acc"
    and "acc_ok (fold (\<lambda>i acc. acc_trit (t i) acc (x i)) is acc)"
proof -
  have "fold (\<lambda>i acc. fadd acc (fmul (x i) (trit_to_f32 (t i)))) is acc
       = fold (\<lambda>i acc. acc_trit (t i) acc (x i)) is acc
      \<and> acc_ok (fold (\<lambda>i acc. acc_trit (t i) acc (x i)) is acc)"
    using assms by (induction "is" arbitrary: acc) (simp_all add: acc_trit_float)
  then show "fold (\<lambda>i acc. fadd acc (fmul (x i) (trit_to_f32 (t i)))) is acc
       = fold (\<lambda>i acc. acc_trit (t i) acc (x i)) is acc"
    and "acc_ok (fold (\<lambda>i acc. acc_trit (t i) acc (x i)) is acc)" by auto
qed

lemma reference_mpgemm_ok:
  "reference_mpgemm act weights scale_n shape out_len = Inr out \<longleftrightarrow>
    gemm_buffers_fit shape (length act) (length weights) out_len
    \<and> length scale_n = gemm_n shape
    \<and> out = [let arow = window (mi * gemm_k shape) (gemm_k shape) act;
                wrow = window (ni * gemm_k shape) (gemm_k shape) weights;
                acc = fold (\<lambda>ki acc. acc_trit (wrow ! ki) acc (arow ! ki)) [0..<gemm_k shape] f32_zero
            in fmul acc (scale_n ! ni).
            mi \<leftarrow> [0..<gemm_m shape], ni \<leftarrow> [0..<gemm_n shape]]"
  unfolding reference_mpgemm_def gemm_buffers_fit_def check_def Let_def by auto

text \<open>C6: On finite activations the multiply-free reference GEMM and the training matmul forward run
  on the same weights as floats give the same bits in every output cell.\<close>
theorem mpgemm_matches_training_matmul:
  assumes "reference_mpgemm act weights scale_n shape out_len = Inr out"
    and "list_all f32_is_finite act"
  shows "out = matmul_forward act (map trit_to_f32 weights) scale_n
      (gemm_m shape) (gemm_n shape) (gemm_k shape)"
proof -
  let ?k = "gemm_k shape"
  from assms(1) have lens: "length act = gemm_m shape * ?k" "length weights = gemm_n shape * ?k"
    and out: "out = [let arow = window (mi * ?k) ?k act; wrow = window (ni * ?k) ?k weights;
        acc = fold (\<lambda>ki acc. acc_trit (wrow ! ki) acc (arow ! ki)) [0..<?k] f32_zero
      in fmul acc (scale_n ! ni). mi \<leftarrow> [0..<gemm_m shape], ni \<leftarrow> [0..<gemm_n shape]]"
    by (simp_all add: reference_mpgemm_ok gemm_buffers_fit_def)
  have cell: "fold (\<lambda>ki acc. acc_trit (window (ni * ?k) ?k weights ! ki) acc (window (mi * ?k) ?k act ! ki))
        [0..<?k] f32_zero
    = fold (\<lambda>ki acc. fadd acc (fmul (act ! (mi * ?k + ki)) (map trit_to_f32 weights ! (ni * ?k + ki))))
        [0..<?k] f32_zero" if "mi < gemm_m shape" "ni < gemm_n shape" for mi ni
  proof -
    have "fold (\<lambda>ki acc. fadd acc (fmul (act ! (mi * ?k + ki)) (map trit_to_f32 weights ! (ni * ?k + ki))))
          [0..<?k] f32_zero
        = fold (\<lambda>ki acc. fadd acc (fmul (act ! (mi * ?k + ki)) (trit_to_f32 (weights ! (ni * ?k + ki)))))
          [0..<?k] f32_zero"
      using that lens by (intro fold_cong) (simp_all add: grid_bound)
    also have "\<dots> = fold (\<lambda>ki acc. acc_trit (weights ! (ni * ?k + ki)) acc (act ! (mi * ?k + ki)))
          [0..<?k] f32_zero"
      using that lens assms(2)
      by (intro fold_acc_trit(1)) (simp_all add: list_all_length grid_bound)
    also have "\<dots> = fold (\<lambda>ki acc. acc_trit (window (ni * ?k) ?k weights ! ki) acc
          (window (mi * ?k) ?k act ! ki)) [0..<?k] f32_zero"
      using that lens by (intro fold_cong) (simp_all add: row_window)
    finally show ?thesis ..
  qed
  show ?thesis unfolding out matmul_forward_def Let_def
    by (intro arg_cong [where f = concat] map_cong refl) (simp add: cell fmul_commute)
qed

theorem mpgemm_matches_training_matmul_witness:
  "reference_mpgemm [0x3F800000, 0x40000000] [POS, NEG] [0x3F800000] \<lparr>gemm_m = 1, gemm_n = 1, gemm_k = 2\<rparr> 1
     = Inr [0xBF800000]
   \<and> matmul_forward [0x3F800000, 0x40000000] [f32_one, f32_neg_one] [0x3F800000] 1 1 2 = [0xBF800000]"
proof -
  have f: "fadd 0 0x3F800000 = 0x3F800000" "fsub 0x3F800000 0x40000000 = 0xBF800000"
    by (simp_all add: f32_eval)
  have one: "fmul 0xBF800000 0x3F800000 = 0xBF800000"
    using fmul_one [of "0xBF800000"] by (simp add: f32_one_def f32_fields)
  have run: "reference_mpgemm [0x3F800000, 0x40000000] [POS, NEG] [0x3F800000]
      \<lparr>gemm_m = 1, gemm_n = 1, gemm_k = 2\<rparr> 1 = Inr [0xBF800000]"
    by (simp add: reference_mpgemm_def check_def window_def f one f32_zero_def upt_rec)
  moreover have "list_all f32_is_finite [0x3F800000, 0x40000000]" by (simp add: f32_fields)
  ultimately show ?thesis using mpgemm_matches_training_matmul [OF run] by simp
qed

section \<open>Convolution\<close>

text \<open>The value a window tap contributes: an input sample, or the zero of the padding.\<close>
definition tap_value :: "f32 list \<Rightarrow> ConvShape \<Rightarrow> nat \<Rightarrow> nat \<Rightarrow> nat \<Rightarrow> nat \<Rightarrow> nat \<Rightarrow> f32" where
  "tap_value x s b g l ci kk = (case conv_tap s l kk of None \<Rightarrow> f32_zero
     | Some p \<Rightarrow> x ! ((b * cv_c_in s + (g * c_in_pg s + ci)) * cv_l_in s + p))"

lemma im2col_nth:
  "l < l_out s \<Longrightarrow> ci < c_in_pg s \<Longrightarrow> kk < cv_k s \<Longrightarrow>
   im2col x s b g ! (l * k_g s + (ci * cv_k s + kk)) = tap_value x s b g l ci kk"
  unfolding im2col_def k_g_def tap_value_def Let_def by (rule nth_grid3)

lemma tap_value_finite:
  assumes fit: "conv_buffers_fit s (length x) wl sl ol" and fin: "list_all f32_is_finite x"
    and "b < cv_batch s" "g < cv_groups s" "ci < c_in_pg s"
  shows "f32_is_finite (tap_value x s b g l ci kk)"
proof (cases "conv_tap s l kk")
  case None
  then show ?thesis by (simp add: tap_value_def)
next
  case (Some p)
  then have p: "p < cv_l_in s" by (auto simp: conv_tap_def Let_def split: if_splits)
  have "g * c_in_pg s + ci < cv_c_in s"
    using grid_bound [OF assms(4,5)] conv_buffers_fit_dims(2) [OF fit] by simp
  then have "(b * cv_c_in s + (g * c_in_pg s + ci)) * cv_l_in s + p
      < cv_batch s * cv_c_in s * cv_l_in s"
    using grid_bound [OF assms(3)] grid_bound [OF _ p] by blast
  with fit fin Some show ?thesis
    by (simp add: tap_value_def conv_buffers_fit_def list_all_length)
qed

lemma conv_fold_taps:
  assumes "acc_ok acc"
  shows "fold (\<lambda>kk acc. case conv_tap s l kk of None \<Rightarrow> acc
        | Some p \<Rightarrow> acc_trit (t kk) acc (x ! ((b * cv_c_in s + (g * c_in_pg s + ci)) * cv_l_in s + p)))
        ks acc
      = fold (\<lambda>kk acc. acc_trit (t kk) acc (tap_value x s b g l ci kk)) ks acc"
    and "acc_ok (fold (\<lambda>kk acc. acc_trit (t kk) acc (tap_value x s b g l ci kk)) ks acc)"
  using assms
  by (induction ks arbitrary: acc) (simp_all add: tap_value_def split: option.split)

lemma conv_fold_channels:
  assumes "acc_ok acc"
  shows "fold (\<lambda>ci acc. fold (\<lambda>kk acc. case conv_tap s l kk of None \<Rightarrow> acc
          | Some p \<Rightarrow> acc_trit (t ci kk) acc (x ! ((b * cv_c_in s + (g * c_in_pg s + ci)) * cv_l_in s + p)))
          ks acc) cs acc
      = fold (\<lambda>ci. fold (\<lambda>kk acc. acc_trit (t ci kk) acc (tap_value x s b g l ci kk)) ks) cs acc"
  using assms by (induction cs arbitrary: acc) (simp_all add: conv_fold_taps)

text \<open>One output cell of the training path, reduced to the taps.\<close>
lemma conv_cell:
  assumes fit: "conv_buffers_fit s (length x) (length w) (length scale) ol"
    and fin: "list_all f32_is_finite x"
    and b: "b < cv_batch s" and g: "g < cv_groups s" and n: "n < n_g s" and l: "l < l_out s"
  shows "matmul_forward (im2col x s b g)
      (window (g * n_g s * k_g s) (n_g s * k_g s) (map trit_to_f32 w))
      (window (g * n_g s) (n_g s) scale) (l_out s) (n_g s) (k_g s) ! (l * n_g s + n)
    = fmul (scale ! (g * n_g s + n))
       (fold (\<lambda>ci. fold (\<lambda>kk acc.
          acc_trit (w ! ((g * n_g s + n) * k_g s + (ci * cv_k s + kk))) acc (tap_value x s b g l ci kk))
          [0..<cv_k s]) [0..<c_in_pg s] f32_zero)"
proof -
  let ?cols = "im2col x s b g" and ?kg = "k_g s" and ?ng = "n_g s"
  let ?wg = "window (g * ?ng * ?kg) (?ng * ?kg) (map trit_to_f32 w)"
  let ?sg = "window (g * ?ng) ?ng scale"
  have groups: "cv_groups s * ?ng = cv_c_out s" using fit by (rule conv_buffers_fit_dims)
  have lens: "length w = cv_groups s * ?ng * ?kg" "length scale = cv_groups s * ?ng"
    using fit groups by (simp_all add: conv_buffers_fit_def)
  have sg: "?sg ! n = scale ! (g * ?ng + n)" using g lens(2) n by (rule row_window)
  have wg: "?wg ! (n * ?kg + ki) = trit_to_f32 (w ! ((g * ?ng + n) * ?kg + ki))" if "ki < ?kg" for ki
  proof -
    have "(g * ?ng + n) * ?kg + ki < length w"
      unfolding lens(1) using grid_bound [OF grid_bound [OF g n] that] .
    with group_window [OF g n that, of "map trit_to_f32 w"] lens(1) show ?thesis by simp
  qed
  have "matmul_forward ?cols ?wg ?sg (l_out s) ?ng ?kg ! (l * ?ng + n)
      = fmul (?sg ! n) (fold (\<lambda>ki acc. fadd acc (fmul (?cols ! (l * ?kg + ki)) (?wg ! (n * ?kg + ki))))
          [0..<?kg] f32_zero)"
    unfolding matmul_forward_def Let_def using l n by (rule nth_grid2)
  also have "fold (\<lambda>ki acc. fadd acc (fmul (?cols ! (l * ?kg + ki)) (?wg ! (n * ?kg + ki)))) [0..<?kg] f32_zero
      = fold (\<lambda>ki acc. fadd acc (fmul (?cols ! (l * ?kg + ki))
          (trit_to_f32 (w ! ((g * ?ng + n) * ?kg + ki))))) [0..<?kg] f32_zero"
    by (intro fold_cong) (simp_all add: wg)
  also have "\<dots> = fold (\<lambda>ki acc. acc_trit (w ! ((g * ?ng + n) * ?kg + ki)) acc (?cols ! (l * ?kg + ki)))
          [0..<?kg] f32_zero"
  proof (rule fold_acc_trit(1))
    fix ki assume "ki \<in> set [0..<?kg]"
    then have "ki < c_in_pg s * cv_k s" by (simp add: k_g_def)
    then have "0 < cv_k s" and ci: "ki div cv_k s < c_in_pg s" by (auto simp: less_mult_imp_div_less intro: gr0I)
    then have "?cols ! (l * ?kg + ki) = tap_value x s b g l (ki div cv_k s) (ki mod cv_k s)"
      using im2col_nth [OF l ci, of "ki mod cv_k s" x b g] by simp
    with tap_value_finite [OF fit fin b g ci] show "f32_is_finite (?cols ! (l * ?kg + ki))" by simp
  qed simp
  also have "\<dots> = fold (\<lambda>ci. fold (\<lambda>kk acc. acc_trit (w ! ((g * ?ng + n) * ?kg + (ci * cv_k s + kk))) acc
          (?cols ! (l * ?kg + (ci * cv_k s + kk)))) [0..<cv_k s]) [0..<c_in_pg s] f32_zero"
    unfolding k_g_def by (rule fold_grid)
  also have "\<dots> = fold (\<lambda>ci. fold (\<lambda>kk acc. acc_trit (w ! ((g * ?ng + n) * ?kg + (ci * cv_k s + kk))) acc
          (tap_value x s b g l ci kk)) [0..<cv_k s]) [0..<c_in_pg s] f32_zero"
    using l by (intro fold_cong refl ext) (simp add: im2col_nth)
  finally show ?thesis unfolding sg .
qed

text \<open>The cell of the reference kernel is the cell of the training path.\<close>
lemma conv_reference_cell:
  assumes fit: "conv_buffers_fit s (length x) (length w) (length scale) ol"
    and fin: "list_all f32_is_finite x"
    and b: "b < cv_batch s" and g: "g < cv_groups s" and n: "n < n_g s" and l: "l < l_out s"
  shows "fmul (fold (\<lambda>ci acc. fold (\<lambda>kk acc. case conv_tap s l kk of None \<Rightarrow> acc
        | Some p \<Rightarrow> acc_trit (window ((g * n_g s + n) * k_g s) (k_g s) w ! (ci * cv_k s + kk)) acc
            (x ! ((b * cv_c_in s + (g * c_in_pg s + ci)) * cv_l_in s + p)))
        [0..<cv_k s] acc) [0..<c_in_pg s] f32_zero) (scale ! (g * n_g s + n))
    = matmul_forward (im2col x s b g)
        (window (g * n_g s * k_g s) (n_g s * k_g s) (map trit_to_f32 w))
        (window (g * n_g s) (n_g s) scale) (l_out s) (n_g s) (k_g s) ! (l * n_g s + n)"
proof -
  have "window ((g * n_g s + n) * k_g s) (k_g s) w ! (ci * cv_k s + kk)
      = w ! ((g * n_g s + n) * k_g s + (ci * cv_k s + kk))"
    if "ci < c_in_pg s" "kk < cv_k s" for ci kk
  proof (rule row_window)
    show "g * n_g s + n < cv_c_out s"
      using grid_bound [OF g n] conv_buffers_fit_dims(1) [OF fit] by simp
    show "length w = cv_c_out s * k_g s" using fit by (simp add: conv_buffers_fit_def)
    show "ci * cv_k s + kk < k_g s" unfolding k_g_def using that by (rule grid_bound)
  qed
  then have "fold (\<lambda>ci. fold (\<lambda>kk acc. acc_trit
        (window ((g * n_g s + n) * k_g s) (k_g s) w ! (ci * cv_k s + kk)) acc
        (tap_value x s b g l ci kk)) [0..<cv_k s]) [0..<c_in_pg s] f32_zero
      = fold (\<lambda>ci. fold (\<lambda>kk acc. acc_trit
        (w ! ((g * n_g s + n) * k_g s + (ci * cv_k s + kk))) acc
        (tap_value x s b g l ci kk)) [0..<cv_k s]) [0..<c_in_pg s] f32_zero"
    by (intro fold_cong refl ext) simp
  with conv_cell [OF fit fin b g n l] show ?thesis
    by (simp add: conv_fold_channels fmul_commute)
qed

text \<open>C20: On finite inputs the multiply-free reference convolution (the oracle of the deployed codec) and
  the training forward, which gathers patches and contracts them with the float matmul, give the same
  bits in every output cell.\<close>
theorem conv1d_matches_training_conv1d:
  assumes "reference_conv1d x weights scale_n s out_len = Inr out"
    and "list_all f32_is_finite x"
  shows "out = conv1d_forward x (map trit_to_f32 weights) scale_n s"
proof -
  from assms(1) have fit: "conv_buffers_fit s (length x) (length weights) (length scale_n) out_len"
    by (simp add: reference_conv1d_def split: if_splits)
  then have fit': "\<not> \<not> conv_buffers_fit s (length x) (length weights) (length scale_n) out_len" by simp
  have "Inr out = reference_conv1d x weights scale_n s out_len" using assms(1) ..
  also have "\<dots> = Inr (conv1d_forward x (map trit_to_f32 weights) scale_n s)"
    unfolding reference_conv1d_def conv1d_forward_def Let_def
    unfolding if_not_P [OF fit']
    by (intro arg_cong [where f = Inr] arg_cong [where f = concat] map_cong refl)
      (simp add: conv_reference_cell [OF fit assms(2)])
  finally show ?thesis by simp
qed

theorem conv1d_matches_training_conv1d_witness:
  "let s = \<lparr>cv_batch = 1, cv_c_in = 1, cv_c_out = 1, cv_l_in = 2, cv_k = 2, cv_stride = 1,
        cv_dilation = 1, cv_pad_left = 1, cv_pad_right = 0, cv_groups = 1\<rparr>
   in reference_conv1d [0x3F800000, 0x40000000] [NEG, POS] [0x3F800000] s 2 = Inr [0x3F800000, 0x3F800000]
    \<and> conv1d_forward [0x3F800000, 0x40000000] [f32_neg_one, f32_one] [0x3F800000] s = [0x3F800000, 0x3F800000]"
proof -
  let ?s = "\<lparr>cv_batch = 1, cv_c_in = 1, cv_c_out = 1, cv_l_in = 2, cv_k = 2, cv_stride = 1,
        cv_dilation = 1, cv_pad_left = 1, cv_pad_right = 0, cv_groups = 1\<rparr>"
  have f: "fadd 0 0x3F800000 = 0x3F800000" "fsub 0 0x3F800000 = 0xBF800000"
    "fadd 0xBF800000 0x40000000 = 0x3F800000"
    by (simp_all add: f32_eval)
  have one: "fmul 0x3F800000 0x3F800000 = 0x3F800000"
    using fmul_one [of "0x3F800000"] by (simp add: f32_one_def f32_fields)
  have run: "reference_conv1d [0x3F800000, 0x40000000] [NEG, POS] [0x3F800000] ?s 2
      = Inr [0x3F800000, 0x3F800000]"
    by (simp add: reference_conv1d_def conv_buffers_fit_def l_out_def k_g_def c_in_pg_def n_g_def
        conv_tap_def window_def f one f32_zero_def upt_rec)
  moreover have "list_all f32_is_finite [0x3F800000, 0x40000000]" by (simp add: f32_fields)
  ultimately show ?thesis unfolding Let_def using conv1d_matches_training_conv1d [OF run] by simp
qed

section \<open>Finite scalar quantization\<close>

text \<open>One element of the deploy grid.  \<open>(l - 1) as i32\<close> reads the level as a signed integer, and
  \<open>Ord::clamp\<close> panics when its upper bound is below its lower bound.\<close>
definition fsq_elem :: "u32 \<Rightarrow> f32 \<Rightarrow> TritError fault + f32" where
  "fsq_elem l xi =
    (if unat l < 2 then Inl (Fail (ShapeMismatch 2 (unat l)))
     else let lm1 = f32_of_nat (unat (l - 1));
              b = f32_clamp xi f32_neg_one f32_one;
              v = fadd (fmul (fmul (fadd b f32_one) f32_half) lm1) f32_half;
              hi = sint (l - 1)
       in if hi < 0 then Inl Panic
          else let code = max 0 (min hi (f32_to_i32 v))
            in Inr (fsub (fmul (fdiv (f32_of_int code) lm1) f32_two) f32_one))"

text \<open>The products of the two dimensions are unchecked: a release build wraps them.  The level of element \<open>i\<close> is indexed, and a
  division by a zero \<open>len\<close> panics.\<close>
definition reference_fsq ::
  "f32 list \<Rightarrow> u32 list \<Rightarrow> usize \<Rightarrow> usize \<Rightarrow> usize \<Rightarrow> TritError fault + f32 list" where
  "reference_fsq x levels channels len out_len =
     rbind (map_err Fail (check (length x) (wrapping_mul channels len))) (\<lambda>_.
     rbind (map_err Fail (check (length levels) channels)) (\<lambda>_.
     rbind (map_err Fail (check out_len (wrapping_mul channels len))) (\<lambda>_.
     mapR (\<lambda>i. rbind (if len = 0 then Inl Panic else index_at levels (i div len)) (\<lambda>l. fsq_elem l (x ! i))) [0..<length x])))"

lemma sint32_neg: "sint (w :: 32 word) < 0 \<longleftrightarrow> 2 ^ 31 \<le> unat w"
proof -
  have "sint w < 0 \<longleftrightarrow> bit (uint w) 31" by (simp add: sint_uint)
  also have "\<dots> \<longleftrightarrow> bit (unat w) 31" by (simp add: bit_unsigned_iff)
  also have "\<dots> \<longleftrightarrow> odd (unat w div 2 ^ 31)" by (rule bit_iff_odd)
  also have "\<dots> \<longleftrightarrow> 2 ^ 31 \<le> unat w"
  proof -
    have "unat w div 2147483648 < 2" using unat32_less [of w] by (simp add: div_less_iff_less_mult)
    then have "odd (unat w div 2147483648) \<longleftrightarrow> 1 \<le> unat w div 2147483648"
      by (auto simp: less_2_cases_iff)
    then show ?thesis by (simp add: less_eq_div_iff_mult_less_eq)
  qed
  finally show ?thesis .
qed

lemma sint32_nonneg:
  assumes "unat (w :: 32 word) < 2 ^ 31"
  shows "sint w = int (unat w)"
proof -
  have "signed_take_bit 31 (int n) = int n" if "n < 2 ^ 31" for n
    using that by (intro signed_take_bit_int_eq_self) simp_all
  from this [OF assms] show ?thesis by (simp add: sint_uint)
qed

lemma fsq_elem_ok_iff: "is_ok (fsq_elem l xi) \<longleftrightarrow> 2 \<le> unat l \<and> unat l \<le> 2 ^ 31"
proof (cases "unat l < 2")
  case False
  then have "unat (l - 1) = unat l - 1" by (intro unat_minus_one) auto
  then have "sint (l - 1) < 0 \<longleftrightarrow> 2 ^ 31 < unat l" using False sint32_neg [of "l - 1"] by auto
  then show ?thesis using False by (auto simp: fsq_elem_def Let_def)
qed (simp add: fsq_elem_def)







lemma f32_mag_le_one: "f32_mag y \<le> 0x3F800000 \<Longrightarrow> fle f32_neg_one y \<and> fle y f32_one"
  by (simp add: fle_def f32_key_def f32_is_nan_def INF_MAG_def)

lemma fsq_shift_range:
  assumes "e \<le> 0x40000000" "f32_units e \<le> 2 ^ 150"
  shows "f32_mag (fadd (f32_mk False e) (fneg f32_one)) \<le> 0x3F800000"
proof -
  let ?s = "int (f32_units e) - 2 ^ 149"
  have one: "f32_int f32_one = 2 ^ 149" by (simp add: f32_int_def f32_units_one)
  have int_e: "f32_int (f32_mk False e) = int (f32_units e)" using assms(1) by (simp add: f32_int_def)
  have "nat \<bar>?s\<bar> \<le> f32_units 0x3F800000 * 1" using assms(2) unfolding f32_units_one by simp
  then have "f32_round (nat \<bar>?s\<bar>) 1 \<le> 0x3F800000"
    by (rule f32_round_le_units) (simp_all add: INF_MAG_def)
  moreover have "\<not> f32_is_nan (f32_mk False e)" "\<not> f32_is_inf (f32_mk False e)"
    using assms(1) by (simp_all add: f32_is_nan_def f32_is_inf_def INF_MAG_def)
  moreover have "\<not> f32_is_nan f32_one" "\<not> f32_is_inf f32_one" by simp_all
  ultimately show ?thesis by (simp add: fadd_def Let_def int_e one)
qed

lemma fsq_level_range:
  assumes "c \<le> n" "1 \<le> n" "n < 2 ^ 31"
  defines "y \<equiv> fsub (fmul (fdiv (f32_of_int (int c)) (f32_of_nat n)) f32_two) f32_one"
  shows "fle f32_neg_one y \<and> fle y f32_one"
proof -
  let ?rc = "f32_round (c * 2 ^ 149) 1" and ?rn = "f32_round (n * 2 ^ 149) 1"
  have two: "f32_sign f32_two = False" "f32_mag f32_two = 0x40000000"
    by (simp_all add: f32_two_def f32_sign_def f32_mag_def)
  have units_two: "f32_units 0x40000000 = 2 ^ 150" by (simp add: f32_units_def)
  have rn: "?rn \<le> 0x4F000000"
    using assms(3) by (intro f32_round_le_units) (simp_all add: f32_units_def INF_MAG_def)
  have rn0: "0 < ?rn" using assms(2) by (intro f32_round_pos) simp
  have rc: "?rc \<le> ?rn" using assms(1) by (intro f32_round_mono) simp_all
  define d where "d = f32_round (f32_units ?rc * 2 ^ 149) (f32_units ?rn)"
  have d: "fdiv (f32_of_int (int c)) (f32_of_nat n) = f32_mk False d"
    using rn rn0 rc unfolding d_def
    by (simp add: fdiv_def f32_of_int_def f32_of_nat_def f32_is_nan_def f32_is_inf_def INF_MAG_def)
  have d_le: "d \<le> 0x3F800000" unfolding d_def
  proof (rule f32_round_le_units)
    show "f32_units ?rc * 2 ^ 149 \<le> f32_units 0x3F800000 * f32_units ?rn"
      using f32_units_mono [OF rc] unfolding f32_units_one by simp
  qed (use rn0 in \<open>simp_all add: INF_MAG_def\<close>)
  then have units_d: "f32_units d \<le> 2 ^ 149" using f32_units_mono [OF d_le] by (simp only: f32_units_one)
  define e where "e = f32_round (f32_units d * 2 ^ 150) (2 ^ 149)"
  have e: "fmul (f32_mk False d) f32_two = f32_mk False e"
    using d_le units_two unfolding e_def
    by (simp add: fmul_def two f32_is_nan_def f32_is_inf_def INF_MAG_def)
  have e_le: "e \<le> 0x40000000" unfolding e_def
  proof (rule f32_round_le_units)
    show "f32_units d * 2 ^ 150 \<le> f32_units 0x40000000 * 2 ^ 149"
      using units_d unfolding units_two by simp
  qed (simp_all add: INF_MAG_def)
  then have units_e: "f32_units e \<le> 2 ^ 150" using f32_units_mono [OF e_le] by (simp only: units_two)
  have y: "y = fadd (f32_mk False e) (fneg f32_one)" by (simp only: y_def d e fsub_def)
  show ?thesis unfolding y by (rule f32_mag_le_one, rule fsq_shift_range) (use e_le units_e in simp_all)
qed

text \<open>C30: Every value the FSQ oracle writes lies between -1 and 1, whatever the input (NaN and the
  infinities included).\<close>
theorem reference_fsq_range:
  assumes "reference_fsq x levels channels len out_len = Inr out"
  shows "list_all (\<lambda>y. fle f32_neg_one y \<and> fle y f32_one) out"
proof -
  have elem: "fle f32_neg_one y \<and> fle y f32_one" if ok: "fsq_elem l xi = Inr y" for l xi y
  proof -
    have l: "2 \<le> unat l" "unat l \<le> 2 ^ 31" using ok fsq_elem_ok_iff [of l xi] by simp_all
    then have n: "unat (l - 1) = unat l - 1" by (intro unat_minus_one) auto
    obtain v where nn: "\<not> sint (l - 1) < 0" and y: "y = fsub (fmul (fdiv
        (f32_of_int (max 0 (min (sint (l - 1)) v))) (f32_of_nat (unat (l - 1)))) f32_two) f32_one"
      using ok by (auto simp: fsq_elem_def Let_def split: if_splits)
    define c where "c = max 0 (min (sint (l - 1)) v)"
    with nn have c: "0 \<le> c" "c \<le> sint (l - 1)" by simp_all
    have "sint (l - 1) = int (unat (l - 1))" using l n by (intro sint32_nonneg) simp
    with c(2) have "nat c \<le> unat (l - 1)" by (simp only: nat_le_iff)
    then show ?thesis unfolding y c_def [symmetric]
      using fsq_level_range [of "nat c" "unat (l - 1)"] c l n by simp
  qed
  from assms have "mapR (\<lambda>i. rbind (if len = 0 then Inl Panic else index_at levels (i div len)) (\<lambda>l. fsq_elem l (x ! i))) [0..<length x] = Inr out"
    by (auto simp: reference_fsq_def rbind_eq_Inr)
  then show ?thesis using elem
    by (auto simp: mapR_eq_Inr list_all2_conv_all_nth list_all_length rbind_eq_Inr)
qed

theorem reference_fsq_range_witness:
  "reference_fsq [0x7FC00000] [3] 1 1 1 = Inr [0xBF800000]
   \<and> fle f32_neg_one 0xBF800000 \<and> fle 0xBF800000 f32_one"
proof -
  have nan: "f32_clamp 0x7FC00000 f32_neg_one f32_one = 0x7FC00000"
    "fadd 0x7FC00000 f32_one = 0x7FC00000" "fmul 0x7FC00000 f32_half = 0x7FC00000"
    "fmul 0x7FC00000 (f32_of_nat 2) = 0x7FC00000" "fadd 0x7FC00000 f32_half = 0x7FC00000"
    "f32_to_i32 0x7FC00000 = 0"
    by (simp_all add: f32_clamp_def flt_def fadd_def fmul_def f32_to_i32_def f32_fields f32_NAN_def)
  have "f32_of_nat 2 = 0x40000000" by (simp add: f32_eval)
  then have zero: "fdiv (f32_of_int 0) (f32_of_nat 2) = 0" "fmul 0 f32_two = 0"
    by (simp_all add: fdiv_def fmul_def f32_fields f32_of_int_def f32_mk_def f32_units_def f32_two_def)
  have low: "fsub 0 f32_one = 0xBF800000" by (simp add: f32_eval)
  have run: "reference_fsq [0x7FC00000] [3] 1 1 1 = Inr [0xBF800000]"
    by (simp add: reference_fsq_def check_def wrapping_mul_def fsq_elem_def nan zero low)
  then show ?thesis using reference_fsq_range [OF run] by simp
qed

section \<open>Dense reference operations\<close>

datatype DenseError = SizeOverflow | WeightShape | OperationShape | RowOutOfRange

record DenseView =
  dv_rows :: usize
  dv_cols :: usize
  dv_values :: "f32 list"

definition dense_new :: "usize \<Rightarrow> usize \<Rightarrow> f32 list \<Rightarrow> DenseError + DenseView" where
  "dense_new rows cols values =
     rbind (ok_or (checked_mul rows cols) SizeOverflow) (\<lambda>expected.
     if length values \<noteq> expected then Inl WeightShape
     else Inr \<lparr>dv_rows = rows, dv_cols = cols, dv_values = values\<rparr>)"

text \<open>Returns the scratch and output buffers.\<close>
definition dense_matmul ::
  "DenseView \<Rightarrow> f32 list \<Rightarrow> usize \<Rightarrow> usize \<Rightarrow> usize \<Rightarrow> DenseError + f32 list \<times> f32 list" where
  "dense_matmul d act batch scratch_len out_len =
     rbind (ok_or (checked_mul batch (dv_cols d)) SizeOverflow) (\<lambda>inputs.
     rbind (ok_or (checked_mul batch (dv_rows d)) SizeOverflow) (\<lambda>outputs.
     if length act \<noteq> inputs \<or> scratch_len \<noteq> inputs \<or> out_len \<noteq> outputs then Inl OperationShape
     else Inr (act,
       [f32_sum (map (\<lambda>(a, w). fmul a w)
          (zip (window (b * dv_cols d) (dv_cols d) act) (window (row * dv_cols d) (dv_cols d) (dv_values d)))).
        b \<leftarrow> [0..<batch], row \<leftarrow> [0..<dv_rows d]])))"

definition dense_embed :: "DenseView \<Rightarrow> usize list \<Rightarrow> usize \<Rightarrow> DenseError + f32 list" where
  "dense_embed d ids out_len =
     rbind (ok_or (checked_mul (length ids) (dv_cols d)) SizeOverflow) (\<lambda>expected.
     if out_len \<noteq> expected then Inl OperationShape
     else if list_ex (\<lambda>row. row \<ge> dv_rows d) ids then Inl RowOutOfRange
     else Inr (concat (map (\<lambda>row. window (row * dv_cols d) (dv_cols d) (dv_values d)) ids)))"

text \<open>Equal numbers: the same bits, or both a zero.\<close>
definition same_number :: "f32 \<Rightarrow> f32 \<Rightarrow> bool" where
  "same_number a b \<longleftrightarrow> a = b \<or> (f32_mag a = 0 \<and> f32_mag b = 0)"

lemma fadd_zero_sign:
  "fadd f32_neg_zero y = fadd f32_zero y
   \<or> (fadd f32_neg_zero y = f32_neg_zero \<and> fadd f32_zero y = f32_zero)"
proof (cases "f32_mag y = 0")
  case True
  then have "f32_int y = 0" "\<not> f32_is_nan y" "\<not> f32_is_inf y"
    by (simp_all add: f32_int_eq_0 f32_is_nan_def f32_is_inf_def INF_MAG_def)
  moreover have "f32_int f32_neg_zero = 0" "f32_int f32_zero = 0" by (simp_all add: f32_int_def)
  ultimately show ?thesis by (cases "f32_sign y") (simp_all add: fadd_def)
next
  case False
  then have "f32_int y \<noteq> 0" by (simp add: f32_int_eq_0)
  moreover have "f32_int f32_neg_zero = 0" "f32_int f32_zero = 0" by (simp_all add: f32_int_def)
  ultimately show ?thesis by (simp add: fadd_def)
qed

lemma foldl_zero_sign:
  "foldl fadd f32_neg_zero ys = foldl fadd f32_zero ys
   \<or> (foldl fadd f32_neg_zero ys = f32_neg_zero \<and> foldl fadd f32_zero ys = f32_zero)"
proof (induction ys)
  case (Cons y ys)
  from fadd_zero_sign [of y] Cons show ?case by auto
qed simp

lemma fmul_one_acc: "acc_ok a \<Longrightarrow> fmul a f32_one = a"
proof (cases "f32_is_finite a")
  case False
  assume ok: "acc_ok a"
  have "f32_is_nan a \<or> f32_is_inf a" using False by (auto simp: f32_fields)
  then show ?thesis
  proof
    assume "f32_is_inf a"
    then have "f32_mag a = INF_MAG" "\<not> f32_is_nan a" by (simp_all add: f32_is_inf_def f32_is_nan_def)
    with \<open>f32_is_inf a\<close> have "fmul a f32_one = f32_mk (f32_sign a) (f32_mag a)"
      by (simp add: fmul_def INF_MAG_def)
    then show ?thesis by simp
  qed (use ok in \<open>simp add: fmul_def acc_ok_def\<close>)
qed simp

lemma map_zip_windows:
  "length as = k \<Longrightarrow> length bs = k \<Longrightarrow>
   map (\<lambda>(a, w). f a w) (zip as bs) = map (\<lambda>i. f (as ! i) (bs ! i)) [0..<k]"
  by (intro nth_equalityI) auto

lemma foldl_map_fold: "foldl fadd s (map g is) = fold (\<lambda>i acc. fadd acc (g i)) is s"
  by (induction "is" arbitrary: s) simp_all

lemma dense_cell:
  assumes "length act = m * k" "length w = n * k" "list_all f32_is_finite act" "mi < m" "ni < n"
  defines "a \<equiv> window (mi * k) k act" and "t \<equiv> window (ni * k) k w"
  shows "same_number
      (f32_sum (map (\<lambda>(a, w). fmul a w) (zip a (window (ni * k) k (map trit_to_f32 w)))))
      (fmul (fold (\<lambda>ki acc. acc_trit (t ! ki) acc (a ! ki)) [0..<k] f32_zero) f32_one)"
proof -
  have "Suc mi * k \<le> m * k" "Suc ni * k \<le> n * k" using assms(4,5) by (intro mult_le_mono1; simp)+
  then have len: "length a = k" "length t = k" "window (ni * k) k (map trit_to_f32 w) = map trit_to_f32 t"
    using assms(1,2) by (simp_all add: a_def t_def window_def take_map drop_map)
  let ?prods = "map (\<lambda>i. fmul (a ! i) (trit_to_f32 (t ! i))) [0..<k]"
  have prods: "map (\<lambda>(a, w). fmul a w) (zip a (map trit_to_f32 t)) = ?prods"
    using len by (intro nth_equalityI) auto
  have fin: "f32_is_finite (a ! i)" if "i < k" for i
    using assms(1,3,4) that by (simp add: a_def row_window list_all_length grid_bound)
  then have acc: "foldl fadd f32_zero ?prods
      = fold (\<lambda>ki acc. acc_trit (t ! ki) acc (a ! ki)) [0..<k] f32_zero"
    and ok: "acc_ok (fold (\<lambda>ki acc. acc_trit (t ! ki) acc (a ! ki)) [0..<k] f32_zero)"
    unfolding foldl_map_fold by (intro fold_acc_trit; simp)+
  have "same_number (f32_sum ?prods) (foldl fadd f32_zero ?prods)"
    using foldl_zero_sign [of ?prods] unfolding f32_sum_def same_number_def by auto
  with acc ok show ?thesis by (simp add: len(3) prods fmul_one_acc)
qed

text \<open>The dense semantic reference run on ternary weights and the ternary reference GEMM with unit
  scales compute the same number in every cell on finite activations (they can differ in the sign of a
  zero, because \<open>Iterator::sum\<close> starts at \<open>-0.0\<close>).\<close>
lemma dense_matmul_matches_mpgemm:
  assumes "dense_new n k (map trit_to_f32 weights) = Inr d"
    and "dense_matmul d act m scratch_len out_len = Inr (scratch, out)"
    and "reference_mpgemm act weights (replicate n f32_one) \<lparr>gemm_m = m, gemm_n = n, gemm_k = k\<rparr> out_len
      = Inr out'"
    and "list_all f32_is_finite act"
  shows "list_all2 same_number out out' \<and> scratch = act"
proof -
  have d: "d = \<lparr>dv_rows = n, dv_cols = k, dv_values = map trit_to_f32 weights\<rparr>"
    and w: "length weights = n * k"
    using assms(1) by (auto simp: dense_new_def rbind_eq_Inr split: if_splits)
  have act: "length act = m * k" and "scratch = act"
    and out: "out = [f32_sum (map (\<lambda>(a, w). fmul a w)
        (zip (window (b * k) k act) (window (row * k) k (map trit_to_f32 weights)))).
      b \<leftarrow> [0..<m], row \<leftarrow> [0..<n]]"
    using assms(2) by (auto simp: dense_matmul_def rbind_eq_Inr d split: if_splits)
  have out': "out' = [fmul (fold (\<lambda>ki acc. acc_trit (window (ni * k) k weights ! ki) acc
        (window (mi * k) k act ! ki)) [0..<k] f32_zero) (replicate n f32_one ! ni).
      mi \<leftarrow> [0..<m], ni \<leftarrow> [0..<n]]"
    using assms(3) by (simp add: reference_mpgemm_ok)
  have "list_all2 same_number out out'"
    unfolding out out' grid2
  proof (rule list_all2_all_nthI)
    fix i assume "i < length (map (\<lambda>i. f32_sum (map2 fmul (window (i div n * k) k act)
        (window (i mod n * k) k (map trit_to_f32 weights)))) [0..<m * n])"
    then have i: "i < m * n" by simp
    then have "i div n < m" "i mod n < n"
      by (auto simp: less_mult_imp_div_less intro!: mod_less_divisor gr0I)
    with dense_cell [OF act w assms(4) this] i show "same_number
        (map (\<lambda>i. f32_sum (map2 fmul (window (i div n * k) k act)
          (window (i mod n * k) k (map trit_to_f32 weights)))) [0..<m * n] ! i)
        (map (\<lambda>i. fmul (fold (\<lambda>ki acc. acc_trit (window (i mod n * k) k weights ! ki) acc
          (window (i div n * k) k act ! ki)) [0..<k] f32_zero) (replicate n f32_one ! (i mod n)))
          [0..<m * n] ! i)"
      by simp
  qed simp
  with \<open>scratch = act\<close> show ?thesis by simp
qed

end
