(* ===== verification/Errors.thy ===== *)
theory Errors
  imports Trits
begin

text \<open>
  The error enumerations of \<open>tritium-format\<close>: \<open>GgufError\<close> (\<open>gguf.rs\<close>) and \<open>FormatError\<close> (\<open>lib.rs\<close>), with the
  \<open>From\<close> conversions the \<open>?\<close> operator applies.  A Rust \<open>String\<close> is its list of UTF-8 bytes.  The variant
  \<open>SafeTensors\<close>, which wraps the error of a container this development does not cover, is left out.
\<close>

type_synonym rstring = bytes

datatype GgufError =
    BadMagic
  | UnsupportedVersion u32
  | Truncated
  | StringTooLong
  | DimsOverflow
  | InvalidTensorShape
  | InvalidAlignment
  | InvalidBoolean u8
  | OffsetOutOfBounds
  | UnknownValueType u32
  | InvalidUtf8

datatype FormatError =
    WrongTritCount nat nat
  | WrongBlockLen nat nat
  | DecodedOutOfRange int
  | InvalidI2sCode u8
  | SaltBadMagic
  | SaltInvalidTensorName
  | SaltDuplicateTensor rstring
  | SaltLengthOverflow u64
  | UnsupportedSaltVersion u8
  | SaltTooManyPlanes nat
  | SaltRowTooLong nat
  | SaltInvalidPlaneTag u8
  | SaltSparseBasePlane
  | InvalidSparseDensity
  | SaltNonCanonicalSparseIndices
  | SaltNonZeroPadding
  | SaltInvalidScale u16
  | FGguf GgufError
  | SaltGgufBadFormat
  | TqBadMagic
  | UnsupportedTqVersion u8
  | TqZeroSeqLen
  | TqNameTooLong nat
  | TqBadName
  | TeacherCacheBadMagic
  | UnsupportedTeacherCacheVersion u8
  | TeacherCacheInvalidShape
  | InvalidTrainingSalt string

definition from_GgufError :: "GgufError \<Rightarrow> FormatError" where
  "from_GgufError e = FGguf e"

fun from_TritError :: "TritError \<Rightarrow> FormatError" where
  "from_TritError (OutOfRange v) = DecodedOutOfRange v"
| "from_TritError (ShapeMismatch e g) = DecodedOutOfRange (- (2 ^ 31))"

end
