(* ===== verification/Blocks.thy ===== *)
theory Blocks
  imports Errors
begin

unbundle bit_operations_syntax

text \<open>
  The ternary block codecs of \<open>tritium-format\<close>: TQ1_0 (\<open>tq1.rs\<close>), TQ2_0 (\<open>tq2.rs\<close>) and Q2_0 (\<open>q2_0.rs\<close>),
  with the scale accessors of \<open>lib.rs\<close>.  A packer takes the length of its output slice and returns the
  bytes it writes; an unpacker takes the length of its trit slice and returns the trits and the scale.
  The loops visit the cells in ascending order, so they are list comprehensions over the same ranges,
  and an unpacking loop stops at its first error.
\<close>

section \<open>Constants and scales\<close>

definition QK_K :: nat where "QK_K = 256"
definition TQ2_0_BLOCK_BYTES :: nat where "TQ2_0_BLOCK_BYTES = QK_K div 4 + 2"
definition TQ1_0_BLOCK_BYTES :: nat where
  "TQ1_0_BLOCK_BYTES = (QK_K - 4 * QK_K div 64) div 5 + QK_K div 64 + 2"

lemma block_consts [simp]: "QK_K = 256" "TQ2_0_BLOCK_BYTES = 66" "TQ1_0_BLOCK_BYTES = 54"
  by (simp_all add: QK_K_def TQ2_0_BLOCK_BYTES_def TQ1_0_BLOCK_BYTES_def)

definition read_scale :: "bytes \<Rightarrow> f16" where
  "read_scale block = un_le16 (drop (length block - 2) block)"

definition write_scale :: "f16 \<Rightarrow> bytes \<Rightarrow> bytes" where
  "write_scale scale out = take (length out - 2) out @ le16 scale"

lemma read_scale_append [simp]: "read_scale (qs @ le16 scale) = scale"
  by (simp add: read_scale_def)

text \<open>The unsigned code \<open>trit + 1\<close> and its inverse.\<close>
definition trit_code :: "trit \<Rightarrow> u8" where
  "trit_code t = of_int (get t + 1)"

definition decode_trit :: "i8 \<Rightarrow> FormatError + trit" where
  "decode_trit v = map_err from_TritError (from_i8 v)"

lemma decode_trit_get [simp]: "decode_trit (get t) = Inr t"
  by (simp add: decode_trit_def)

lemma decode_trit_eq_Inr: "decode_trit v = Inr t \<longleftrightarrow> v = get t"
  by (simp add: decode_trit_def from_i8_eq_Inr)

lemma trit_code_simps [simp]: "trit_code NEG = 0" "trit_code ZERO = 1" "trit_code POS = 2"
  by (simp_all add: trit_code_def)

lemma unat_trit_code: "int (unat (trit_code t)) - 1 = get t"
  by (cases t) simp_all

lemma decode_trit_code [simp]: "decode_trit (uint (trit_code t) - 1) = Inr t"
  by (cases t) (simp_all add: decode_trit_def from_i8_def)

lemma trit_code_less: "unat (trit_code t) < 3"
  by (cases t) simp_all

lemma trit_code_less4: "unat (trit_code t) < 4"
  by (cases t) simp_all

section \<open>Two bits per trit\<close>

text \<open>Four two-bit codes in one byte, the first in the low pair.\<close>
definition pack4 :: "(nat \<Rightarrow> u8) \<Rightarrow> u8" where
  "pack4 x = fold (\<lambda>n q. q OR push_bit (2 * n) (x n)) [0..<4] 0"

definition code2 :: "u8 \<Rightarrow> nat \<Rightarrow> u8" where
  "code2 byte slot = drop_bit (2 * slot) byte AND 3"

lemma bit_less4: "unat (x :: 8 word) < 4 \<Longrightarrow> bit x n \<Longrightarrow> n < 2"
proof (rule ccontr)
  assume x: "unat x < 4" and b: "bit x n" and n: "\<not> n < 2"
  have "take_bit 2 (unat x) = unat x" using x by (simp add: take_bit_eq_mod)
  moreover have "bit (unat x) n" using b by (simp add: bit_unsigned_iff)
  ultimately show False using n by (metis bit_take_bit_iff)
qed

lemma bit_mask3: "bit (3 :: 8 word) n \<longleftrightarrow> n < 2"
proof -
  have "(3 :: 8 word) = mask 2" by (simp add: mask_eq_exp_minus_1)
  then have "bit (3 :: 8 word) n \<longleftrightarrow> bit (mask 2 :: 8 word) n" by simp
  also have "\<dots> \<longleftrightarrow> n < 2" unfolding bit_mask_iff by auto
  finally show ?thesis .
qed

lemma bit_fold_or:
  "bit (fold (\<lambda>n q. q OR push_bit (f n) (x n)) ns q0) i \<longleftrightarrow>
     bit q0 i \<or> (\<exists>n\<in>set ns. f n \<le> i \<and> i < 8 \<and> bit (x n :: 8 word) (i - f n))"
  by (induction ns arbitrary: q0) (auto simp: bit_or_iff bit_push_bit_iff)

lemma bit_code2: "bit (code2 b l) n \<longleftrightarrow> n < 2 \<and> bit b (2 * l + n)"
  unfolding code2_def bit_and_iff bit_mask3 by (auto simp: bit_drop_bit_eq)

lemma code2_pack4:
  assumes "\<And>n. n < 4 \<Longrightarrow> unat (x n) < 4" and "l < 4"
  shows "code2 (pack4 x) l = x l"
proof (rule bit_word_eqI)
  fix n
  have small: "bit (x j) i \<Longrightarrow> i < 2" if "j < 4" for i j
    using bit_less4 [OF assms(1) [OF that]] by blast
  have "(\<exists>j\<in>set [0..<4]. 2 * j \<le> 2 * l + n \<and> 2 * l + n < 8 \<and> bit (x j) (2 * l + n - 2 * j))
      \<longleftrightarrow> bit (x l) n" if "n < 2"
  proof
    assume "\<exists>j\<in>set [0..<4]. 2 * j \<le> 2 * l + n \<and> 2 * l + n < 8 \<and> bit (x j) (2 * l + n - 2 * j)"
    then obtain j where "j < 4" "2 * j \<le> 2 * l + n" and b: "bit (x j) (2 * l + n - 2 * j)" by auto
    moreover from small [OF \<open>j < 4\<close> b] have "2 * l + n - 2 * j < 2" .
    ultimately have "j = l" using that by linarith
    with b show "bit (x l) n" by simp
  next
    assume "bit (x l) n"
    then show "\<exists>j\<in>set [0..<4]. 2 * j \<le> 2 * l + n \<and> 2 * l + n < 8 \<and> bit (x j) (2 * l + n - 2 * j)"
      using \<open>l < 4\<close> that by (intro bexI [of _ l]) simp_all
  qed
  then show "bit (code2 (pack4 x) l) n \<longleftrightarrow> bit (x l) n"
    using small [OF \<open>l < 4\<close>, of n] unfolding bit_code2 pack4_def bit_fold_or by auto
qed

lemma code2_less: "unat (code2 b l) < 4"
proof -
  have "code2 b l = take_bit 2 (drop_bit (2 * l) b)"
    unfolding code2_def take_bit_eq_mask by (simp add: mask_eq_exp_minus_1)
  then have "unat (code2 b l) = take_bit 2 (unat (drop_bit (2 * l) b))"
    by (simp only: unsigned_take_bit_eq)
  then show ?thesis by (simp add: take_bit_eq_mod)
qed

text \<open>Only the reserved code 3 fails to decode, and it decodes to \<open>+2\<close>.\<close>
lemma decode_code2:
  "decode_trit (int (unat (code2 b l)) - 1) =
     (if code2 b l = 3 then Inl (DecodedOutOfRange 2)
      else Inr (if code2 b l = 0 then NEG else if code2 b l = 1 then ZERO else POS))"
proof -
  have "decode_trit (int n - 1) =
     (if n = 3 then Inl (DecodedOutOfRange 2)
      else Inr (if n = 0 then NEG else if n = 1 then ZERO else POS))" if "n < 4" for n
    using that by (auto simp: decode_trit_def from_i8_def)
  from this [OF code2_less] show ?thesis by (simp only: word_unat_eq_iff) simp
qed

lemma decode_code2_uint:
  "decode_trit (uint (code2 b l) - 1) =
     (if code2 b l = 3 then Inl (DecodedOutOfRange 2)
      else Inr (if code2 b l = 0 then NEG else if code2 b l = 1 then ZERO else POS))"
  using decode_code2 [of b l] by simp

text \<open>The byte of four zero trits.\<close>
lemma code2_0x55: "l < 4 \<Longrightarrow> code2 0x55 l = 1"
proof -
  assume "l < 4"
  then consider "l = 0" | "l = 1" | "l = 2" | "l = 3" by linarith
  then show ?thesis by cases (simp_all add: code2_def)
qed

lemma pack4_code2: "pack4 (code2 b) = b"
proof (rule bit_word_eqI)
  fix i assume i: "i < LENGTH(8)"
  have "(\<exists>n\<in>set [0..<4]. 2 * n \<le> i \<and> i < 8 \<and> bit (code2 b n) (i - 2 * n)) \<longleftrightarrow> bit b i"
  proof
    assume "bit b i"
    then show "\<exists>n\<in>set [0..<4]. 2 * n \<le> i \<and> i < 8 \<and> bit (code2 b n) (i - 2 * n)"
      using i unfolding bit_code2 by (intro bexI [of _ "i div 2"]) auto
  qed (auto simp: bit_code2)
  then show "bit (pack4 (code2 b)) i \<longleftrightarrow> bit b i" unfolding pack4_def bit_fold_or by simp
qed

lemma trit_code_decode: "decode_trit (int (unat (code2 b l)) - 1) = Inr t \<Longrightarrow> trit_code t = code2 b l"
proof -
  assume "decode_trit (int (unat (code2 b l)) - 1) = Inr t"
  then have "get t + 1 = int (unat (code2 b l))" unfolding decode_trit_eq_Inr by simp
  then show ?thesis by (simp add: trit_code_def)
qed

text \<open>A byte in which some pair holds the code that no packer writes.\<close>
definition reserved :: "u8 \<Rightarrow> bool" where
  "reserved b \<longleftrightarrow> list_ex (\<lambda>l. code2 b l = 3) [0..<4]"

lemma reserved_iff: "reserved b \<longleftrightarrow> (\<exists>l<4. code2 b l = 3)"
  by (auto simp: reserved_def list_ex_iff simp del: upt_Suc)

lemma base3_window:
  fixes a b H d L p r :: nat
  assumes pr: "p * r = 81" and a: "a = 3 * r * H + r * d + L" and L: "L < r" and d: "d < 3"
    and lo: "256 * a \<le> 243 * b" and hi: "243 * b < 256 * a + 243"
  shows "(b * p mod 256) * 3 div 256 = d"
proof -
  define X where "X = b * p"
  have "0 < p" using pr by (cases p) simp_all
  have "p * a = 3 * (p * r) * H + (p * r) * d + p * L" unfolding a by (simp add: algebra_simps)
  then have pa: "p * a = 243 * H + 81 * d + p * L" unfolding pr by simp
  have "p * (L + 1) \<le> p * r" using L by (intro mult_le_mono2) simp
  then have pL: "p * L + p \<le> 81" unfolding pr by simp
  have "p * (256 * a) \<le> p * (243 * b)" using lo by (rule mult_le_mono2)
  then have lo': "256 * (p * a) \<le> 243 * X" by (simp add: X_def ac_simps)
  have "p * (243 * b) < p * (256 * a + 243)" using hi \<open>0 < p\<close> by simp
  then have hi': "243 * X < 256 * (p * a) + 243 * p" by (simp add: X_def algebra_simps)
  have low: "256 * H * 3 + 256 * d \<le> 3 * X" using lo' pa by linarith
  have "243 * X < 256 * (243 * H + 81 * d + p * L) + 243 * p" using hi' unfolding pa .
  moreover have "243 * X < 256 * (243 * H + 81 * d + Q) + 243 * p \<Longrightarrow> Q + p \<le> 81
      \<Longrightarrow> 81 * (3 * X) < 81 * (256 * H * 3 + 256 * (d + 1))" for Q
    using \<open>0 < p\<close> by simp
  ultimately have high: "3 * X < 256 * H * 3 + 256 * (d + 1)" using pL by (metis mult_less_cancel1)
  define R where "R = X - 256 * H"
  have X: "X = R + 256 * H" using low unfolding R_def by simp
  have R: "256 * d \<le> R * 3" "R * 3 < 256 * (d + 1)" using low high unfolding X by simp_all
  then have R': "R < 256" using d by simp
  have "X mod 256 = R" using R' unfolding X by simp
  moreover have "R * 3 div 256 = d" using R by (intro div_nat_eqI) simp_all
  ultimately show ?thesis by (simp add: X_def)
qed

lemma tq1_digit:
  assumes "n < 5"
  shows "(div_ceil (a * 256) 243 * 3 ^ n mod 256) * 3 div 256 = a div 3 ^ (4 - n) mod 3"
proof (rule base3_window)
  let ?r = "3 ^ (4 - n) :: nat"
  show "3 ^ n * ?r = 81" using assms by (simp flip: power_add)
  define D where "D = a div ?r"
  have "a = D * ?r + a mod ?r" unfolding D_def by (rule div_mult_mod_eq [symmetric])
  moreover have "D = D div 3 * 3 + D mod 3" by (rule div_mult_mod_eq [symmetric])
  ultimately have "a = (D div 3 * 3 + D mod 3) * ?r + a mod ?r" by argo
  then show "a = 3 * ?r * (a div ?r div 3) + ?r * (a div ?r mod 3) + a mod ?r"
    unfolding D_def [symmetric] by (simp only: algebra_simps)
  show "a mod ?r < ?r" "a div ?r mod 3 < 3" by simp_all
  show "256 * a \<le> 243 * div_ceil (a * 256) 243"
    using div_ceil_mult_ge [of 243 "a * 256"] by (simp add: mult.commute)
  show "243 * div_ceil (a * 256) 243 < 256 * a + 243"
    using div_times_less_eq_dividend [of "a * 256 + 242" 243] by (simp add: div_ceil_def)
qed

section \<open>TQ2_0\<close>

definition pack_tq2_0_block :: "trit list \<Rightarrow> f16 \<Rightarrow> usize \<Rightarrow> FormatError + bytes" where
  "pack_tq2_0_block trits scale out_len =
    (if length trits \<noteq> QK_K then Inl (WrongTritCount QK_K (length trits))
     else if out_len \<noteq> TQ2_0_BLOCK_BYTES then Inl (WrongBlockLen TQ2_0_BLOCK_BYTES out_len)
     else Inr (write_scale scale
       ([pack4 (\<lambda>n. trit_code (trits ! (c * 128 + n * 32 + m)) AND 3). c \<leftarrow> [0..<2], m \<leftarrow> [0..<32]]
        @ replicate 2 0)))"

definition unpack_tq2_0_block :: "bytes \<Rightarrow> usize \<Rightarrow> FormatError + trit list \<times> f16" where
  "unpack_tq2_0_block block trits_len =
    (if length block \<noteq> TQ2_0_BLOCK_BYTES then Inl (WrongBlockLen TQ2_0_BLOCK_BYTES (length block))
     else if trits_len \<noteq> QK_K then Inl (WrongTritCount QK_K trits_len)
     else let qs = take 64 block in
       rbind (mapR (\<lambda>(c, l, m). decode_trit (int (unat (code2 (qs ! (c * 32 + m)) l)) - 1))
           [(c, l, m). c \<leftarrow> [0..<2], l \<leftarrow> [0..<4], m \<leftarrow> [0..<32]])
         (\<lambda>trits. Inr (trits, read_scale block)))"

lemma trit_code_and3 [simp]: "trit_code t AND 3 = trit_code t"
  by (cases t) simp_all

lemma pack_tq2_0_block_ok:
  assumes "length trits = 256"
  shows "pack_tq2_0_block trits scale 66 = Inr
     ([pack4 (\<lambda>n. trit_code (trits ! (c * 128 + n * 32 + m))). c \<leftarrow> [0..<2], m \<leftarrow> [0..<32]] @ le16 scale)"
proof -
  have "length [pack4 (\<lambda>n. trit_code (trits ! (c * 128 + n * 32 + m))). c \<leftarrow> [0..<2], m \<leftarrow> [0..<32]] = 2 * 32"
    by (rule length_grid2)
  then show ?thesis using assms by (simp add: pack_tq2_0_block_def write_scale_def del: upt_Suc)
qed

lemma unpack_pack_tq2_0_block:
  assumes "length trits = 256"
  defines "qs \<equiv> [pack4 (\<lambda>n. trit_code (trits ! (c * 128 + n * 32 + m))). c \<leftarrow> [0..<2], m \<leftarrow> [0..<32]]"
  shows "unpack_tq2_0_block (qs @ le16 scale) 256 = Inr (trits, scale)"
proof -
  have len: "length qs = 64" unfolding qs_def by (subst length_grid2) simp
  let ?f = "\<lambda>(c, l, m). decode_trit (int (unat (code2 (qs ! (c * 32 + m)) l)) - 1)"
  let ?is = "[(c, l, m). c \<leftarrow> [0..<2 :: nat], l \<leftarrow> [0..<4 :: nat], m \<leftarrow> [0..<32 :: nat]]"
  have f: "?f x = Inr ((\<lambda>(c, l, m). trits ! (c * 128 + l * 32 + m)) x)" if mem: "x \<in> set ?is" for x
  proof -
    obtain c l m where x: "x = (c, l, m)" "c < 2" "l < 4" "m < 32" using mem unfolding set_triples by blast
    have "qs ! (c * 32 + m) = pack4 (\<lambda>n. trit_code (trits ! (c * 128 + n * 32 + m)))"
      unfolding qs_def using x by (intro nth_grid2)
    then show ?thesis using x by (simp add: code2_pack4 trit_code_less4)
  qed
  have "map (\<lambda>(c, l, m). trits ! (c * 128 + l * 32 + m)) ?is
      = [trits ! (c * 128 + l * 32 + m). c \<leftarrow> [0..<2], l \<leftarrow> [0..<4], m \<leftarrow> [0..<32]]"
    by (simp add: map_concat comp_def del: upt_Suc)
  also have "\<dots> = map (\<lambda>i. trits ! i) [0..<256]"
    unfolding grid3 by (rule map_cong) (use grid3_index [where d = 128 and c = 32] in simp_all)
  also have "\<dots> = trits" using assms(1) map_nth [of trits] by simp
  finally have "mapR ?f ?is = Inr trits" using mapR_map [of ?is ?f] f by simp
  then show ?thesis using len by (simp add: unpack_tq2_0_block_def del: upt_Suc)
qed

lemma tq2_cells_cover:
  "b < 64 \<Longrightarrow> (b div 32, l, b mod 32) \<in> set [(c, l, m). c \<leftarrow> [0..<2], l \<leftarrow> [0..<4], m \<leftarrow> [0..<32]]
     \<longleftrightarrow> l < 4"
  unfolding set_triples by (auto simp: less_mult_imp_div_less)

lemma tq2_mapR_repack:
  assumes "mapR (\<lambda>(c, l, m). decode_trit (int (unat (code2 (qs ! (c * 32 + m)) l)) - 1))
      [(c, l, m). c \<leftarrow> [0..<2], l \<leftarrow> [0..<4], m \<leftarrow> [0..<32]] = Inr ts" and "length qs = 64"
  shows "[pack4 (\<lambda>n. trit_code (ts ! (c * 128 + n * 32 + m))). c \<leftarrow> [0..<2], m \<leftarrow> [0..<32]] = qs"
proof -
  let ?is = "[(c, l, m). c \<leftarrow> [0..<2 :: nat], l \<leftarrow> [0..<4 :: nat], m \<leftarrow> [0..<32 :: nat]]"
  have all: "list_all2 (\<lambda>x t. (\<lambda>(c, l, m). decode_trit (int (unat (code2 (qs ! (c * 32 + m)) l)) - 1)) x
      = Inr t) ?is ts"
    using assms(1) unfolding mapR_eq_Inr .
  have cell: "trit_code (ts ! (c * 128 + l * 32 + m)) = code2 (qs ! (c * 32 + m)) l"
    if "c < 2" "l < 4" "m < 32" for c l m
  proof -
    have "?is ! (c * (4 * 32) + (l * 32 + m)) = (c, l, m)" using that by (rule nth_grid3)
    moreover have "c * (4 * 32) + (l * 32 + m) < length ?is"
      unfolding grid3 using grid_bound [OF that(1) grid_bound [OF that(2,3)]] by simp
    ultimately show ?thesis using list_all2_nthD [OF all] by (fastforce intro: trit_code_decode simp: add.assoc)
  qed
  have "[pack4 (\<lambda>n. trit_code (ts ! (c * 128 + n * 32 + m))). c \<leftarrow> [0..<2], m \<leftarrow> [0..<32]]
      = [qs ! (c * 32 + m). c \<leftarrow> [0..<2], m \<leftarrow> [0..<32]]"
  proof (intro arg_cong [where f = concat] map_cong refl)
    fix c m assume "c \<in> set [0..<2]" "m \<in> set [0..<32]"
    then have "c < 2" "m < 32" unfolding set_upt by simp_all
    then have "pack4 (\<lambda>n. trit_code (ts ! (c * 128 + n * 32 + m))) = pack4 (code2 (qs ! (c * 32 + m)))"
      unfolding pack4_def by (intro fold_cong) (simp_all add: cell)
    then show "pack4 (\<lambda>n. trit_code (ts ! (c * 128 + n * 32 + m))) = qs ! (c * 32 + m)"
      by (simp add: pack4_code2)
  qed
  also have "\<dots> = map (\<lambda>i. qs ! i) [0..<2 * 32]" unfolding grid2 by (simp del: upt_Suc)
  also have "\<dots> = qs" using map_nth [of qs] assms(2) by simp
  finally show ?thesis .
qed

lemma tq2_mapR_ok:
  assumes "length qs = 64"
  shows "is_ok (mapR (\<lambda>(c, l, m). decode_trit (int (unat (code2 (qs ! (c * 32 + m)) l)) - 1))
      [(c, l, m). c \<leftarrow> [0..<2], l \<leftarrow> [0..<4], m \<leftarrow> [0..<32]]) \<longleftrightarrow> \<not> list_ex reserved qs"
proof -
  have "is_ok (decode_trit (int (unat (code2 b l)) - 1)) \<longleftrightarrow> code2 b l \<noteq> 3" for b l
    unfolding decode_code2 by simp
  then have "is_ok (mapR (\<lambda>(c, l, m). decode_trit (int (unat (code2 (qs ! (c * 32 + m)) l)) - 1))
      [(c, l, m). c \<leftarrow> [0..<2], l \<leftarrow> [0..<4], m \<leftarrow> [0..<32]])
    \<longleftrightarrow> (\<forall>c<2. \<forall>l<4. \<forall>m<32. code2 (qs ! (c * 32 + m)) l \<noteq> 3)"
    unfolding mapR_is_ok Ball_def set_triples by auto
  also have "\<dots> \<longleftrightarrow> (\<forall>b<64. \<forall>l<4. code2 (qs ! b) l \<noteq> 3)"
  proof -
    have "b div 32 < 2 \<and> b mod 32 < 32 \<and> b div 32 * 32 + b mod 32 = b" if "b < 64" for b :: nat
      using that by auto
    moreover have "c * 32 + m < 64" if "c < 2" "m < 32" for c m :: nat using that by simp
    ultimately show ?thesis by metis
  qed
  finally show ?thesis using assms by (auto simp: list_ex_length reserved_iff)
qed

text \<open>C31: A TQ2_0 block decodes exactly when no two-bit pair of its 64 code bytes holds the reserved
  code; otherwise the error is the out-of-range value \<open>+2\<close>.  When it decodes, packing the decoded trits
  and scale again gives back the same 66 bytes.\<close>
theorem tq2_0_block_decode_exact:
  assumes "length block = TQ2_0_BLOCK_BYTES"
  shows "case unpack_tq2_0_block block QK_K of
      Inl e \<Rightarrow> e = DecodedOutOfRange 2 \<and> list_ex reserved (take 64 block)
    | Inr (ts, s) \<Rightarrow> \<not> list_ex reserved (take 64 block) \<and> pack_tq2_0_block ts s TQ2_0_BLOCK_BYTES = Inr block"
proof -
  let ?qs = "take 64 block"
  let ?f = "\<lambda>(c, l, m). decode_trit (int (unat (code2 (?qs ! (c * 32 + m)) l)) - 1)"
  let ?is = "[(c, l, m). c \<leftarrow> [0..<2 :: nat], l \<leftarrow> [0..<4 :: nat], m \<leftarrow> [0..<32 :: nat]]"
  have len: "length ?qs = 64" using assms by simp
  have run: "unpack_tq2_0_block block QK_K = rbind (mapR ?f ?is) (\<lambda>ts. Inr (ts, read_scale block))"
    using assms by (simp add: unpack_tq2_0_block_def Let_def del: upt_Suc)
  show ?thesis
  proof (cases "mapR ?f ?is")
    case (Inl e)
    obtain x where "?f x = Inl e" using mapR_eq_Inl [OF Inl] by (rule bexE)
    then have "e = DecodedOutOfRange 2" by (auto simp: decode_code2_uint split: if_splits prod.splits)
    with Inl tq2_mapR_ok [OF len] show ?thesis unfolding run by (simp del: upt_Suc)
  next
    case (Inr ts)
    have ts: "length ts = 256" using mapR_length [OF Inr] unfolding grid3 by (simp del: upt_Suc)
    have "?qs @ le16 (read_scale block) = block"
      using assms by (simp add: read_scale_def le16_un_le16)
    then have "pack_tq2_0_block ts (read_scale block) 66 = Inr block"
      unfolding pack_tq2_0_block_ok [OF ts] tq2_mapR_repack [OF Inr len] by simp
    with Inr tq2_mapR_ok [OF len] show ?thesis unfolding run by (simp del: upt_Suc)
  qed
qed

theorem tq2_0_block_decode_exact_witness:
  "unpack_tq2_0_block (replicate 64 0x55 @ [0, 0x3C]) QK_K = Inr (replicate 256 ZERO, 0x3C00)
   \<and> pack_tq2_0_block (replicate 256 ZERO) 0x3C00 TQ2_0_BLOCK_BYTES = Inr (replicate 64 0x55 @ [0, 0x3C])"
proof -
  let ?b = "replicate 64 0x55 @ [0, 0x3C] :: bytes"
  have cell: "decode_trit (int (unat (code2 (take 64 ?b ! (c * 32 + m)) l)) - 1) = Inr ZERO"
    if "c < 2" "l < 4" "m < 32" for c l m
    using that by (simp add: nth_append code2_0x55 decode_trit_def from_i8_def)
  have "mapR (\<lambda>(c, l, m). decode_trit (int (unat (code2 (take 64 ?b ! (c * 32 + m)) l)) - 1))
      [(c, l, m). c \<leftarrow> [0..<2], l \<leftarrow> [0..<4], m \<leftarrow> [0..<32]]
    = Inr (map (\<lambda>_. ZERO) [(c, l, m). c \<leftarrow> [0..<2 :: nat], l \<leftarrow> [0..<4 :: nat], m \<leftarrow> [0..<32 :: nat]])"
  proof (rule mapR_map)
    fix x assume "x \<in> set [(c, l, m). c \<leftarrow> [0..<2 :: nat], l \<leftarrow> [0..<4 :: nat], m \<leftarrow> [0..<32 :: nat]]"
    then obtain c l m where "x = (c, l, m)" "c < 2" "l < 4" "m < 32" unfolding set_triples by blast
    with cell show "(\<lambda>(c, l, m). decode_trit (int (unat (code2 (take 64 ?b ! (c * 32 + m)) l)) - 1)) x
        = Inr ZERO" by (simp only: prod.case)
  qed
  also have "map (\<lambda>_. ZERO) [(c, l, m). c \<leftarrow> [0..<2 :: nat], l \<leftarrow> [0..<4 :: nat], m \<leftarrow> [0..<32 :: nat]]
      = replicate 256 ZERO"
    unfolding grid3 by (simp add: map_replicate_const del: upt_Suc)
  finally have run: "unpack_tq2_0_block ?b QK_K = Inr (replicate 256 ZERO, 0x3C00)"
    by (simp add: unpack_tq2_0_block_def read_scale_def un_le16_def del: upt_Suc)
  with tq2_0_block_decode_exact [of ?b] show ?thesis by simp
qed

section \<open>Q2_0\<close>

definition Q2_0_GROUP_SIZE :: nat where "Q2_0_GROUP_SIZE = 64"
definition Q2_0_BLOCK_BYTES :: nat where "Q2_0_BLOCK_BYTES = 2 + Q2_0_GROUP_SIZE div 4"

lemma q2_consts [simp]: "Q2_0_GROUP_SIZE = 64" "Q2_0_BLOCK_BYTES = 18"
  by (simp_all add: Q2_0_GROUP_SIZE_def Q2_0_BLOCK_BYTES_def)

definition pack_q2_0_block :: "trit list \<Rightarrow> f16 \<Rightarrow> usize \<Rightarrow> FormatError + bytes" where
  "pack_q2_0_block trits scale out_len =
    (if length trits \<noteq> Q2_0_GROUP_SIZE then Inl (WrongTritCount Q2_0_GROUP_SIZE (length trits))
     else if out_len \<noteq> Q2_0_BLOCK_BYTES then Inl (WrongBlockLen Q2_0_BLOCK_BYTES out_len)
     else Inr (le16 scale @ map (\<lambda>j. pack4 (\<lambda>slot. trit_code (trits ! (j * 4 + slot)))) [0..<16]))"

definition unpack_q2_0_block :: "bytes \<Rightarrow> usize \<Rightarrow> FormatError + trit list \<times> f16" where
  "unpack_q2_0_block block trits_len =
    (if length block \<noteq> Q2_0_BLOCK_BYTES then Inl (WrongBlockLen Q2_0_BLOCK_BYTES (length block))
     else if trits_len \<noteq> Q2_0_GROUP_SIZE then Inl (WrongTritCount Q2_0_GROUP_SIZE trits_len)
     else let qs = drop 2 block in
       rbind (mapR (\<lambda>(j, slot). decode_trit (int (unat (code2 (qs ! j) slot)) - 1))
           [(j, slot). j \<leftarrow> [0..<16], slot \<leftarrow> [0..<4]])
         (\<lambda>trits. Inr (trits, un_le16 (take 2 block))))"

lemma unpack_pack_q2_0_block:
  assumes "length trits = 64"
  shows "unpack_q2_0_block
      (le16 scale @ map (\<lambda>j. pack4 (\<lambda>slot. trit_code (trits ! (j * 4 + slot)))) [0..<16]) 64
    = Inr (trits, scale)"
proof -
  let ?qs = "map (\<lambda>j. pack4 (\<lambda>slot. trit_code (trits ! (j * 4 + slot)))) [0..<16]"
  let ?f = "\<lambda>(j, slot). decode_trit (int (unat (code2 (?qs ! j) slot)) - 1)"
  let ?is = "[(j, slot). j \<leftarrow> [0..<16 :: nat], slot \<leftarrow> [0..<4 :: nat]]"
  have f: "?f x = Inr ((\<lambda>(j, slot). trits ! (j * 4 + slot)) x)" if mem: "x \<in> set ?is" for x
  proof -
    obtain j slot where x: "x = (j, slot)" "j < 16" "slot < 4" using mem unfolding set_pairs by blast
    then show ?thesis by (simp add: code2_pack4 trit_code_less4 del: upt_Suc)
  qed
  have "map (\<lambda>(j, slot). trits ! (j * 4 + slot)) ?is
      = [trits ! (j * 4 + slot). j \<leftarrow> [0..<16], slot \<leftarrow> [0..<4]]"
    by (simp add: map_concat comp_def del: upt_Suc)
  also have "\<dots> = map (\<lambda>i. trits ! i) [0..<64]" unfolding grid2 by simp
  also have "\<dots> = trits" using assms(1) map_nth [of trits] by simp
  finally have "mapR ?f ?is = Inr trits" using mapR_map [of ?is ?f] f by simp
  then show ?thesis by (simp add: unpack_q2_0_block_def del: upt_Suc)
qed

section \<open>TQ1_0\<close>

definition POW3 :: "u8 list" where "POW3 = [1, 3, 9, 27, 81, 243]"

definition tq1_encode :: "u16 \<Rightarrow> u8" where
  "tq1_encode acc = of_nat (div_ceil (unat (acc * 256)) 243)"

text \<open>The product wraps at eight bits; the high byte of three times it is the digit.\<close>
definition tq1_decode :: "u8 \<Rightarrow> nat \<Rightarrow> i8" where
  "tq1_decode byte n =
     (let q = byte * POW3 ! n
      in sint (ucast (drop_bit 8 ((ucast q :: u16) * 3)) :: u8) - 1)"

definition tq1_acc :: "trit list \<Rightarrow> nat list \<Rightarrow> u16" where
  "tq1_acc trits is = fold (\<lambda>i acc. acc * 3 + of_int (get (trits ! i) + 1)) is 0"

definition pack_tq1_0_block :: "trit list \<Rightarrow> f16 \<Rightarrow> usize \<Rightarrow> FormatError + bytes" where
  "pack_tq1_0_block trits scale out_len =
    (if length trits \<noteq> QK_K then Inl (WrongTritCount QK_K (length trits))
     else if out_len \<noteq> TQ1_0_BLOCK_BYTES then Inl (WrongBlockLen TQ1_0_BLOCK_BYTES out_len)
     else Inr (write_scale scale
       (map (\<lambda>m. tq1_encode (tq1_acc trits (map (\<lambda>n. m + n * 32) [0..<5]))) [0..<32]
        @ map (\<lambda>m. tq1_encode (tq1_acc trits (map (\<lambda>n. 160 + m + n * 16) [0..<5]))) [0..<16]
        @ map (\<lambda>j. tq1_encode (tq1_acc trits (map (\<lambda>m. 240 + j + m * 4) [0..<4]) * 3)) [0..<4]
        @ replicate 2 0)))"

text \<open>The byte and digit of each element, in the order the three loops write the elements.\<close>
definition tq1_cells :: "(nat \<times> nat) list" where
  "tq1_cells = [(m, n). n \<leftarrow> [0..<5], m \<leftarrow> [0..<32]]
     @ [(32 + m, n). n \<leftarrow> [0..<5], m \<leftarrow> [0..<16]]
     @ [(48 + j, n). n \<leftarrow> [0..<4], j \<leftarrow> [0..<4]]"

definition unpack_tq1_0_block :: "bytes \<Rightarrow> usize \<Rightarrow> FormatError + trit list \<times> f16" where
  "unpack_tq1_0_block block trits_len =
    (if length block \<noteq> TQ1_0_BLOCK_BYTES then Inl (WrongBlockLen TQ1_0_BLOCK_BYTES (length block))
     else if trits_len \<noteq> QK_K then Inl (WrongTritCount QK_K trits_len)
     else rbind (mapR (\<lambda>(b, n). decode_trit (tq1_decode (block ! b) n)) tq1_cells)
       (\<lambda>trits. Inr (trits, read_scale block)))"

lemma sint8_small:
  assumes "unat (w :: 8 word) = k" "k < 3"
  shows "sint w = int k"
proof -
  have "w = of_nat k" using assms(1) by auto
  with assms(2) show ?thesis by (auto simp: less_Suc_eq numeral_eq_Suc)
qed

lemma POW3_nth: "n < 5 \<Longrightarrow> POW3 ! n = of_nat (3 ^ n)"
  by (auto simp: POW3_def less_Suc_eq numeral_eq_Suc)

lemma tq1_decode_nat:
  assumes "n < 5"
  shows "tq1_decode byte n = int ((unat byte * 3 ^ n mod 256) * 3 div 256) - 1"
proof -
  let ?q = "byte * POW3 ! n"
  have q: "unat ?q = unat byte * 3 ^ n mod 256"
    unfolding POW3_nth [OF assms] by (simp add: unat_word_ariths unat_of_nat mod_mult_right_eq del: of_nat_power)
  have "unat ((ucast ?q :: u16) * 3) = unat ?q * 3"
    using unat8_less [of ?q] by (simp add: unat_word_ariths unsigned_ucast_eq take_bit_eq_mod)
  then have "unat (drop_bit 8 ((ucast ?q :: u16) * 3)) = unat ?q * 3 div 256"
    by (simp add: drop_bit_eq_div unat_div)
  moreover have small: "unat ?q * 3 div 256 < 3"
    using unat8_less [of ?q] by (intro less_mult_imp_div_less) linarith
  ultimately have "unat (ucast (drop_bit 8 ((ucast ?q :: u16) * 3)) :: u8) = unat ?q * 3 div 256"
    by (simp add: unsigned_ucast_eq take_bit_eq_mod)
  with small show ?thesis unfolding tq1_decode_def Let_def q [symmetric] by (simp add: sint8_small)
qed

text \<open>Every byte decodes: the digit is at most two whatever the byte is.\<close>
lemma tq1_decode_total:
  assumes "n < 5"
  shows "\<exists>t. decode_trit (tq1_decode byte n) = Inr t"
proof -
  have "unat byte * 3 ^ n mod 256 < 256" by simp
  then have "(unat byte * 3 ^ n mod 256) * 3 div 256 < 3" by (intro less_mult_imp_div_less) linarith
  then have "tq1_decode byte n \<in> {-1, 0, 1}" unfolding tq1_decode_nat [OF assms] by auto
  then show ?thesis by (auto simp: decode_trit_def from_i8_def)
qed

definition base3 :: "nat list \<Rightarrow> nat" where
  "base3 ds = fold (\<lambda>d a. a * 3 + d) ds 0"

definition digit :: "trit \<Rightarrow> nat" where
  "digit t = nat (get t + 1)"

lemma digit_less: "digit t < 3"
  by (cases t) (simp_all add: digit_def)

lemma int_digit: "int (digit t) - 1 = get t"
  by (cases t) (simp_all add: digit_def)

lemma tq1_acc_nat: "tq1_acc trits is = of_nat (base3 (map (\<lambda>i. digit (trits ! i)) is))"
proof -
  have d: "of_int (get t + 1) = (of_nat (digit t) :: u16)" for t by (cases t) (simp_all add: digit_def)
  have "fold (\<lambda>i acc. acc * 3 + of_int (get (trits ! i) + 1)) is (of_nat a :: u16)
      = of_nat (fold (\<lambda>d a. a * 3 + d) (map (\<lambda>i. digit (trits ! i)) is) a)" for a
  proof (induction "is" arbitrary: a)
    case (Cons i "is")
    have "(of_nat a :: u16) * 3 + of_int (get (trits ! i) + 1) = of_nat (a * 3 + digit (trits ! i))"
      by (simp only: d of_nat_add of_nat_mult of_nat_numeral)
    with Cons.IH [of "a * 3 + digit (trits ! i)"] show ?case
      by (simp only: fold_simps list.map)
  qed simp
  from this [of 0] show ?thesis by (simp add: tq1_acc_def base3_def)
qed

lemma base3_snoc: "base3 (ds @ [d]) = base3 ds * 3 + d"
  by (simp add: base3_def)

lemma base3_less: "(\<And>d. d \<in> set ds \<Longrightarrow> d < 3) \<Longrightarrow> base3 ds < 3 ^ length ds"
proof (induction ds rule: rev_induct)
  case (snoc d ds)
  then have "base3 ds + 1 \<le> 3 ^ length ds" "d < 3" by (simp_all add: Suc_leI)
  then have "(base3 ds + 1) * 3 \<le> 3 ^ length ds * 3" by (intro mult_le_mono1)
  with \<open>d < 3\<close> show ?case by (simp add: base3_snoc)
qed (simp add: base3_def)

lemma base3_digit:
  "(\<And>d. d \<in> set ds \<Longrightarrow> d < 3) \<Longrightarrow> n < length ds
   \<Longrightarrow> base3 ds div 3 ^ (length ds - 1 - n) mod 3 = ds ! n"
proof (induction ds rule: rev_induct)
  case (snoc d ds)
  have d: "d < 3" using snoc.prems by simp
  show ?case
  proof (cases "n = length ds")
    case True
    with d show ?thesis by (simp add: base3_snoc nth_append)
  next
    case False
    then have n: "n < length ds" using snoc.prems by simp
    then obtain j where j: "length ds - n = Suc j" by (metis Suc_diff_Suc)
    have "(base3 ds * 3 + d) div 3 ^ Suc j = base3 ds div 3 ^ j"
      using d by (simp add: div_mult2_eq)
    moreover have "length ds - 1 - n = j" using j by simp
    ultimately show ?thesis using snoc.IH snoc.prems(1) n j by (simp add: base3_snoc nth_append)
  qed
qed simp

lemma tq1_roundtrip:
  assumes "length ds = 5" "\<And>d. d \<in> set ds \<Longrightarrow> d < 3" "n < 5"
  shows "tq1_decode (tq1_encode (of_nat (base3 ds))) n = int (ds ! n) - 1"
proof -
  let ?a = "base3 ds"
  have a: "?a < 243" using base3_less [of ds] assms(1,2) by simp
  then have "unat (of_nat ?a * 256 :: u16) = ?a * 256"
    by (simp add: unat_word_ariths unat_of_nat)
  moreover have "div_ceil (?a * 256) 243 \<le> (242 * 256 + 242) div 243"
    using a unfolding div_ceil_def by (intro div_le_mono) simp
  ultimately have "unat (tq1_encode (of_nat ?a)) = div_ceil (?a * 256) 243"
    by (simp add: tq1_encode_def unat_of_nat)
  with tq1_digit [OF assms(3), of ?a] base3_digit [of ds n] assms
  show ?thesis by (simp add: tq1_decode_nat)
qed

lemma tq1_cell5:
  assumes "length is = 5" "n < 5"
  shows "decode_trit (tq1_decode (tq1_encode (tq1_acc trits is)) n) = Inr (trits ! (is ! n))"
proof -
  let ?ds = "map (\<lambda>i. digit (trits ! i)) is"
  have "tq1_decode (tq1_encode (of_nat (base3 ?ds))) n = int (?ds ! n) - 1"
    using assms by (intro tq1_roundtrip) (auto simp: digit_less)
  then show ?thesis using assms by (simp add: tq1_acc_nat int_digit)
qed

lemma tq1_cell4:
  assumes "length is = 4" "n < 4"
  shows "decode_trit (tq1_decode (tq1_encode (tq1_acc trits is * 3)) n) = Inr (trits ! (is ! n))"
proof -
  let ?ds = "map (\<lambda>i. digit (trits ! i)) is"
  have acc: "tq1_acc trits is * 3 = of_nat (base3 (?ds @ [0]))"
    by (simp add: tq1_acc_nat base3_snoc)
  have "tq1_decode (tq1_encode (of_nat (base3 (?ds @ [0])))) n = int ((?ds @ [0]) ! n) - 1"
    using assms by (intro tq1_roundtrip) (auto simp: digit_less)
  then show ?thesis unfolding acc using assms by (simp add: nth_append int_digit)
qed

definition tq1_qs :: "trit list \<Rightarrow> bytes" where
  "tq1_qs trits =
     map (\<lambda>m. tq1_encode (tq1_acc trits (map (\<lambda>n. m + n * 32) [0..<5]))) [0..<32]
     @ map (\<lambda>m. tq1_encode (tq1_acc trits (map (\<lambda>n. 160 + m + n * 16) [0..<5]))) [0..<16]
     @ map (\<lambda>j. tq1_encode (tq1_acc trits (map (\<lambda>m. 240 + j + m * 4) [0..<4]) * 3)) [0..<4]"

lemma length_tq1_qs [simp]: "length (tq1_qs trits) = 52"
  by (simp add: tq1_qs_def)

lemma tq1_qs_nth:
  "m < 32 \<Longrightarrow> tq1_qs trits ! m = tq1_encode (tq1_acc trits (map (\<lambda>n. m + n * 32) [0..<5]))"
  "m < 16 \<Longrightarrow> tq1_qs trits ! (32 + m) = tq1_encode (tq1_acc trits (map (\<lambda>n. 160 + m + n * 16) [0..<5]))"
  "j < 4 \<Longrightarrow> tq1_qs trits ! (48 + j) = tq1_encode (tq1_acc trits (map (\<lambda>m. 240 + j + m * 4) [0..<4]) * 3)"
  by (simp_all add: tq1_qs_def nth_append del: upt_Suc)

lemma pack_tq1_0_block_ok:
  "length trits = 256 \<Longrightarrow> pack_tq1_0_block trits scale 54 = Inr (tq1_qs trits @ le16 scale)"
  by (simp add: pack_tq1_0_block_def write_scale_def tq1_qs_def del: upt_Suc)

text \<open>The element a cell decodes to.\<close>
definition tq1_elem :: "nat \<times> nat \<Rightarrow> nat" where
  "tq1_elem = (\<lambda>(b, n). if b < 32 then n * 32 + b else if b < 48 then 160 + (n * 16 + (b - 32))
     else 240 + (n * 4 + (b - 48)))"

lemma tq1_cells_elem: "map tq1_elem tq1_cells = [0..<256]"
proof -
  have "map tq1_elem [(m, n). n \<leftarrow> [0..<5], m \<leftarrow> [0..<32]] = [n * 32 + m. n \<leftarrow> [0..<5], m \<leftarrow> [0..<32]]"
    unfolding map_concat map_map comp_def
    by (intro arg_cong [where f = concat] map_cong refl) (simp add: tq1_elem_def)
  also have "\<dots> = [0..<160]" unfolding grid2 by (simp add: map_idI del: upt_Suc)
  finally have a: "map tq1_elem [(m, n). n \<leftarrow> [0..<5], m \<leftarrow> [0..<32]] = [0..<160]" .
  have "map tq1_elem [(32 + m, n). n \<leftarrow> [0..<5], m \<leftarrow> [0..<16]]
      = [160 + (n * 16 + m). n \<leftarrow> [0..<5], m \<leftarrow> [0..<16]]"
    unfolding map_concat map_map comp_def
    by (intro arg_cong [where f = concat] map_cong refl) (simp add: tq1_elem_def)
  also have "\<dots> = map ((+) 160) [0..<80]" unfolding grid2 by (simp del: upt_Suc)
  finally have b: "map tq1_elem [(32 + m, n). n \<leftarrow> [0..<5], m \<leftarrow> [0..<16]] = map ((+) 160) [0..<80]" .
  have "map tq1_elem [(48 + j, n). n \<leftarrow> [0..<4], j \<leftarrow> [0..<4]]
      = [240 + (n * 4 + j). n \<leftarrow> [0..<4], j \<leftarrow> [0..<4]]"
    unfolding map_concat map_map comp_def
    by (intro arg_cong [where f = concat] map_cong refl) (simp add: tq1_elem_def)
  also have "\<dots> = map ((+) 240) [0..<16]" unfolding grid2 by (simp del: upt_Suc)
  finally have c: "map tq1_elem [(48 + j, n). n \<leftarrow> [0..<4], j \<leftarrow> [0..<4]] = map ((+) 240) [0..<16]" .
  have "[0..<160] @ [160..<160 + 80] @ [240..<240 + 16] = [0..<160] @ ([160..<240] @ [240..<256])"
    by (simp only: numeral_plus_numeral num.simps Num.add_num_simps)
  also have "\<dots> = [0..<256]" by (simp only: upt_join zero_le numeral_le_iff semiring_norm)
  finally show ?thesis unfolding tq1_cells_def map_append a b c map_plus_upt .
qed

lemma tq1_cells_decode:
  assumes "x \<in> set tq1_cells" and "\<And>b. b < 52 \<Longrightarrow> block ! b = tq1_qs trits ! b"
  shows "(\<lambda>(b, n). decode_trit (tq1_decode (block ! b) n)) x = Inr (trits ! tq1_elem x)"
proof -
  obtain b n where x: "x = (b, n)" by (cases x)
  from assms(1) consider "b < 32" "n < 5" | m where "b = 32 + m" "m < 16" "n < 5"
    | j where "b = 48 + j" "j < 4" "n < 4"
    unfolding x tq1_cells_def by (auto simp del: upt_Suc)
  then show ?thesis
  proof cases
    case 1
    then show ?thesis
      by (simp add: x assms(2) tq1_qs_nth(1) tq1_cell5 tq1_elem_def add.commute del: upt_Suc)
  next
    case 2
    then show ?thesis
      by (simp add: x assms(2) tq1_qs_nth(2) tq1_cell5 tq1_elem_def add.assoc add.commute [of m]
          del: upt_Suc)
  next
    case 3
    then show ?thesis
      by (simp add: x assms(2) tq1_qs_nth(3) tq1_cell4 tq1_elem_def add.assoc add.commute [of j]
          del: upt_Suc)
  qed
qed

lemma unpack_pack_tq1_0_block:
  assumes "length trits = 256"
  shows "unpack_tq1_0_block (tq1_qs trits @ le16 scale) 256 = Inr (trits, scale)"
proof -
  have "mapR (\<lambda>(b, n). decode_trit (tq1_decode ((tq1_qs trits @ le16 scale) ! b) n)) tq1_cells
      = Inr (map (\<lambda>x. trits ! tq1_elem x) tq1_cells)"
    by (intro mapR_map tq1_cells_decode) (simp_all add: nth_append)
  also have "map (\<lambda>x. trits ! tq1_elem x) tq1_cells = map (\<lambda>i. trits ! i) (map tq1_elem tq1_cells)"
    by (simp only: map_map comp_def)
  also have "\<dots> = trits" unfolding tq1_cells_elem using assms map_nth [of trits] by simp
  finally show ?thesis by (simp add: unpack_tq1_0_block_def)
qed

end
