(* ===== verification/Rows.thy ===== *)
theory Rows
  imports Blocks
begin

unbundle bit_operations_syntax

text \<open>
  Rows of blocks: \<open>rows.rs\<close> and the row half of \<open>q2_0.rs\<close>, and the zero bitmaps of \<open>tq2.rs\<close>.  A row packer
  cuts a row into blocks, pads the last one with zero trits and packs each block; the unpacker drops the
  padding.  The loop is the same for the three formats, so its correctness is proved once, against the
  contract of a block codec, and obtained for each format by interpretation.
\<close>

section \<open>The block loops\<close>

definition num_blocks :: "usize \<Rightarrow> usize" where
  "num_blocks k = div_ceil k QK_K"

definition check_row :: "usize \<Rightarrow> usize \<Rightarrow> usize \<Rightarrow> usize \<Rightarrow> FormatError + usize" where
  "check_row k scales_len out_len block_bytes =
    (let nb = num_blocks k in
     if scales_len \<noteq> nb then Inl (WrongBlockLen nb scales_len)
     else let expected = nb * block_bytes in
       if out_len \<noteq> expected then Inl (WrongBlockLen expected out_len)
       else Inr nb)"

definition pack_blocks ::
  "(trit list \<Rightarrow> f16 \<Rightarrow> usize \<Rightarrow> FormatError + bytes) \<Rightarrow> nat \<Rightarrow> nat \<Rightarrow> trit list \<Rightarrow> f16 list
   \<Rightarrow> FormatError + bytes" where
  "pack_blocks pack_block B W trits scales =
     rbind (mapR (\<lambda>(i, scale).
         let start = i * B; n = min (start + B) (length trits) - start
         in pack_block (pad_to ZERO B (window start n trits)) scale W)
       (zip [0..<length scales] scales))
     (\<lambda>blocks. Inr (concat blocks))"

definition unpack_blocks ::
  "(bytes \<Rightarrow> usize \<Rightarrow> FormatError + trit list \<times> f16) \<Rightarrow> nat \<Rightarrow> nat \<Rightarrow> bytes \<Rightarrow> usize \<Rightarrow> usize
   \<Rightarrow> FormatError + trit list \<times> f16 list" where
  "unpack_blocks unpack_block B W packed k nb =
     rbind (mapR (\<lambda>i.
         rbind (unpack_block (window (i * W) W packed) B) (\<lambda>(block, scale).
         let start = i * B; e = min (start + B) k
         in Inr (take (e - start) block, scale)))
       [0..<nb])
     (\<lambda>rs. Inr (concat (map fst rs), map snd rs))"

definition pack_tq2_0_row :: "trit list \<Rightarrow> f16 list \<Rightarrow> usize \<Rightarrow> FormatError + bytes" where
  "pack_tq2_0_row trits scales out_len =
     rbind (check_row (length trits) (length scales) out_len TQ2_0_BLOCK_BYTES) (\<lambda>_.
     pack_blocks pack_tq2_0_block QK_K TQ2_0_BLOCK_BYTES trits scales)"

definition unpack_tq2_0_row :: "bytes \<Rightarrow> usize \<Rightarrow> usize \<Rightarrow> FormatError + trit list \<times> f16 list" where
  "unpack_tq2_0_row packed k scales_len =
     rbind (check_row k scales_len (length packed) TQ2_0_BLOCK_BYTES) (\<lambda>_.
     unpack_blocks unpack_tq2_0_block QK_K TQ2_0_BLOCK_BYTES packed k scales_len)"

definition pack_tq1_0_row :: "trit list \<Rightarrow> f16 list \<Rightarrow> usize \<Rightarrow> FormatError + bytes" where
  "pack_tq1_0_row trits scales out_len =
     rbind (check_row (length trits) (length scales) out_len TQ1_0_BLOCK_BYTES) (\<lambda>_.
     pack_blocks pack_tq1_0_block QK_K TQ1_0_BLOCK_BYTES trits scales)"

definition unpack_tq1_0_row :: "bytes \<Rightarrow> usize \<Rightarrow> usize \<Rightarrow> FormatError + trit list \<times> f16 list" where
  "unpack_tq1_0_row packed k scales_len =
     rbind (check_row k scales_len (length packed) TQ1_0_BLOCK_BYTES) (\<lambda>_.
     unpack_blocks unpack_tq1_0_block QK_K TQ1_0_BLOCK_BYTES packed k scales_len)"

definition q2_0_num_blocks :: "usize \<Rightarrow> usize" where
  "q2_0_num_blocks k = div_ceil k Q2_0_GROUP_SIZE"

definition q2_0_check_row :: "usize \<Rightarrow> usize \<Rightarrow> usize \<Rightarrow> FormatError + unit" where
  "q2_0_check_row k scales_len packed_len =
    (let nb = q2_0_num_blocks k in
     if scales_len \<noteq> nb then Inl (WrongBlockLen nb scales_len)
     else let expected = nb * Q2_0_BLOCK_BYTES in
       if packed_len \<noteq> expected then Inl (WrongBlockLen expected packed_len)
       else Inr ())"

definition pack_q2_0_row :: "trit list \<Rightarrow> f16 list \<Rightarrow> usize \<Rightarrow> FormatError + bytes" where
  "pack_q2_0_row trits scales out_len =
     rbind (q2_0_check_row (length trits) (length scales) out_len) (\<lambda>_.
     pack_blocks pack_q2_0_block Q2_0_GROUP_SIZE Q2_0_BLOCK_BYTES trits scales)"

definition unpack_q2_0_row :: "bytes \<Rightarrow> usize \<Rightarrow> usize \<Rightarrow> FormatError + trit list \<times> f16 list" where
  "unpack_q2_0_row packed k scales_len =
     rbind (q2_0_check_row k scales_len (length packed)) (\<lambda>_.
     unpack_blocks unpack_q2_0_block Q2_0_GROUP_SIZE Q2_0_BLOCK_BYTES packed k scales_len)"

section \<open>The contract of a block codec\<close>

locale block_codec =
  fixes pack_block :: "trit list \<Rightarrow> f16 \<Rightarrow> nat \<Rightarrow> FormatError + bytes"
    and unpack_block :: "bytes \<Rightarrow> nat \<Rightarrow> FormatError + trit list \<times> f16"
    and B W :: nat
  assumes B_pos: "0 < B"
    and unpack_pack: "length ts = B \<Longrightarrow>
      \<exists>bs. pack_block ts s W = Inr bs \<and> length bs = W \<and> unpack_block bs B = Inr (ts, s)"
    and unpack_length: "unpack_block bs n = Inr (ts, s) \<Longrightarrow> length ts = B"
begin

definition chunk :: "trit list \<Rightarrow> nat \<Rightarrow> trit list" where
  "chunk ts i = pad_to ZERO B (take B (drop (i * B) ts))"

definition packed :: "trit list \<Rightarrow> f16 \<Rightarrow> bytes" where
  "packed ts s = projr (pack_block ts s W)"

lemma length_chunk: "length (chunk ts i) = B"
  by (simp add: chunk_def)

lemma packed_ok:
  assumes "length ts = B"
  shows "pack_block ts s W = Inr (packed ts s)" "length (packed ts s) = W"
    "unpack_block (packed ts s) B = Inr (ts, s)"
proof -
  obtain bs where "pack_block ts s W = Inr bs" "length bs = W" "unpack_block bs B = Inr (ts, s)"
    using unpack_pack [OF assms] by blast
  then show "pack_block ts s W = Inr (packed ts s)" "length (packed ts s) = W"
    "unpack_block (packed ts s) B = Inr (ts, s)" by (simp_all add: packed_def)
qed

lemma pack_blocks_ok:
  "pack_blocks pack_block B W ts scales
     = Inr (concat (map (\<lambda>i. packed (chunk ts i) (scales ! i)) [0..<length scales]))"
proof -
  have "mapR (\<lambda>(i, scale). let start = i * B; n = min (start + B) (length ts) - start
        in pack_block (pad_to ZERO B (window start n ts)) scale W) (zip [0..<length scales] scales)
      = Inr (map (\<lambda>(i, scale). packed (chunk ts i) scale) (zip [0..<length scales] scales))"
    by (rule mapR_map) (auto simp: window_row_chunk packed_ok(1) length_chunk simp flip: chunk_def)
  moreover have "map (\<lambda>(i, scale). packed (chunk ts i) scale) (zip [0..<length scales] scales)
      = map (\<lambda>i. packed (chunk ts i) (scales ! i)) [0..<length scales]"
    by (intro nth_equalityI) simp_all
  ultimately show ?thesis by (simp add: pack_blocks_def)
qed

lemma unpack_blocks_pack:
  assumes "length scales = div_ceil (length ts) B"
  defines "bs \<equiv> concat (map (\<lambda>i. packed (chunk ts i) (scales ! i)) [0..<length scales])"
  shows "length bs = length scales * W"
    and "unpack_blocks unpack_block B W bs (length ts) (length scales) = Inr (ts, scales)"
proof -
  let ?blocks = "map (\<lambda>i. packed (chunk ts i) (scales ! i)) [0..<length scales]"
  have width: "x \<in> set ?blocks \<Longrightarrow> length x = W" for x by (auto simp: packed_ok(2) length_chunk)
  show "length bs = length scales * W"
    unfolding bs_def using length_concat_const [of ?blocks W] width by auto
  have win: "window (i * W) W bs = packed (chunk ts i) (scales ! i)" if "i < length scales" for i
    unfolding bs_def using window_concat_const [of ?blocks W i] width that by auto
  have "mapR (\<lambda>i. rbind (unpack_block (window (i * W) W bs) B) (\<lambda>(block, scale).
        let start = i * B; e = min (start + B) (length ts) in Inr (take (e - start) block, scale)))
      [0..<length scales]
    = Inr (map (\<lambda>i. (take B (drop (i * B) ts), scales ! i)) [0..<length scales])"
  proof (rule mapR_map)
    fix i assume "i \<in> set [0..<length scales]"
    then have i: "i < length scales" by simp
    have "take (min (i * B + B) (length ts) - i * B) (chunk ts i) = take B (drop (i * B) ts)"
      unfolding chunk_def length_row_chunk [symmetric] by (rule take_pad_to)
    then show "rbind (unpack_block (window (i * W) W bs) B) (\<lambda>(block, scale).
        let start = i * B; e = min (start + B) (length ts) in Inr (take (e - start) block, scale))
      = Inr (take B (drop (i * B) ts), scales ! i)"
      using i by (simp add: win packed_ok(3) length_chunk)
  qed
  moreover have "concat (map (\<lambda>i. take B (drop (i * B) ts)) [0..<length scales]) = ts"
    unfolding assms(1) by (rule concat_row_chunks [OF B_pos])
  ultimately show "unpack_blocks unpack_block B W bs (length ts) (length scales) = Inr (ts, scales)"
    by (simp add: unpack_blocks_def comp_def map_nth)
qed

lemma row_roundtrip:
  assumes "length scales = div_ceil (length ts) B"
  shows "\<exists>bs. pack_blocks pack_block B W ts scales = Inr bs \<and> length bs = length scales * W
    \<and> unpack_blocks unpack_block B W bs (length ts) (length scales) = Inr (ts, scales)"
  using pack_blocks_ok unpack_blocks_pack [OF assms] by blast

lemma unpack_blocks_length:
  assumes "unpack_blocks unpack_block B W bs k (div_ceil k B) = Inr (ts, scales)"
  shows "length ts = k \<and> length scales = div_ceil k B"
proof -
  let ?f = "\<lambda>i. rbind (unpack_block (window (i * W) W bs) B) (\<lambda>(block, scale).
        let start = i * B; e = min (start + B) k in Inr (take (e - start) block, scale))"
  obtain rs where rs: "mapR ?f [0..<div_ceil k B] = Inr rs"
    and ts: "ts = concat (map fst rs)" and sc: "scales = map snd rs"
    using assms by (auto simp: unpack_blocks_def rbind_eq_Inr)
  have len: "length rs = div_ceil k B" using mapR_length [OF rs] by simp
  have part: "length (fst (rs ! i)) = length (take B (drop (i * B) (replicate k ZERO)))"
    if "i < div_ceil k B" for i
  proof -
    have "?f i = Inr (rs ! i)" using rs that by (auto simp: mapR_eq_Inr list_all2_conv_all_nth)
    then obtain block scale where "unpack_block (window (i * W) W bs) B = Inr (block, scale)"
      "fst (rs ! i) = take (min (i * B + B) k - i * B) block"
      by (cases "rs ! i") (auto simp: rbind_eq_Inr Let_def)
    then show ?thesis using unpack_length by (auto simp: min_def)
  qed
  have "map length (map fst rs) = map length (map (\<lambda>i. take B (drop (i * B) (replicate k ZERO))) [0..<div_ceil k B])"
    using len part by (intro nth_equalityI) (auto simp: length_row_chunk)
  then have "length ts = length (concat (map (\<lambda>i. take B (drop (i * B) (replicate k ZERO))) [0..<div_ceil k B]))"
    unfolding ts length_concat by simp
  also have "\<dots> = k" using concat_row_chunks [OF B_pos, of "replicate k ZERO"] by simp
  finally show ?thesis using len sc by simp
qed

end

section \<open>The three formats\<close>

lemma unpack_tq2_0_block_length: "unpack_tq2_0_block bs n = Inr (ts, s) \<Longrightarrow> length ts = QK_K"
  by (auto simp: unpack_tq2_0_block_def rbind_eq_Inr Let_def grid3 dest!: mapR_length split: if_splits
      simp del: upt_Suc)

lemma unpack_q2_0_block_length: "unpack_q2_0_block bs n = Inr (ts, s) \<Longrightarrow> length ts = Q2_0_GROUP_SIZE"
  by (auto simp: unpack_q2_0_block_def rbind_eq_Inr Let_def grid2 dest!: mapR_length split: if_splits
      simp del: upt_Suc)

lemma length_tq1_cells: "length tq1_cells = 256"
  using arg_cong [OF tq1_cells_elem, of length] by simp

lemma unpack_tq1_0_block_length: "unpack_tq1_0_block bs n = Inr (ts, s) \<Longrightarrow> length ts = QK_K"
  by (auto simp: unpack_tq1_0_block_def rbind_eq_Inr length_tq1_cells dest!: mapR_length split: if_splits)

interpretation tq2: block_codec pack_tq2_0_block unpack_tq2_0_block QK_K TQ2_0_BLOCK_BYTES
proof unfold_locales
  fix ts :: "trit list" and s :: f16 assume "length ts = QK_K"
  then have ts: "length ts = 256" by simp
  let ?qs = "[pack4 (\<lambda>n. trit_code (ts ! (c * 128 + n * 32 + m))). c \<leftarrow> [0..<2], m \<leftarrow> [0..<32]]"
  have "length ?qs = 2 * 32" by (rule length_grid2)
  then have "length (?qs @ le16 s) = 66" by (simp del: upt_Suc)
  then show "\<exists>bs. pack_tq2_0_block ts s TQ2_0_BLOCK_BYTES = Inr bs \<and> length bs = TQ2_0_BLOCK_BYTES
      \<and> unpack_tq2_0_block bs QK_K = Inr (ts, s)"
    using pack_tq2_0_block_ok [OF ts] unpack_pack_tq2_0_block [OF ts] unfolding block_consts by blast
qed (use unpack_tq2_0_block_length in simp_all)

interpretation tq1: block_codec pack_tq1_0_block unpack_tq1_0_block QK_K TQ1_0_BLOCK_BYTES
proof unfold_locales
  fix ts :: "trit list" and s :: f16 assume "length ts = QK_K"
  then show "\<exists>bs. pack_tq1_0_block ts s TQ1_0_BLOCK_BYTES = Inr bs \<and> length bs = TQ1_0_BLOCK_BYTES
      \<and> unpack_tq1_0_block bs QK_K = Inr (ts, s)"
    by (simp add: pack_tq1_0_block_ok unpack_pack_tq1_0_block)
qed (use unpack_tq1_0_block_length in simp_all)

interpretation q2: block_codec pack_q2_0_block unpack_q2_0_block Q2_0_GROUP_SIZE Q2_0_BLOCK_BYTES
proof unfold_locales
  fix ts :: "trit list" and s :: f16 assume ts: "length ts = Q2_0_GROUP_SIZE"
  then have "pack_q2_0_block ts s Q2_0_BLOCK_BYTES
      = Inr (le16 s @ map (\<lambda>j. pack4 (\<lambda>slot. trit_code (ts ! (j * 4 + slot)))) [0..<16])"
    by (simp add: pack_q2_0_block_def del: upt_Suc)
  then show "\<exists>bs. pack_q2_0_block ts s Q2_0_BLOCK_BYTES = Inr bs \<and> length bs = Q2_0_BLOCK_BYTES
      \<and> unpack_q2_0_block bs Q2_0_GROUP_SIZE = Inr (ts, s)"
    using ts unpack_pack_q2_0_block by (simp del: upt_Suc)
qed (use unpack_q2_0_block_length in simp_all)

text \<open>C9: Packing any row of trits into TQ2_0 blocks with one scale per block and unpacking it gives back
  the trits (without the padding of the last block) and the scales, for every row length.\<close>
theorem tq2_0_row_roundtrip:
  assumes "length scales = num_blocks (length trits)"
  shows "\<exists>bs. pack_tq2_0_row trits scales (length scales * TQ2_0_BLOCK_BYTES) = Inr bs
    \<and> length bs = length scales * TQ2_0_BLOCK_BYTES
    \<and> unpack_tq2_0_row bs (length trits) (length scales) = Inr (trits, scales)"
  using tq2.row_roundtrip [of scales trits] assms
  by (auto simp: pack_tq2_0_row_def unpack_tq2_0_row_def check_row_def num_blocks_def)

theorem tq2_0_row_roundtrip_witness:
  "\<exists>bs. pack_tq2_0_row [POS, NEG, ZERO] [0x3C00] 66 = Inr bs \<and> length bs = 66
    \<and> unpack_tq2_0_row bs 3 1 = Inr ([POS, NEG, ZERO], [0x3C00])"
  using tq2_0_row_roundtrip [of "[0x3C00]" "[POS, NEG, ZERO]"] by (simp add: num_blocks_def div_ceil_def numeral_3_eq_3)

text \<open>C10: The same round trip for TQ1_0, whose decoder relies on eight-bit wrap-around.\<close>
theorem tq1_0_row_roundtrip:
  assumes "length scales = num_blocks (length trits)"
  shows "\<exists>bs. pack_tq1_0_row trits scales (length scales * TQ1_0_BLOCK_BYTES) = Inr bs
    \<and> length bs = length scales * TQ1_0_BLOCK_BYTES
    \<and> unpack_tq1_0_row bs (length trits) (length scales) = Inr (trits, scales)"
  using tq1.row_roundtrip [of scales trits] assms
  by (auto simp: pack_tq1_0_row_def unpack_tq1_0_row_def check_row_def num_blocks_def)

theorem tq1_0_row_roundtrip_witness:
  "\<exists>bs. pack_tq1_0_row [POS, NEG, ZERO] [0x3C00] 54 = Inr bs \<and> length bs = 54
    \<and> unpack_tq1_0_row bs 3 1 = Inr ([POS, NEG, ZERO], [0x3C00])"
  using tq1_0_row_roundtrip [of "[0x3C00]" "[POS, NEG, ZERO]"] by (simp add: num_blocks_def div_ceil_def numeral_3_eq_3)

text \<open>The same round trip for Q2_0, whose blocks hold 64 trits behind their scale.\<close>
lemma q2_0_row_roundtrip:
  assumes "length scales = q2_0_num_blocks (length trits)"
  shows "\<exists>bs. pack_q2_0_row trits scales (length scales * Q2_0_BLOCK_BYTES) = Inr bs
    \<and> length bs = length scales * Q2_0_BLOCK_BYTES
    \<and> unpack_q2_0_row bs (length trits) (length scales) = Inr (trits, scales)"
  using q2.row_roundtrip [of scales trits] assms
  by (auto simp: pack_q2_0_row_def unpack_q2_0_row_def q2_0_check_row_def q2_0_num_blocks_def)

text \<open>C32: A TQ1_0 row of the right size always unpacks: every byte of a TQ1_0 block decodes to trits, so
  corrupt code bytes cannot raise an error.\<close>
theorem tq1_0_row_unpack_total:
  assumes "length packed = num_blocks k * TQ1_0_BLOCK_BYTES"
  shows "is_ok (unpack_tq1_0_row packed k (num_blocks k))"
proof -
  have cells: "(b, n) \<in> set tq1_cells \<Longrightarrow> n < 5" for b n
    unfolding tq1_cells_def by (auto simp del: upt_Suc)
  have "is_ok (decode_trit (tq1_decode (block ! b) n))" if "(b, n) \<in> set tq1_cells" for block b n
    using tq1_decode_total [OF cells [OF that]] by (auto simp: is_ok_iff)
  then have "is_ok (mapR (\<lambda>(b, n). decode_trit (tq1_decode (block ! b) n)) tq1_cells)" for block
    unfolding mapR_is_ok by auto
  then have "is_ok (unpack_tq1_0_block block QK_K)" if "length block = TQ1_0_BLOCK_BYTES" for block
    using that by (simp add: unpack_tq1_0_block_def)
  moreover have "length (window (i * TQ1_0_BLOCK_BYTES) TQ1_0_BLOCK_BYTES packed) = TQ1_0_BLOCK_BYTES"
    if "i < num_blocks k" for i
  proof -
    have "Suc i * 54 \<le> num_blocks k * 54" using that by (intro mult_le_mono1) simp
    then show ?thesis using assms by simp
  qed
  ultimately have "is_ok (unpack_blocks unpack_tq1_0_block QK_K TQ1_0_BLOCK_BYTES packed k (num_blocks k))"
    by (simp add: unpack_blocks_def mapR_is_ok Let_def)
  then show ?thesis using assms by (simp add: unpack_tq1_0_row_def check_row_def)
qed

theorem tq1_0_row_unpack_total_witness:
  "is_ok (unpack_tq1_0_row (replicate 54 0xFF) 100 1)"
  using tq1_0_row_unpack_total [of "replicate 54 0xFF" 100] by (simp add: num_blocks_def div_ceil_def)

section \<open>Zero bitmaps\<close>

definition compute_zero_bitmap :: "bytes \<Rightarrow> usize \<Rightarrow> FormatError + u32 list" where
  "compute_zero_bitmap packed_row k =
    (let nb = div_ceil k QK_K; need = saturating_mul nb TQ2_0_BLOCK_BYTES in
     if length packed_row < need then Inl (WrongBlockLen need (length packed_row))
     else Inr (fold (\<lambda>block_idx bitmap.
         let qs = window (block_idx * TQ2_0_BLOCK_BYTES) 64 packed_row in
         if list_all (\<lambda>b. b = 0x55) qs
         then bitmap[block_idx div 32 := bitmap ! (block_idx div 32) OR push_bit (block_idx mod 32) 1]
         else bitmap)
       [0..<nb] (replicate (div_ceil nb 32) 0)))"

definition compute_zero_bitmaps :: "bytes \<Rightarrow> usize \<Rightarrow> usize \<Rightarrow> usize \<Rightarrow> FormatError + u32 list" where
  "compute_zero_bitmaps packed n k row_bytes =
    (let nb = div_ceil k QK_K in
     if nb = 0 then Inr []
     else let min_row = saturating_mul nb TQ2_0_BLOCK_BYTES in
       if row_bytes < min_row then Inl (WrongBlockLen min_row row_bytes)
       else let need = saturating_mul n row_bytes in
         if length packed < need then Inl (WrongBlockLen need (length packed))
         else rbind (mapR (\<lambda>ni. compute_zero_bitmap (window (ni * row_bytes) row_bytes packed) k) [0..<n])
           (\<lambda>rows. Inr (concat rows)))"

lemma bit_or_single: "bit (x OR 2 ^ k :: u32) j \<longleftrightarrow> bit x j \<or> (j = k \<and> k < 32)"
  by (auto simp: bit_or_iff bit_exp_iff)

lemma mark_bits:
  fixes P :: "nat \<Rightarrow> bool"
  assumes "n \<le> w * 32"
  defines "bm \<equiv> fold (\<lambda>i bm. if P i then bm[i div 32 := bm ! (i div 32) OR push_bit (i mod 32) 1] else bm)
    [0..<n] (replicate w (0 :: u32))"
  shows "length bm = w \<and> (\<forall>j < w * 32. bit (bm ! (j div 32)) (j mod 32) \<longleftrightarrow> j < n \<and> P j)"
  unfolding bm_def using assms(1)
proof (induction n)
  case (Suc n)
  let ?bm = "fold (\<lambda>i bm. if P i then bm[i div 32 := bm ! (i div 32) OR push_bit (i mod 32) 1] else bm)
    [0..<n] (replicate w (0 :: u32))"
  from Suc have len: "length ?bm = w"
    and IH: "\<And>j. j < w * 32 \<Longrightarrow> bit (?bm ! (j div 32)) (j mod 32) \<longleftrightarrow> j < n \<and> P j" by auto
  have n: "n div 32 < w" using Suc.prems by (simp add: less_mult_imp_div_less)
  have same: "j = n \<longleftrightarrow> n mod 32 = j mod 32" if "j div 32 = n div 32" for j
    using that div_mult_mod_eq [of j 32] div_mult_mod_eq [of n 32] by metis
  have "bit (?bm[n div 32 := ?bm ! (n div 32) OR push_bit (n mod 32) 1] ! (j div 32)) (j mod 32)
      \<longleftrightarrow> (j < n \<and> P j) \<or> j = n" if "j < w * 32" for j
  proof (cases "j div 32 = n div 32")
    case True
    then show ?thesis using IH [OF that] len n same [OF True]
      by (auto simp: bit_or_single)
  next
    case False
    then show ?thesis using IH [OF that] len n by auto
  qed
  then show ?case using IH len by (auto simp: less_Suc_eq)
qed (auto simp: less_mult_imp_div_less)

lemma pack4_zero: "pack4 (\<lambda>_. 1) = 0x55"
  by (simp add: pack4_def numeral_eq_Suc)

lemma tq2_zero_block_iff:
  assumes "length block = 66"
  shows "(\<exists>s. unpack_tq2_0_block block 256 = Inr (replicate 256 ZERO, s))
    \<longleftrightarrow> list_all (\<lambda>b. b = 0x55) (take 64 block)"
proof
  let ?qs = "take 64 block"
  let ?f = "\<lambda>(c, l, m). decode_trit (int (unat (code2 (?qs ! (c * 32 + m)) l)) - 1)"
  let ?is = "[(c, l, m). c \<leftarrow> [0..<2 :: nat], l \<leftarrow> [0..<4 :: nat], m \<leftarrow> [0..<32 :: nat]]"
  have len: "length ?qs = 64" using assms by simp
  have run: "unpack_tq2_0_block block 256 = rbind (mapR ?f ?is) (\<lambda>ts. Inr (ts, read_scale block))"
    using assms by (simp add: unpack_tq2_0_block_def Let_def del: upt_Suc)
  { assume "\<exists>s. unpack_tq2_0_block block 256 = Inr (replicate 256 ZERO, s)"
    then have "mapR ?f ?is = Inr (replicate 256 ZERO)" unfolding run by (auto simp: rbind_eq_Inr)
    then have "[pack4 (\<lambda>n. trit_code (replicate 256 ZERO ! (c * 128 + n * 32 + m))).
        c \<leftarrow> [0..<2], m \<leftarrow> [0..<32]] = ?qs"
      using len by (rule tq2_mapR_repack)
    moreover have "pack4 (\<lambda>n. trit_code (replicate 256 ZERO ! (c * 128 + n * 32 + m))) = 0x55"
      if "c < 2" "m < 32" for c m
      unfolding pack4_zero [symmetric] pack4_def using that by (intro fold_cong) auto
    ultimately show "list_all (\<lambda>b. b = 0x55) ?qs"
      unfolding list_all_iff by (auto simp del: upt_Suc dest!: sym [of _ "take 64 block"]) }
  { assume z: "list_all (\<lambda>b. b = 0x55) ?qs"
    have "mapR ?f ?is = Inr (map (\<lambda>_. ZERO) ?is)"
    proof (rule mapR_map)
      fix x assume "x \<in> set ?is"
      then obtain c l m where x: "x = (c, l, m)" "c < 2" "l < 4" "m < 32" unfolding set_triples by blast
      then have "?qs ! (c * 32 + m) = 0x55" using z len by (auto simp: list_all_length)
      then show "?f x = Inr ZERO" using x by (simp add: code2_0x55 decode_trit_def from_i8_def)
    qed
    moreover have "map (\<lambda>_. ZERO) ?is = replicate 256 ZERO"
      unfolding grid3 by (simp add: map_replicate_const del: upt_Suc)
    ultimately show "\<exists>s. unpack_tq2_0_block block 256 = Inr (replicate 256 ZERO, s)"
      unfolding run by simp }
qed

lemma compute_zero_bitmap_ok:
  assumes "compute_zero_bitmap packed_row k = Inr bitmap" and "num_blocks k * 66 \<le> length packed_row"
  shows "length bitmap = div_ceil (num_blocks k) 32 \<and> (\<forall>i < div_ceil (num_blocks k) 32 * 32.
    bit (bitmap ! (i div 32)) (i mod 32) \<longleftrightarrow> i < num_blocks k
      \<and> (\<exists>s. unpack_tq2_0_block (window (i * 66) 66 packed_row) 256 = Inr (replicate 256 ZERO, s)))"
proof -
  let ?nb = "num_blocks k"
  let ?P = "\<lambda>i. list_all (\<lambda>b. b = 0x55) (window (i * 66) 64 packed_row)"
  have "bitmap = fold (\<lambda>i bm. if ?P i then bm[i div 32 := bm ! (i div 32) OR push_bit (i mod 32) 1] else bm)
      [0..<?nb] (replicate (div_ceil ?nb 32) 0)"
    using assms(1) by (simp add: compute_zero_bitmap_def num_blocks_def Let_def split: if_splits)
  moreover have "?nb \<le> div_ceil ?nb 32 * 32" by (rule div_ceil_mult_ge) simp
  ultimately have bits: "length bitmap = div_ceil ?nb 32 \<and> (\<forall>i < div_ceil ?nb 32 * 32.
      bit (bitmap ! (i div 32)) (i mod 32) \<longleftrightarrow> i < ?nb \<and> ?P i)"
    using mark_bits [of ?nb "div_ceil ?nb 32" ?P] by simp
  have "?P i \<longleftrightarrow> (\<exists>s. unpack_tq2_0_block (window (i * 66) 66 packed_row) 256 = Inr (replicate 256 ZERO, s))"
    if "i < ?nb" for i
  proof -
    have "Suc i * 66 \<le> ?nb * 66" using that by (intro mult_le_mono1) simp
    then have "length (window (i * 66) 66 packed_row) = 66" using assms(2) by simp
    moreover have "take 64 (window (i * 66) 66 packed_row) = window (i * 66) 64 packed_row"
      by (simp add: window_def min_def)
    ultimately show ?thesis using tq2_zero_block_iff by simp
  qed
  with bits show ?thesis by auto
qed

lemma saturating_fits:
  assumes "saturating_mul a b \<le> n" "n < usize_MAX"
  shows "a * b \<le> n"
  using assms by (auto simp: saturating_mul_def min_def split: if_splits)

text \<open>C33: The zero bitmap of a TQ2_0 row has one bit per block, set exactly when the block unpacks to 256
  zero trits, and no bit set past the last block.\<close>
theorem zero_bitmap_marks_zero_blocks:
  assumes "compute_zero_bitmap packed_row k = Inr bitmap" and "length packed_row < usize_MAX"
  shows "length bitmap = div_ceil (num_blocks k) 32 \<and> (\<forall>i < div_ceil (num_blocks k) 32 * 32.
    bit (bitmap ! (i div 32)) (i mod 32) \<longleftrightarrow> i < num_blocks k
      \<and> (\<exists>s. unpack_tq2_0_block (window (i * 66) 66 packed_row) 256 = Inr (replicate 256 ZERO, s)))"
proof (rule compute_zero_bitmap_ok [OF assms(1)])
  have "saturating_mul (num_blocks k) 66 \<le> length packed_row"
    using assms(1) by (simp add: compute_zero_bitmap_def num_blocks_def Let_def split: if_splits)
  then show "num_blocks k * 66 \<le> length packed_row" using assms(2) by (rule saturating_fits)
qed

theorem zero_bitmap_marks_zero_blocks_witness:
  "compute_zero_bitmap (replicate 66 0x55) 256 = Inr [1]
   \<and> (\<exists>s. unpack_tq2_0_block (window 0 66 (replicate 66 0x55)) 256 = Inr (replicate 256 ZERO, s))"
proof -
  have run: "compute_zero_bitmap (replicate 66 0x55) 256 = Inr [1]"
    by (simp add: compute_zero_bitmap_def div_ceil_def saturating_mul_def usize_MAX_num window_def
        list_all_length)
  have "length (replicate 66 (0x55 :: u8)) < usize_MAX" by (simp add: usize_MAX_num)
  from zero_bitmap_marks_zero_blocks [OF run this] run show ?thesis
    by (auto simp: num_blocks_def div_ceil_def dest!: spec [of _ 0])
qed

text \<open>When a row stride holds a packed row and the buffer holds all rows, the bitmaps of a whole
  matrix are computed without error, and the words of row \<open>ni\<close> of the result are the bitmap of row \<open>ni\<close>.\<close>
lemma zero_bitmaps_per_row:
  assumes "0 < k" "num_blocks k * TQ2_0_BLOCK_BYTES \<le> row_bytes" "n * row_bytes \<le> length packed"
  defines "words_per_row \<equiv> div_ceil (num_blocks k) 32"
  shows "\<exists>bm. compute_zero_bitmaps packed n k row_bytes = Inr bm \<and> length bm = n * words_per_row
    \<and> (\<forall>ni < n. compute_zero_bitmap (window (ni * row_bytes) row_bytes packed) k
        = Inr (window (ni * words_per_row) words_per_row bm))"
proof -
  let ?row = "\<lambda>ni. window (ni * row_bytes) row_bytes packed"
  let ?bm = "\<lambda>ni. projr (compute_zero_bitmap (?row ni) k)"
  have nb: "num_blocks k \<noteq> 0" using assms(1) div_ceil_mult_ge [of 256 k] by (auto simp: num_blocks_def)
  have sat: "saturating_mul a b \<le> c" if "a * b \<le> c" for a b c
    using that by (simp add: saturating_mul_def)
  have row: "compute_zero_bitmap (?row ni) k = Inr (?bm ni)" "length (?bm ni) = words_per_row"
    if "ni < n" for ni
  proof -
    have "Suc ni * row_bytes \<le> n * row_bytes" using that by (intro mult_le_mono1) simp
    then have len: "length (?row ni) = row_bytes" using assms(3) by simp
    then have ok: "is_ok (compute_zero_bitmap (?row ni) k)"
      using sat [OF assms(2)] by (simp add: compute_zero_bitmap_def num_blocks_def Let_def)
    then show run: "compute_zero_bitmap (?row ni) k = Inr (?bm ni)" by (auto simp: is_ok_iff)
    show "length (?bm ni) = words_per_row"
      using compute_zero_bitmap_ok [OF run] assms(2) len unfolding words_per_row_def by simp
  qed
  have width: "x \<in> set (map ?bm [0..<n]) \<Longrightarrow> length x = words_per_row" for x using row by auto
  have "mapR (\<lambda>ni. compute_zero_bitmap (?row ni) k) [0..<n] = Inr (map ?bm [0..<n])"
    using row(1) by (intro mapR_map) simp
  then have "compute_zero_bitmaps packed n k row_bytes = Inr (concat (map ?bm [0..<n]))"
    using nb sat [OF assms(2)] sat [OF assms(3)]
    by (simp add: compute_zero_bitmaps_def num_blocks_def Let_def)
  moreover have "length (concat (map ?bm [0..<n])) = n * words_per_row"
    using length_concat_const [of "map ?bm [0..<n]"] width by auto
  moreover have "window (ni * words_per_row) words_per_row (concat (map ?bm [0..<n])) = ?bm ni" if "ni < n" for ni
    using window_concat_const [of "map ?bm [0..<n]" words_per_row ni] width that by auto
  ultimately show ?thesis using row(1) by auto
qed

end
