(* ===== verification/I2s.thy ===== *)
theory I2s
  imports Rows
begin

unbundle bit_operations_syntax

text \<open>
  The BitNet I2_S decoder (\<open>i2s.rs\<close>) and the two load-time conversions of \<open>i2s_int8.rs\<close>: to TQ2_0 rows for
  the add-only kernel and to the tile-interleaved layout of the tensor-core kernel.  Both conversions are
  proved to hold the decoded trits: the first through the TQ2_0 row unpacker, the second by reading the
  two-bit code at its tile position.
\<close>

section \<open>I2_S\<close>

definition I2S_BLOCK_ELEMS :: nat where "I2S_BLOCK_ELEMS = 128"
definition I2S_BLOCK_BYTES :: nat where "I2S_BLOCK_BYTES = I2S_BLOCK_ELEMS div 4"
definition I2S_SCALE_BYTES :: nat where "I2S_SCALE_BYTES = 4"

lemma i2s_consts [simp]: "I2S_BLOCK_ELEMS = 128" "I2S_BLOCK_BYTES = 32" "I2S_SCALE_BYTES = 4"
  by (simp_all add: I2S_BLOCK_ELEMS_def I2S_BLOCK_BYTES_def I2S_SCALE_BYTES_def)

definition code_to_trit :: "u8 \<Rightarrow> FormatError + trit" where
  "code_to_trit code = (if code = 0 then Inr NEG else if code = 1 then Inr ZERO
     else if code = 2 then Inr POS else Inl (InvalidI2sCode code))"

text \<open>The loop reads the bytes in order and scatters the four codes of a byte 32 elements apart.\<close>
definition unpack_i2s_block :: "bytes \<Rightarrow> usize \<Rightarrow> FormatError + trit list" where
  "unpack_i2s_block block trits_len =
    (if length block \<noteq> I2S_BLOCK_BYTES then Inl (WrongBlockLen I2S_BLOCK_BYTES (length block))
     else if trits_len \<noteq> I2S_BLOCK_ELEMS then Inl (WrongTritCount I2S_BLOCK_ELEMS trits_len)
     else rbind (mapR (\<lambda>(gp, grp). code_to_trit (drop_bit (6 - 2 * grp) (block ! gp) AND 3))
           [(gp, grp). gp \<leftarrow> [0..<32], grp \<leftarrow> [0..<4]])
         (\<lambda>r. Inr [r ! (gp * 4 + grp). grp \<leftarrow> [0..<4], gp \<leftarrow> [0..<32]]))"

definition unpack_i2s_tensor :: "bytes \<Rightarrow> usize \<Rightarrow> usize \<Rightarrow> FormatError + trit list \<times> f32" where
  "unpack_i2s_tensor payload n_elements trits_len =
    (if trits_len \<noteq> n_elements \<or> n_elements mod I2S_BLOCK_ELEMS \<noteq> 0
     then Inl (WrongTritCount n_elements trits_len)
     else let n_quant_bytes = n_elements div 4; need = n_quant_bytes + I2S_SCALE_BYTES in
       if length payload < need then Inl (WrongBlockLen need (length payload))
       else let quants = take n_quant_bytes payload in
         rbind (mapR (\<lambda>i. unpack_i2s_block (window (i * I2S_BLOCK_BYTES) I2S_BLOCK_BYTES quants) I2S_BLOCK_ELEMS)
             [0..<n_elements div I2S_BLOCK_ELEMS])
           (\<lambda>blocks. Inr (concat blocks, un_le32 (window n_quant_bytes 4 payload))))"

lemma unpack_i2s_block_length: "unpack_i2s_block block n = Inr ts \<Longrightarrow> length ts = 128"
  by (auto simp: unpack_i2s_block_def rbind_eq_Inr grid2 split: if_splits simp del: upt_Suc)

lemma unpack_i2s_tensor_length:
  assumes "unpack_i2s_tensor payload n n = Inr (ts, scale)"
  shows "length ts = n"
proof -
  let ?f = "\<lambda>i. unpack_i2s_block (window (i * 32) 32 (take (n div 4) payload)) 128"
  obtain blocks where run: "mapR ?f [0..<n div 128] = Inr blocks" and ts: "ts = concat blocks"
    and n: "n mod 128 = 0"
    using assms by (auto simp: unpack_i2s_tensor_def rbind_eq_Inr Let_def split: if_splits)
  have "length x = 128" if "x \<in> set blocks" for x
    using run that unpack_i2s_block_length
    by (fastforce simp: mapR_eq_Inr list_all2_conv_all_nth in_set_conv_nth)
  then have "length ts = length blocks * 128" unfolding ts by (rule length_concat_const)
  then show ?thesis using mapR_length [OF run] n by auto
qed

section \<open>Conversion to TQ2_0\<close>

definition f16_ONE :: f16 where "f16_ONE = 0x3C00"

definition convert_i2s_to_tq2_0 :: "bytes \<Rightarrow> GemmShape \<Rightarrow> FormatError + bytes \<times> f32" where
  "convert_i2s_to_tq2_0 payload shape =
    (let n = gemm_n shape; k = gemm_k shape; n_elements = n * k in
     rbind (unpack_i2s_tensor payload n_elements n_elements) (\<lambda>(trits, scale).
     let nb = num_blocks k; row_bytes = nb * TQ2_0_BLOCK_BYTES; unit = replicate nb f16_ONE in
     rbind (mapR (\<lambda>ni. pack_tq2_0_row (window (ni * k) k trits) unit row_bytes) [0..<n])
       (\<lambda>rows. Inr (concat rows, scale))))"

lemma tq2_row_ok:
  assumes "length trits = k" "length scales = num_blocks k"
  shows "\<exists>bs. pack_tq2_0_row trits scales (num_blocks k * 66) = Inr bs \<and> length bs = num_blocks k * 66
    \<and> unpack_tq2_0_row bs k (num_blocks k) = Inr (trits, scales)"
  using tq2.row_roundtrip [of scales trits] assms
  by (auto simp: pack_tq2_0_row_def unpack_tq2_0_row_def check_row_def num_blocks_def)

text \<open>A block of zero codes, for concrete runs.\<close>
lemma unpack_i2s_block_zero: "unpack_i2s_block (replicate 32 0x55) 128 = Inr (replicate 128 ZERO)"
proof -
  have code: "drop_bit (6 - 2 * g) (0x55 :: u8) AND 3 = 1" if "g < 4" for g
  proof -
    have "6 - 2 * g = 2 * (3 - g)" by simp
    then show ?thesis using code2_0x55 [of "3 - g"] unfolding code2_def by simp
  qed
  have "mapR (\<lambda>(gp, grp). code_to_trit (drop_bit (6 - 2 * grp) (replicate 32 0x55 ! gp) AND 3))
      [(gp, grp). gp \<leftarrow> [0..<32], grp \<leftarrow> [0..<4]]
    = Inr (map (\<lambda>_. ZERO) [(gp, grp). gp \<leftarrow> [0..<32 :: nat], grp \<leftarrow> [0..<4 :: nat]])"
  proof (rule mapR_map)
    fix x assume "x \<in> set [(gp, grp). gp \<leftarrow> [0..<32 :: nat], grp \<leftarrow> [0..<4 :: nat]]"
    then obtain gp grp where "x = (gp, grp)" "gp < 32" "grp < 4" unfolding set_pairs by blast
    with code [of grp] show "(\<lambda>(gp, grp). code_to_trit
        (drop_bit (6 - 2 * grp) (replicate 32 0x55 ! gp) AND 3)) x = Inr ZERO"
      by (simp add: code_to_trit_def)
  qed
  also have "map (\<lambda>_. ZERO) [(gp, grp). gp \<leftarrow> [0..<32 :: nat], grp \<leftarrow> [0..<4 :: nat]] = replicate 128 ZERO"
    unfolding grid2 by (simp add: map_replicate_const del: upt_Suc)
  finally have run: "mapR (\<lambda>(gp, grp). code_to_trit (drop_bit (6 - 2 * grp) (replicate 32 0x55 ! gp) AND 3))
      [(gp, grp). gp \<leftarrow> [0..<32], grp \<leftarrow> [0..<4]] = Inr (replicate 128 ZERO)" .
  have "[replicate 128 ZERO ! (gp * 4 + grp). grp \<leftarrow> [0..<4], gp \<leftarrow> [0..<32]] = replicate 128 ZERO"
    unfolding grid2 by (rule nth_equalityI) (auto simp del: upt_Suc)
  with run show ?thesis unfolding unpack_i2s_block_def by (simp del: upt_Suc)
qed

lemma unpack_i2s_tensor_zero:
  "unpack_i2s_tensor (replicate 32 0x55 @ le32 0x3F800000) 128 128 = Inr (replicate 128 ZERO, 0x3F800000)"
  by (simp add: unpack_i2s_tensor_def window_def unpack_i2s_block_zero)

text \<open>C34: The TQ2_0 bytes made from an I2_S tensor decode, row by row, to the trits of the I2_S tensor,
  with unit block scales; the conversion fails only where the I2_S decoder fails, and returns its scale.\<close>
theorem convert_i2s_to_tq2_0_correct:
  assumes "unpack_i2s_tensor payload (n * k) (n * k) = Inr (trits, scale)"
  defines "row_bytes \<equiv> num_blocks k * TQ2_0_BLOCK_BYTES"
  shows "\<exists>packed. convert_i2s_to_tq2_0 payload \<lparr>gemm_m = m, gemm_n = n, gemm_k = k\<rparr> = Inr (packed, scale)
    \<and> length packed = n * row_bytes
    \<and> (\<forall>ni < n. unpack_tq2_0_row (window (ni * row_bytes) row_bytes packed) k (num_blocks k)
        = Inr (window (ni * k) k trits, replicate (num_blocks k) f16_ONE))"
proof -
  have trits: "length trits = n * k" using assms(1) by (rule unpack_i2s_tensor_length)
  let ?unit = "replicate (num_blocks k) f16_ONE"
  let ?pack = "\<lambda>ni. projr (pack_tq2_0_row (window (ni * k) k trits) ?unit row_bytes)"
  have row: "pack_tq2_0_row (window (ni * k) k trits) ?unit row_bytes = Inr (?pack ni)"
    "length (?pack ni) = row_bytes"
    "unpack_tq2_0_row (?pack ni) k (num_blocks k) = Inr (window (ni * k) k trits, ?unit)"
    if "ni < n" for ni
  proof -
    have "Suc ni * k \<le> n * k" using that by (intro mult_le_mono1) simp
    then have "length (window (ni * k) k trits) = k" using trits by simp
    from tq2_row_ok [OF this, of ?unit] obtain bs where
      "pack_tq2_0_row (window (ni * k) k trits) ?unit row_bytes = Inr bs" "length bs = row_bytes"
      "unpack_tq2_0_row bs k (num_blocks k) = Inr (window (ni * k) k trits, ?unit)"
      by (auto simp: row_bytes_def)
    then show "pack_tq2_0_row (window (ni * k) k trits) ?unit row_bytes = Inr (?pack ni)"
      "length (?pack ni) = row_bytes"
      "unpack_tq2_0_row (?pack ni) k (num_blocks k) = Inr (window (ni * k) k trits, ?unit)" by simp_all
  qed
  have width: "x \<in> set (map ?pack [0..<n]) \<Longrightarrow> length x = row_bytes" for x using row(2) by auto
  have "mapR (\<lambda>ni. pack_tq2_0_row (window (ni * k) k trits) ?unit row_bytes) [0..<n] = Inr (map ?pack [0..<n])"
    using row(1) by (intro mapR_map) simp
  then have "convert_i2s_to_tq2_0 payload \<lparr>gemm_m = m, gemm_n = n, gemm_k = k\<rparr>
      = Inr (concat (map ?pack [0..<n]), scale)"
    using assms(1) by (simp add: convert_i2s_to_tq2_0_def Let_def row_bytes_def)
  moreover have "length (concat (map ?pack [0..<n])) = n * row_bytes"
    using length_concat_const [of "map ?pack [0..<n]"] width by auto
  moreover have "window (ni * row_bytes) row_bytes (concat (map ?pack [0..<n])) = ?pack ni" if "ni < n" for ni
    using window_concat_const [of "map ?pack [0..<n]" row_bytes ni] width that by auto
  ultimately show ?thesis using row(3) by auto
qed

theorem convert_i2s_to_tq2_0_correct_witness:
  "\<exists>packed. convert_i2s_to_tq2_0 (replicate 32 0x55 @ le32 0x3F800000)
      \<lparr>gemm_m = 1, gemm_n = 1, gemm_k = 128\<rparr> = Inr (packed, 0x3F800000)
    \<and> length packed = 66 \<and> unpack_tq2_0_row packed 128 1 = Inr (replicate 128 ZERO, [f16_ONE])"
proof -
  have "unpack_i2s_tensor (replicate 32 0x55 @ le32 0x3F800000) (1 * 128) (1 * 128)
      = Inr (replicate 128 ZERO, 0x3F800000)"
    using unpack_i2s_tensor_zero by simp
  from convert_i2s_to_tq2_0_correct [OF this, of 1] show ?thesis
    by (auto simp: num_blocks_def div_ceil_def window_def)
qed

section \<open>Conversion to the tensor-core tile layout\<close>

definition IMMA_N :: nat where "IMMA_N = 8"
definition IMMA_K :: nat where "IMMA_K = 32"
definition IMMA_WTILE_BYTES :: nat where "IMMA_WTILE_BYTES = IMMA_N * IMMA_K div 4"

lemma imma_consts [simp]: "IMMA_N = 8" "IMMA_K = 32" "IMMA_WTILE_BYTES = 64"
  by (simp_all add: IMMA_N_def IMMA_K_def IMMA_WTILE_BYTES_def)

record I2sInt8Weights =
  i8_bytes :: bytes
  i8_scale :: f32
  i8_n :: usize
  i8_k :: usize

definition num_ktiles :: "I2sInt8Weights \<Rightarrow> usize" where
  "num_ktiles w = div_ceil (i8_k w) IMMA_K"

definition num_ntiles :: "I2sInt8Weights \<Rightarrow> usize" where
  "num_ntiles w = div_ceil (i8_n w) IMMA_N"

definition set_code :: "u8 \<Rightarrow> nat \<Rightarrow> u8 \<Rightarrow> u8" where
  "set_code b slot code = (b AND NOT (push_bit (2 * slot) 3)) OR push_bit (2 * slot) code"

text \<open>The iterations of the four nested loops, and the body of the innermost one (a padded channel or
  feature is skipped).\<close>
definition imma_cells :: "nat \<Rightarrow> nat \<Rightarrow> (nat \<times> nat \<times> nat \<times> nat) list" where
  "imma_cells num_nt num_kt = [(nt, kt, n_in, k_in). nt \<leftarrow> [0..<num_nt], kt \<leftarrow> [0..<num_kt],
     n_in \<leftarrow> [0..<IMMA_N], k_in \<leftarrow> [0..<IMMA_K]]"

fun imma_write :: "nat \<Rightarrow> nat \<Rightarrow> nat \<Rightarrow> trit list \<Rightarrow> nat \<times> nat \<times> nat \<times> nat \<Rightarrow> bytes \<Rightarrow> bytes" where
  "imma_write n k num_kt trits (nt, kt, n_in, k_in) bytes =
    (let tile_byte0 = (nt * num_kt + kt) * IMMA_WTILE_BYTES;
         gn = nt * IMMA_N + n_in; gk = kt * IMMA_K + k_in in
     if gn \<ge> n then bytes
     else if gk \<ge> k then bytes
     else let elem = n_in * IMMA_K + k_in; byte = tile_byte0 + elem div 4; slot = elem mod 4
       in bytes[byte := set_code (bytes ! byte) slot (trit_code (trits ! (gn * k + gk)))])"

definition convert_i2s_to_int8 :: "bytes \<Rightarrow> GemmShape \<Rightarrow> FormatError + I2sInt8Weights" where
  "convert_i2s_to_int8 payload shape =
    (let n = gemm_n shape; k = gemm_k shape; n_elements = n * k in
     rbind (unpack_i2s_tensor payload n_elements n_elements) (\<lambda>(trits, scale).
     let num_nt = div_ceil n IMMA_N; num_kt = div_ceil k IMMA_K;
         bytes = fold (imma_write n k num_kt trits) (imma_cells num_nt num_kt)
           (replicate (num_nt * num_kt * IMMA_WTILE_BYTES) 0x55)
     in Inr \<lparr>i8_bytes = bytes, i8_scale = scale, i8_n = n, i8_k = k\<rparr>))"

text \<open>The two-bit code at position \<open>p\<close> of a packed buffer, the first in the low pair of its byte.\<close>
definition read_code :: "bytes \<Rightarrow> nat \<Rightarrow> u8" where
  "read_code bs p = code2 (bs ! (p div 4)) (p mod 4)"

definition write_code :: "bytes \<Rightarrow> nat \<Rightarrow> u8 \<Rightarrow> bytes" where
  "write_code bs p c = bs[p div 4 := set_code (bs ! (p div 4)) (p mod 4) c]"

lemma bit_set_code:
  assumes "i < 8" "unat c < 4"
  shows "bit (set_code b s c) i \<longleftrightarrow> (if 2 * s \<le> i \<and> i < 2 * s + 2 then bit c (i - 2 * s) else bit b i)"
proof -
  have "bit c (i - 2 * s) \<Longrightarrow> i < 2 * s + 2" using bit_less4 [OF assms(2), of "i - 2 * s"] by linarith
  then show ?thesis
    using assms(1) unfolding set_code_def bit_or_iff bit_and_iff bit_not_iff bit_push_bit_iff bit_mask3
    by auto
qed

lemma code2_set_code:
  assumes "s < 4" "s' < 4" "unat c < 4"
  shows "code2 (set_code b s c) s' = (if s' = s then c else code2 b s')"
proof (rule bit_word_eqI)
  fix n
  have "bit (set_code b s c) (2 * s' + n) \<longleftrightarrow> (if s' = s then bit c n else bit b (2 * s' + n))" if "n < 2"
  proof -
    have "2 * s' + n < 8" using assms(2) that by linarith
    moreover have "2 * s \<le> 2 * s' + n \<and> 2 * s' + n < 2 * s + 2 \<longleftrightarrow> s' = s" using that by auto
    ultimately show ?thesis using assms(3) by (auto simp: bit_set_code)
  qed
  then show "bit (code2 (set_code b s c) s') n \<longleftrightarrow> bit (if s' = s then c else code2 b s') n"
    using bit_less4 [OF assms(3)] by (auto simp: bit_code2)
qed

lemma read_write_code:
  assumes "p div 4 < length bs" "unat c < 4"
  shows "read_code (write_code bs p c) q = (if q = p then c else read_code bs q)"
proof -
  have "q = p \<longleftrightarrow> q div 4 = p div 4 \<and> q mod 4 = p mod 4" by (metis div_mult_mod_eq)
  then show ?thesis using assms by (auto simp: read_code_def write_code_def code2_set_code nth_list_update)
qed

lemma length_write_code [simp]: "length (write_code bs p c) = length bs"
  by (simp add: write_code_def)

text \<open>A run of guarded writes at distinct positions: each position holds its own value, the rest is kept.\<close>
lemma fold_writes:
  fixes ok :: "'x \<Rightarrow> bool"
  assumes "inj_on pos (set xs)" "\<And>x. x \<in> set xs \<Longrightarrow> ok x \<Longrightarrow> pos x div 4 < length bs"
    and "\<And>x. x \<in> set xs \<Longrightarrow> unat (v x) < 4"
  defines "r \<equiv> fold (\<lambda>x bs. if ok x then write_code bs (pos x) (v x) else bs) xs bs"
  shows "length r = length bs"
    and "\<And>p. (\<forall>x\<in>set xs. ok x \<longrightarrow> pos x \<noteq> p) \<Longrightarrow> read_code r p = read_code bs p"
    and "\<And>x. x \<in> set xs \<Longrightarrow> ok x \<Longrightarrow> read_code r (pos x) = v x"
proof -
  have "length r = length bs
    \<and> (\<forall>p. (\<forall>x\<in>set xs. ok x \<longrightarrow> pos x \<noteq> p) \<longrightarrow> read_code r p = read_code bs p)
    \<and> (\<forall>x\<in>set xs. ok x \<longrightarrow> read_code r (pos x) = v x)"
    unfolding r_def using assms(1-3)
  proof (induction xs arbitrary: bs)
    case (Cons x xs)
    let ?b = "if ok x then write_code bs (pos x) (v x) else bs"
    let ?r = "fold (\<lambda>x bs. if ok x then write_code bs (pos x) (v x) else bs) xs ?b"
    have inj: "inj_on pos (set xs)" using Cons.prems(1) by (rule inj_on_subset) auto
    have IH: "length ?r = length ?b"
      "\<And>p. (\<forall>x\<in>set xs. ok x \<longrightarrow> pos x \<noteq> p) \<Longrightarrow> read_code ?r p = read_code ?b p"
      "\<And>y. y \<in> set xs \<Longrightarrow> ok y \<Longrightarrow> read_code ?r (pos y) = v y"
      using Cons.IH [OF inj, of ?b] Cons.prems by auto
    have b: "read_code ?b p = (if ok x \<and> p = pos x then v x else read_code bs p)" for p
      using Cons.prems(2,3) by (simp add: read_write_code)
    have "read_code ?r (pos x) = v x" if "ok x"
    proof (cases "x \<in> set xs")
      case False
      then have "\<forall>y\<in>set xs. ok y \<longrightarrow> pos y \<noteq> pos x"
        using Cons.prems(1) by (auto simp: inj_on_def)
      from IH(2) [OF this] b [of "pos x"] that show ?thesis by simp
    qed (use IH(3) that in blast)
    then show ?case using IH b by auto
  qed auto
  then show "length r = length bs"
    and "\<And>p. (\<forall>x\<in>set xs. ok x \<longrightarrow> pos x \<noteq> p) \<Longrightarrow> read_code r p = read_code bs p"
    and "\<And>x. x \<in> set xs \<Longrightarrow> ok x \<Longrightarrow> read_code r (pos x) = v x" by auto
qed

lemma set_quads: "x \<in> set [(i, j, l, m). i \<leftarrow> [0..<a], j \<leftarrow> [0..<b], l \<leftarrow> [0..<c], m \<leftarrow> [0..<d]] \<longleftrightarrow>
    (\<exists>i j l m. x = (i, j, l, m) \<and> i < a \<and> j < b \<and> l < c \<and> m < d)"
  by (cases x) (auto simp: image_iff)

lemma imma_cells_iff:
  "(nt, kt, n_in, k_in) \<in> set (imma_cells num_nt num_kt)
     \<longleftrightarrow> nt < num_nt \<and> kt < num_kt \<and> n_in < 8 \<and> k_in < 32"
  unfolding imma_cells_def set_quads by simp

definition cell_pos :: "nat \<Rightarrow> nat \<times> nat \<times> nat \<times> nat \<Rightarrow> nat" where
  "cell_pos num_kt = (\<lambda>(nt, kt, n_in, k_in). (nt * num_kt + kt) * 256 + (n_in * 32 + k_in))"

definition cell_inside :: "nat \<Rightarrow> nat \<Rightarrow> nat \<times> nat \<times> nat \<times> nat \<Rightarrow> bool" where
  "cell_inside n k = (\<lambda>(nt, kt, n_in, k_in). nt * 8 + n_in < n \<and> kt * 32 + k_in < k)"

definition cell_code :: "nat \<Rightarrow> trit list \<Rightarrow> nat \<times> nat \<times> nat \<times> nat \<Rightarrow> u8" where
  "cell_code k trits = (\<lambda>(nt, kt, n_in, k_in). trit_code (trits ! ((nt * 8 + n_in) * k + (kt * 32 + k_in))))"

lemma tile_div: "(x * 256 + e) div 4 = x * 64 + e div (4 :: nat)" "(x * 256 + e) mod 4 = e mod (4 :: nat)"
proof -
  have "x * 256 + e = e + (x * 64) * 4" by simp
  then show "(x * 256 + e) div 4 = x * 64 + e div 4" "(x * 256 + e) mod 4 = e mod 4"
    by (simp_all only: div_mult_self1 mod_mult_self1)
qed

lemma imma_write_eq: "imma_write n k num_kt trits = (\<lambda>x bs.
    if cell_inside n k x then write_code bs (cell_pos num_kt x) (cell_code k trits x) else bs)"
proof (intro ext)
  fix x :: "nat \<times> nat \<times> nat \<times> nat" and bs
  obtain nt kt n_in k_in where x: "x = (nt, kt, n_in, k_in)" by (cases x) auto
  show "imma_write n k num_kt trits x bs =
      (if cell_inside n k x then write_code bs (cell_pos num_kt x) (cell_code k trits x) else bs)"
    unfolding x imma_write.simps cell_inside_def cell_pos_def cell_code_def write_code_def prod.case
      tile_div imma_consts Let_def by (simp add: not_less)
qed

lemma mixed_radix_inj:
  fixes a b a' b' m :: nat
  assumes "a * m + b = a' * m + b'" "b < m" "b' < m"
  shows "a = a' \<and> b = b'"
proof -
  have "(a * m + b) div m = a" "(a' * m + b') div m = a'" using assms(2,3) by simp_all
  with assms(1) show ?thesis by auto
qed

lemma cell_pos_inj: "inj_on (cell_pos num_kt) (set (imma_cells num_nt num_kt))"
proof (rule inj_onI)
  fix x y assume x: "x \<in> set (imma_cells num_nt num_kt)" and y: "y \<in> set (imma_cells num_nt num_kt)"
    and eq: "cell_pos num_kt x = cell_pos num_kt y"
  obtain nt kt n_in k_in nt' kt' n_in' k_in' where xy: "x = (nt, kt, n_in, k_in)" "y = (nt', kt', n_in', k_in')"
    by (cases x; cases y) auto
  have b: "kt < num_kt" "kt' < num_kt" "n_in < 8" "n_in' < 8" "k_in < 32" "k_in' < 32"
    using x y unfolding xy imma_cells_iff by simp_all
  have "nt * num_kt + kt = nt' * num_kt + kt' \<and> n_in * 32 + k_in = n_in' * 32 + k_in'"
    using eq b by (intro mixed_radix_inj [where m = 256]) (simp_all add: xy cell_pos_def)
  with b show "x = y" unfolding xy
    using mixed_radix_inj [of nt num_kt kt nt' kt'] mixed_radix_inj [of n_in 32 k_in n_in' k_in'] by blast
qed

lemma cell_pos_bound:
  assumes "x \<in> set (imma_cells num_nt num_kt)"
  shows "cell_pos num_kt x div 4 < num_nt * num_kt * 64"
proof -
  obtain nt kt n_in k_in where x: "x = (nt, kt, n_in, k_in)" by (cases x) auto
  have "nt < num_nt" "kt < num_kt" "n_in * 32 + k_in < 256"
    using assms unfolding x imma_cells_iff by simp_all
  then have "cell_pos num_kt x < num_nt * num_kt * 256"
    unfolding x cell_pos_def prod.case by (intro grid_bound)
  then show ?thesis by simp
qed

text \<open>The position of weight \<open>(gn, gk)\<close> in the tile layout, padding included.\<close>
definition imma_pos :: "nat \<Rightarrow> nat \<Rightarrow> nat \<Rightarrow> nat" where
  "imma_pos num_kt gn gk = cell_pos num_kt (gn div 8, gk div 32, gn mod 8, gk mod 32)"

text \<open>C35: The tile layout made from an I2_S tensor holds, at the tile position of every weight, the code
  of its decoded trit, and at every padded position the code of the zero trit.\<close>
theorem convert_i2s_to_int8_correct:
  assumes "unpack_i2s_tensor payload (n * k) (n * k) = Inr (trits, scale)"
  shows "\<exists>w. convert_i2s_to_int8 payload \<lparr>gemm_m = m, gemm_n = n, gemm_k = k\<rparr> = Inr w
    \<and> i8_scale w = scale \<and> length (i8_bytes w) = num_ntiles w * num_ktiles w * IMMA_WTILE_BYTES
    \<and> (\<forall>gn gk. gn < num_ntiles w * 8 \<and> gk < num_ktiles w * 32 \<longrightarrow>
        read_code (i8_bytes w) (imma_pos (num_ktiles w) gn gk)
          = (if gn < n \<and> gk < k then trit_code (trits ! (gn * k + gk)) else trit_code ZERO))"
proof -
  let ?nt = "div_ceil n 8" and ?kt = "div_ceil k 32"
  let ?cells = "imma_cells ?nt ?kt" and ?init = "replicate (?nt * ?kt * 64) 0x55 :: bytes"
  let ?b = "fold (\<lambda>x bs. if cell_inside n k x then write_code bs (cell_pos ?kt x) (cell_code k trits x) else bs)
    ?cells ?init"
  let ?w = "\<lparr>i8_bytes = ?b, i8_scale = scale, i8_n = n, i8_k = k\<rparr>"
  have run: "convert_i2s_to_int8 payload \<lparr>gemm_m = m, gemm_n = n, gemm_k = k\<rparr> = Inr ?w"
    using assms by (simp add: convert_i2s_to_int8_def imma_write_eq Let_def)
  have small: "unat (cell_code k trits x) < 4" for x
    by (simp add: cell_code_def trit_code_less4 split: prod.split)
  have bound: "\<And>x. x \<in> set ?cells \<Longrightarrow> cell_inside n k x \<Longrightarrow> cell_pos ?kt x div 4 < length ?init"
    using cell_pos_bound by simp
  note writes = fold_writes [where pos = "cell_pos ?kt" and xs = ?cells and ok = "cell_inside n k"
      and v = "cell_code k trits" and bs = ?init, OF cell_pos_inj bound small]
  have "read_code ?b (imma_pos ?kt gn gk)
      = (if gn < n \<and> gk < k then trit_code (trits ! (gn * k + gk)) else trit_code ZERO)"
    if g: "gn < ?nt * 8" "gk < ?kt * 32" for gn gk
  proof -
    let ?x = "(gn div 8, gk div 32, gn mod 8, gk mod 32)"
    have x: "?x \<in> set ?cells" using g unfolding imma_cells_iff by (simp add: less_mult_imp_div_less)
    have inside: "cell_inside n k ?x \<longleftrightarrow> gn < n \<and> gk < k" by (simp add: cell_inside_def)
    show ?thesis
    proof (cases "cell_inside n k ?x")
      case True
      then show ?thesis using writes(3) [OF _ _ x True] inside by (simp add: imma_pos_def cell_code_def)
    next
      case False
      then have "\<forall>y\<in>set ?cells. cell_inside n k y \<longrightarrow> cell_pos ?kt y \<noteq> cell_pos ?kt ?x"
        using cell_pos_inj x by (metis inj_onD)
      then have "read_code ?b (imma_pos ?kt gn gk) = read_code ?init (cell_pos ?kt ?x)"
        unfolding imma_pos_def using writes(2) by blast
      also have "\<dots> = 1" using cell_pos_bound [OF x] by (simp add: read_code_def code2_0x55)
      finally show ?thesis using False inside by auto
    qed
  qed
  moreover have "length ?b = ?nt * ?kt * 64" using writes(1) by simp
  ultimately show ?thesis using run by (simp add: num_ntiles_def num_ktiles_def)
qed

theorem convert_i2s_to_int8_correct_witness:
  "\<exists>w. convert_i2s_to_int8 (replicate 32 0x55 @ le32 0x3F800000)
      \<lparr>gemm_m = 1, gemm_n = 1, gemm_k = 128\<rparr> = Inr w \<and> length (i8_bytes w) = num_ntiles w * num_ktiles w * 64
    \<and> (\<forall>gn gk. gn < num_ntiles w * 8 \<and> gk < num_ktiles w * 32 \<longrightarrow>
        read_code (i8_bytes w) (imma_pos (num_ktiles w) gn gk)
          = (if gn < 1 \<and> gk < 128 then trit_code (replicate 128 ZERO ! (gn * 128 + gk)) else trit_code ZERO))"
proof -
  have "unpack_i2s_tensor (replicate 32 0x55 @ le32 0x3F800000) (1 * 128) (1 * 128)
      = Inr (replicate 128 ZERO, 0x3F800000)"
    using unpack_i2s_tensor_zero by simp
  from convert_i2s_to_int8_correct [OF this, of 1] show ?thesis unfolding imma_consts by blast
qed

end
