(* ===== verification/Tb1.thy ===== *)
theory Tb1
  imports Blocks
begin

unbundle bit_operations_syntax

text \<open>
  The TB1 bitmap-and-signs row packing of \<open>tb1.rs\<close>: a presence bit per trit, then one sign bit per
  nonzero trit, padded to four bytes.  The packer is a single pass that threads the presence planes, the
  sign stream and the sign count; the unpacker walks the presence bits and pulls signs on demand.
\<close>

section \<open>Bit positions in a byte string\<close>

text \<open>\<open>bs[i / 8] & (1 << (i % 8)) != 0\<close> and \<open>bs[i / 8] |= 1 << (i % 8)\<close>.\<close>
definition bit_at :: "bytes \<Rightarrow> nat \<Rightarrow> bool" where
  "bit_at bs i = (bs ! (i div 8) AND push_bit (i mod 8) 1 \<noteq> 0)"

definition or_bit :: "nat \<Rightarrow> bytes \<Rightarrow> bytes" where
  "or_bit i bs = bs[i div 8 := bs ! (i div 8) OR push_bit (i mod 8) 1]"

lemma length_or_bit [simp]: "length (or_bit i bs) = length bs"
  by (simp add: or_bit_def)

lemma bit_at_bit: "bit_at bs i = bit (bs ! (i div 8)) (i mod 8)"
  by (simp add: bit_at_def bit_iff_and_push_bit_not_eq_0 [symmetric] del: push_bit_of_1)

lemma bit_at_or_bit:
  assumes "i div 8 < length bs"
  shows "bit_at (or_bit i bs) j = (bit_at bs j \<or> i = j)"
proof (cases "i div 8 = j div 8")
  case True
  have "j mod 8 < 8" "i mod 8 < 8" by simp_all
  moreover have "i = j \<longleftrightarrow> i mod 8 = j mod 8" using True div_mult_mod_eq [of i 8] div_mult_mod_eq [of j 8] by metis
  ultimately show ?thesis using True assms
    by (auto simp: bit_at_bit or_bit_def bit_simps)
next
  case False
  then show ?thesis by (auto simp: bit_at_bit or_bit_def)
qed

lemma bit_at_append1: "i div 8 < length bs \<Longrightarrow> bit_at (bs @ cs) i = bit_at bs i"
  by (simp add: bit_at_def nth_append)

lemma bit_at_replicate_0 [simp]: "i div 8 < n \<Longrightarrow> \<not> bit_at (replicate n 0) i"
  by (simp add: bit_at_def)

section \<open>The codec\<close>

definition TB1_PRESENCE_BYTES :: nat where "TB1_PRESENCE_BYTES = QK_K div 8"

definition tb1_row_bytes :: "nat \<Rightarrow> nat \<Rightarrow> nat" where
  "tb1_row_bytes k nnz = div_ceil k QK_K * TB1_PRESENCE_BYTES + div_ceil (div_ceil nnz 8) 4 * 4"

text \<open>The loop state: presence planes, sign stream, number of signs.\<close>
fun tb1_step :: "nat \<times> trit \<Rightarrow> bytes \<times> bytes \<times> nat \<Rightarrow> bytes \<times> bytes \<times> nat" where
  "tb1_step (i, t) (presence, signs, sign_bit) =
    (if get t \<noteq> 0 then
       let signs = (if 8 dvd sign_bit then signs @ [0] else signs);
           signs = (if 0 < get t
                    then signs[length signs - 1 := last signs OR push_bit (sign_bit mod 8) 1] else signs)
       in (or_bit i presence, signs, sign_bit + 1)
     else (presence, signs, sign_bit))"

definition pad_to4 :: "bytes \<Rightarrow> bytes" where
  "pad_to4 bs = bs @ replicate (div_ceil (length bs) 4 * 4 - length bs) 0"

definition pack_tb1_row :: "trit list \<Rightarrow> FormatError + bytes" where
  "pack_tb1_row ts =
    (let nb = div_ceil (length ts) QK_K;
         (presence, signs, sign_bit) =
           fold tb1_step (enumerate 0 ts) (replicate (nb * TB1_PRESENCE_BYTES) 0, [], 0)
     in Inr (pad_to4 (presence @ signs)))"

fun tb1_cells :: "bytes \<Rightarrow> bytes \<Rightarrow> nat \<Rightarrow> nat list \<Rightarrow> nat \<Rightarrow> FormatError + trit list" where
  "tb1_cells presence signs len [] sign_bit = Inr []"
| "tb1_cells presence signs len (i # is) sign_bit =
    (if bit_at presence i then
       rbind (ok_or (if sign_bit div 8 < length signs then Some (signs ! (sign_bit div 8)) else None)
                (WrongBlockLen (length presence + sign_bit div 8 + 1) len)) (\<lambda>byte.
       rbind (tb1_cells presence signs len is (sign_bit + 1)) (\<lambda>ts.
       Inr ((if byte AND push_bit (sign_bit mod 8) 1 \<noteq> 0 then POS else NEG) # ts)))
     else rbind (tb1_cells presence signs len is sign_bit) (\<lambda>ts. Inr (ZERO # ts)))"

definition unpack_tb1_row :: "bytes \<Rightarrow> nat \<Rightarrow> FormatError + trit list" where
  "unpack_tb1_row packed k =
    (let pres_bytes = div_ceil k QK_K * TB1_PRESENCE_BYTES in
     if length packed < pres_bytes then Inl (WrongBlockLen pres_bytes (length packed))
     else tb1_cells (take pres_bytes packed) (drop pres_bytes packed) (length packed) [0..<k] 0)"

section \<open>What the packer leaves behind\<close>

definition nonzeros :: "trit list \<Rightarrow> trit list" where
  "nonzeros ts = filter (\<lambda>t. t \<noteq> ZERO) ts"

definition tb1_inv :: "trit list \<Rightarrow> nat \<Rightarrow> bytes \<times> bytes \<times> nat \<Rightarrow> bool" where
  "tb1_inv ts n = (\<lambda>(presence, signs, sign_bit).
     length presence = n \<and> (\<forall>j. j div 8 < n \<longrightarrow> bit_at presence j = (j < length ts \<and> ts ! j \<noteq> ZERO)) \<and>
     sign_bit = length (nonzeros ts) \<and> length signs = div_ceil sign_bit 8 \<and>
     (\<forall>j. j div 8 < length signs \<longrightarrow> bit_at signs j = (j < sign_bit \<and> nonzeros ts ! j = POS)))"

lemma nonzeros_snoc [simp]: "nonzeros (ts @ [t]) = nonzeros ts @ (if t = ZERO then [] else [t])"
  by (simp add: nonzeros_def)

lemma div_ceil8_last: "div_ceil (Suc n) 8 = Suc (n div 8)"
  by (simp add: div_ceil_def)

lemma div_ceil8_Suc: "div_ceil (Suc n) 8 = (if 8 dvd n then Suc (div_ceil n 8) else div_ceil n 8)"
  by (cases n) (auto simp: div_ceil8_last div_Suc dvd_eq_mod_eq_0)

lemma less_div_ceil8: "j < n \<Longrightarrow> j div 8 < div_ceil n 8"
  by (simp add: div_ceil_less)

lemma sign_stream_snoc:
  assumes len: "length signs = div_ceil (length nz) 8"
    and bits: "\<forall>j. j div 8 < length signs \<longrightarrow> bit_at signs j = (j < length nz \<and> nz ! j = POS)"
    and signs': "signs' = (if 8 dvd length nz then signs @ [0] else signs)"
    and out: "out = (if t = POS then signs'[length signs' - 1 := last signs' OR push_bit (length nz mod 8) 1]
                     else signs')"
  shows "length out = div_ceil (Suc (length nz)) 8 \<and>
    (\<forall>j. j div 8 < length out \<longrightarrow> bit_at out j = (j < Suc (length nz) \<and> (nz @ [t]) ! j = POS))"
proof -
  let ?n = "length nz"
  have len': "length signs' = Suc (?n div 8)"
    using len signs' div_ceil8_Suc [of ?n] div_ceil8_last [of ?n] by simp
  then have ne: "signs' \<noteq> []" by auto
  have old: "bit_at signs' j = (j < ?n \<and> nz ! j = POS)" if "j div 8 < length signs'" for j
  proof (cases "j div 8 < length signs")
    case True
    with bits show ?thesis by (simp add: signs' bit_at_append1)
  next
    case False
    with that have d: "8 dvd ?n" and "j div 8 = length signs" by (auto simp: signs' split: if_splits)
    moreover have "\<not> j < ?n" using less_div_ceil8 [of j ?n] False len by auto
    ultimately show ?thesis by (simp add: signs' bit_at_def nth_append)
  qed
  have upd: "out = (if t = POS then or_bit ?n signs' else signs')"
    using out len' ne by (simp add: or_bit_def last_conv_nth)
  have "bit_at out j = (j < Suc ?n \<and> (nz @ [t]) ! j = POS)" if "j div 8 < length signs'" for j
    using old [OF that] bit_at_or_bit [of ?n signs' j] len'
    by (cases "j = ?n") (auto simp: upd nth_append)
  then show ?thesis using len' div_ceil8_last [of ?n] by (auto simp: upd)
qed

lemma get_pos: "0 < get t \<longleftrightarrow> t = POS" and get_nz: "get t \<noteq> 0 \<longleftrightarrow> t \<noteq> ZERO"
  by (cases t; simp)+

lemma tb1_step_inv:
  assumes inv: "tb1_inv ts n (presence, signs, sign_bit)" and fit: "length ts div 8 < n"
  shows "tb1_inv (ts @ [t]) n (tb1_step (length ts, t) (presence, signs, sign_bit))"
proof (cases "t = ZERO")
  case True
  then have "tb1_step (length ts, t) (presence, signs, sign_bit) = (presence, signs, sign_bit)"
    by simp
  with inv True show ?thesis by (auto simp: tb1_inv_def nth_append less_Suc_eq)
next
  case False
  define s' where "s' = (if 8 dvd sign_bit then signs @ [0] else signs)"
  define out where "out = (if t = POS then s'[length s' - 1 := last s' OR push_bit (sign_bit mod 8) 1] else s')"
  have step: "tb1_step (length ts, t) (presence, signs, sign_bit)
      = (or_bit (length ts) presence, out, Suc sign_bit)"
    unfolding tb1_step.simps Let_def get_pos out_def s'_def using False get_nz [of t] by simp
  have sb: "sign_bit = length (nonzeros ts)" and len: "length signs = div_ceil (length (nonzeros ts)) 8"
    and bits: "\<forall>j. j div 8 < length signs \<longrightarrow> bit_at signs j = (j < length (nonzeros ts) \<and> nonzeros ts ! j = POS)"
    and pres: "length presence = n"
      "\<forall>j. j div 8 < n \<longrightarrow> bit_at presence j = (j < length ts \<and> ts ! j \<noteq> ZERO)"
    using inv by (simp_all add: tb1_inv_def)
  have "bit_at (or_bit (length ts) presence) j = (j < Suc (length ts) \<and> (ts @ [t]) ! j \<noteq> ZERO)"
    if "j div 8 < n" for j
    using pres that fit False bit_at_or_bit [of "length ts" presence j]
    by (cases "j = length ts") (auto simp: nth_append)
  moreover have "length out = div_ceil (Suc sign_bit) 8 \<and>
      (\<forall>j. j div 8 < length out \<longrightarrow> bit_at out j = (j < Suc sign_bit \<and> (nonzeros ts @ [t]) ! j = POS))"
    unfolding sb by (rule sign_stream_snoc [OF len bits s'_def [unfolded sb] out_def [unfolded sb]])
  ultimately show ?thesis using False sb pres(1) unfolding step tb1_inv_def by simp
qed

lemma tb1_fold_inv:
  "length ts \<le> n * 8 \<Longrightarrow> tb1_inv ts n (fold tb1_step (enumerate 0 ts) (replicate n 0, [], 0))"
proof (induction ts rule: rev_induct)
  case Nil
  then show ?case by (simp add: tb1_inv_def nonzeros_def)
next
  case (snoc t ts)
  obtain p s b where st: "fold tb1_step (enumerate 0 ts) (replicate n 0, [], 0) = (p, s, b)"
    by (metis prod_cases3)
  have "tb1_inv ts n (p, s, b)" using snoc st by simp
  moreover have "length ts div 8 < n" using snoc.prems by auto
  ultimately show ?case using st tb1_step_inv by (simp add: enumerate_append_eq)
qed

section \<open>Reading it back\<close>

lemma nonzeros_take_Suc:
  "a < length ts \<Longrightarrow> nonzeros (take (Suc a) ts) = nonzeros (take a ts) @ (if ts ! a = ZERO then [] else [ts ! a])"
  by (simp add: take_Suc_conv_app_nth)

lemma nonzeros_take_nth:
  assumes "a < length ts" "ts ! a \<noteq> ZERO"
  shows "length (nonzeros (take a ts)) < length (nonzeros ts)"
    "nonzeros ts ! length (nonzeros (take a ts)) = ts ! a"
proof -
  have "nonzeros ts = nonzeros (take a ts @ ts ! a # drop (Suc a) ts)"
    by (rule arg_cong [where f = nonzeros, OF id_take_nth_drop [OF assms(1)]])
  also have "\<dots> = nonzeros (take a ts) @ ts ! a # nonzeros (drop (Suc a) ts)"
    using assms(2) by (simp add: nonzeros_def)
  finally show "length (nonzeros (take a ts)) < length (nonzeros ts)"
    "nonzeros ts ! length (nonzeros (take a ts)) = ts ! a" by simp_all
qed

lemma tb1_cells_decode:
  assumes pres: "\<And>j. j < length ts \<Longrightarrow> bit_at presence j = (ts ! j \<noteq> ZERO)"
    and signs: "\<And>j. j < length (nonzeros ts) \<Longrightarrow>
        j div 8 < length signs \<and> bit_at signs j = (nonzeros ts ! j = POS)"
    and "a \<le> length ts"
  shows "tb1_cells presence signs len [a..<length ts] (length (nonzeros (take a ts))) = Inr (drop a ts)"
  using assms(3)
proof (induction rule: inc_induct)
  case base
  then show ?case by simp
next
  case (step a)
  let ?b = "length (nonzeros (take a ts))"
  have ups: "[a..<length ts] = a # [Suc a..<length ts]" "drop a ts = ts ! a # drop (Suc a) ts"
    using step by (simp_all add: upt_conv_Cons Cons_nth_drop_Suc)
  show ?case
  proof (cases "ts ! a = ZERO")
    case True
    with step pres show ?thesis by (simp add: ups nonzeros_take_Suc)
  next
    case False
    have nz: "?b < length (nonzeros ts)" "nonzeros ts ! ?b = ts ! a"
      using nonzeros_take_nth step False by auto
    have "ts ! a = (if bit_at signs ?b then POS else NEG)"
      using signs [OF nz(1)] nz(2) False by (cases "ts ! a") auto
    with step pres signs [OF nz(1)] False show ?thesis
      by (simp add: ups nonzeros_take_Suc bit_at_def)
  qed
qed

lemma tb1_planes_fit: "k \<le> div_ceil k 256 * 32 * 8"
  using div_ceil_mult_ge [of 256 k] by simp

lemma div_ceil4_shift: "div_ceil (n * 32 + s) 4 * 4 = n * 32 + div_ceil s 4 * 4"
proof -
  have "n * 32 + s + 4 - 1 = n * 8 * 4 + (s + 4 - 1)" by simp
  then have "div_ceil (n * 32 + s) 4 = n * 8 + div_ceil s 4"
    unfolding div_ceil_def by (metis div_mult_self3 zero_neq_numeral)
  then show ?thesis by simp
qed

text \<open>C38: every row packs, into the advertised number of bytes (a multiple of four), and unpacking gives the
  row back.\<close>
theorem tb1_row_roundtrip:
  "\<exists>b. pack_tb1_row ts = Inr b \<and> length b = tb1_row_bytes (length ts) (length (nonzeros ts)) \<and>
     4 dvd length b \<and> unpack_tb1_row b (length ts) = Inr ts"
proof -
  let ?n = "div_ceil (length ts) 256 * 32"
  obtain p s b where st: "fold tb1_step (enumerate 0 ts) (replicate ?n 0, [], 0) = (p, s, b)"
    by (metis prod_cases3)
  then have inv: "tb1_inv ts ?n (p, s, b)"
    using tb1_fold_inv [of ts ?n] tb1_planes_fit [of "length ts"] by simp
  define z where "z = (replicate (div_ceil (length (p @ s)) 4 * 4 - length (p @ s)) 0 :: bytes)"
  have pack: "pack_tb1_row ts = Inr (p @ s @ z)"
    using st by (simp add: pack_tb1_row_def TB1_PRESENCE_BYTES_def pad_to4_def z_def)
  have len: "length p = ?n" "length s = div_ceil (length (nonzeros ts)) 8"
    using inv by (simp_all add: tb1_inv_def)
  have "length (p @ s) \<le> div_ceil (length (p @ s)) 4 * 4" by (rule div_ceil_mult_ge) simp
  then have lenb: "length (p @ s @ z) = ?n + div_ceil (length s) 4 * 4"
    using len div_ceil4_shift [of "div_ceil (length ts) 256" "length s"] by (simp add: z_def)
  have "tb1_cells p (s @ z) (length (p @ s @ z)) [0..<length ts] (length (nonzeros (take 0 ts))) = Inr (drop 0 ts)"
  proof (rule tb1_cells_decode)
    fix j
    assume "j < length ts"
    moreover from this have "j div 8 < ?n" using tb1_planes_fit [of "length ts"] by linarith
    ultimately show "bit_at p j = (ts ! j \<noteq> ZERO)" using inv by (simp add: tb1_inv_def)
  next
    fix j
    assume j: "j < length (nonzeros ts)"
    then have "j div 8 < length s" using len less_div_ceil8 by simp
    with j inv show "j div 8 < length (s @ z) \<and> bit_at (s @ z) j = (nonzeros ts ! j = POS)"
      by (simp add: tb1_inv_def bit_at_append1)
  qed simp
  then have "unpack_tb1_row (p @ s @ z) (length ts) = Inr ts"
    using len by (simp add: unpack_tb1_row_def TB1_PRESENCE_BYTES_def nonzeros_def)
  moreover have "4 dvd ?n + div_ceil (length s) 4 * 4" by simp
  ultimately show ?thesis using pack lenb len
    by (simp add: tb1_row_bytes_def TB1_PRESENCE_BYTES_def)
qed

section \<open>Malformed rows\<close>

lemma tb1_cells_ok_iff:
  "is_ok (tb1_cells presence signs len is b) \<longleftrightarrow>
     filter (bit_at presence) is = [] \<or> div_ceil (b + length (filter (bit_at presence) is)) 8 \<le> length signs"
proof (induction "is" arbitrary: b)
  case (Cons i "is")
  show ?case
  proof (cases "bit_at presence i")
    case True
    let ?m = "length (filter (bit_at presence) is)"
    have mono: "Suc (b div 8) \<le> div_ceil (Suc (b + m)) 8" for m
      by (simp add: div_ceil8_last div_le_mono)
    show ?thesis
    proof (cases "b div 8 < length signs")
      case fit: True
      show ?thesis using True fit Cons.IH [of "Suc b"] mono [of 0]
        by (auto simp: div_ceil8_last)
    next
      case False
      with True mono [of ?m] show ?thesis by auto
    qed
  next
    case False
    with Cons.IH [of b] show ?thesis by simp
  qed
qed simp

text \<open>C39: a buffer unpacks exactly when it holds the presence planes of \<open>k\<close> trits and the sign stream that its
  own presence bits imply; otherwise the result is an error.\<close>
theorem unpack_tb1_row_ok_iff:
  "is_ok (unpack_tb1_row packed k) \<longleftrightarrow>
     (let pres = div_ceil k QK_K * TB1_PRESENCE_BYTES;
          nnz = length (filter (bit_at packed) [0..<k])
      in pres + div_ceil nnz 8 \<le> length packed)"
proof -
  let ?pres = "div_ceil k 256 * 32"
  have same: "filter (bit_at (take ?pres packed)) [0..<k] = filter (bit_at packed) [0..<k]"
    if "?pres \<le> length packed"
  proof (rule filter_cong)
    fix j
    assume "j \<in> set [0..<k]"
    then have "j < k" by simp
    then have "j div 8 < ?pres" using tb1_planes_fit [of k] by linarith
    with that show "bit_at (take ?pres packed) j = bit_at packed j" by (simp add: bit_at_def)
  qed simp
  show ?thesis
  proof (cases "?pres \<le> length packed")
    case True
    then show ?thesis
      using tb1_cells_ok_iff [of "take ?pres packed" "drop ?pres packed" "length packed" "[0..<k]" 0] same
      by (auto simp: unpack_tb1_row_def TB1_PRESENCE_BYTES_def Let_def)
  qed (simp add: unpack_tb1_row_def TB1_PRESENCE_BYTES_def)
qed

end
