(* ===== verification/Cursor.thy ===== *)
theory Cursor
  imports Errors
begin

text \<open>
  Reading bytes: UTF-8 validation as \<open>core::str::from_utf8\<close> performs it, the contract of a bounds-checked
  forward reader as a locale, and its first provider, \<open>LeCursor\<close> of \<open>le_cursor.rs\<close>.  The locale proves once
  what a format needs of its reader: an encoding that lies ahead is read back and exactly its bytes are
  consumed, for a single field, for a sequence of fields, and for a counted loop of records.
\<close>

section \<open>UTF-8\<close>

definition utf8_cont :: "u8 \<Rightarrow> bool" where
  "utf8_cont b = (0x80 \<le> unat b \<and> unat b \<le> 0xBF)"

text \<open>The rest of the string after its first scalar value, or \<^const>\<open>None\<close> when that is ill-formed.\<close>
fun utf8_next :: "bytes \<Rightarrow> bytes option" where
  "utf8_next [] = None"
| "utf8_next (b # bs) =
    (let v = unat b in
     if v < 0x80 then Some bs
     else if 0xC2 \<le> v \<and> v \<le> 0xDF then
       (case bs of c1 # r \<Rightarrow> if utf8_cont c1 then Some r else None | _ \<Rightarrow> None)
     else if 0xE0 \<le> v \<and> v \<le> 0xEF then
       (case bs of c1 # c2 # r \<Rightarrow>
          if utf8_cont c1 \<and> utf8_cont c2 \<and> (v = 0xE0 \<longrightarrow> 0xA0 \<le> unat c1) \<and> (v = 0xED \<longrightarrow> unat c1 \<le> 0x9F)
          then Some r else None
        | _ \<Rightarrow> None)
     else if 0xF0 \<le> v \<and> v \<le> 0xF4 then
       (case bs of c1 # c2 # c3 # r \<Rightarrow>
          if utf8_cont c1 \<and> utf8_cont c2 \<and> utf8_cont c3 \<and> (v = 0xF0 \<longrightarrow> 0x90 \<le> unat c1) \<and>
             (v = 0xF4 \<longrightarrow> unat c1 \<le> 0x8F)
          then Some r else None
        | _ \<Rightarrow> None)
     else None)"

lemma utf8_next_shorter: "utf8_next bs = Some r \<Longrightarrow> length r < length bs"
  by (cases bs) (auto simp: Let_def split: if_splits list.splits)

function utf8_ok :: "bytes \<Rightarrow> bool" where
  "utf8_ok bs = (bs = [] \<or> (case utf8_next bs of None \<Rightarrow> False | Some r \<Rightarrow> utf8_ok r))"
  by pat_completeness auto
termination
  by (relation "measure length") (auto dest: utf8_next_shorter)

declare utf8_ok.simps [simp del]

lemma utf8_ok_Nil [simp]: "utf8_ok []"
  by (simp add: utf8_ok.simps)

lemma utf8_ok_ascii_Cons [simp]: "unat b < 0x80 \<Longrightarrow> utf8_ok (b # bs) = utf8_ok bs"
  by (simp add: utf8_ok.simps [of "b # bs"] Let_def)

text \<open>ASCII text is UTF-8.\<close>
lemma utf8_ok_ascii: "list_all (\<lambda>b. unat b < 0x80) bs \<Longrightarrow> utf8_ok bs"
  by (induction bs) auto

section \<open>The contract of a forward reader\<close>

text \<open>
  \<open>inv\<close> is the reader's invariant, \<open>rest\<close> the bytes ahead, \<open>adv\<close> the reader after consuming some of them and
  \<open>short\<close> the error of a request that exceeds them.
\<close>
locale byte_reader =
  fixes tk :: "nat \<Rightarrow> 'c \<Rightarrow> 'e + bytes \<times> 'c"
    and inv :: "'c \<Rightarrow> bool"
    and rest :: "'c \<Rightarrow> bytes"
    and adv :: "nat \<Rightarrow> 'c \<Rightarrow> 'c"
    and short :: "nat \<Rightarrow> 'c \<Rightarrow> 'e"
  assumes tk_ok: "inv c \<Longrightarrow> n \<le> length (rest c) \<Longrightarrow> tk n c = Inr (take n (rest c), adv n c)"
    and tk_short: "inv c \<Longrightarrow> length (rest c) < n \<Longrightarrow> tk n c = Inl (short n c)"
    and adv_inv: "inv c \<Longrightarrow> n \<le> length (rest c) \<Longrightarrow> inv (adv n c)"
    and adv_rest: "inv c \<Longrightarrow> n \<le> length (rest c) \<Longrightarrow> rest (adv n c) = drop n (rest c)"
    and adv_0: "adv 0 c = c"
    and adv_adv: "adv m (adv n c) = adv (n + m) c"
begin

text \<open>A field reader of fixed width \<open>n\<close> fails only by running short.\<close>
lemma tk_cases:
  "inv c \<Longrightarrow> tk n c = (if n \<le> length (rest c) then Inr (take n (rest c), adv n c) else Inl (short n c))"
  by (simp add: tk_ok tk_short)

text \<open>\<open>p\<close> reads the encoding \<open>bs\<close>, wherever it lies ahead, as \<open>v\<close>.\<close>
definition reads :: "('c \<Rightarrow> 'e + 'a \<times> 'c) \<Rightarrow> bytes \<Rightarrow> 'a \<Rightarrow> bool" where
  "reads p bs v \<longleftrightarrow>
     (\<forall>c ts. inv c \<longrightarrow> rest c = bs @ ts \<longrightarrow> p c = Inr (v, adv (length bs) c))"

lemma readsD: "reads p bs v \<Longrightarrow> inv c \<Longrightarrow> rest c = bs @ ts \<Longrightarrow> p c = Inr (v, adv (length bs) c)"
  by (auto simp: reads_def)

lemma adv_state: "inv c \<Longrightarrow> rest c = bs @ ts \<Longrightarrow> inv (adv (length bs) c) \<and> rest (adv (length bs) c) = ts"
  by (simp add: adv_inv adv_rest)

lemma tk_reads: "reads (tk (length bs)) bs bs"
  by (auto simp: reads_def tk_ok)

lemma tk_reads_n: "length bs = n \<Longrightarrow> reads (tk n) bs bs"
  using tk_reads by auto

lemma reads_pure: "reads (\<lambda>c. Inr (v, c)) [] v"
  by (auto simp: reads_def adv_0)

lemma reads_bind:
  assumes "reads p bs v" and "reads (q v) bs' w"
  shows "reads (\<lambda>c. rbind (p c) (\<lambda>(x, c). q x c)) (bs @ bs') w"
  unfolding reads_def
proof (intro allI impI)
  fix c ts
  assume c: "inv c" "rest c = (bs @ bs') @ ts"
  then have p: "p c = Inr (v, adv (length bs) c)"
    using readsD [OF assms(1), of c "bs' @ ts"] by simp
  have st: "inv (adv (length bs) c)" "rest (adv (length bs) c) = bs' @ ts"
    using adv_state [of c bs "bs' @ ts"] c by simp_all
  show "rbind (p c) (\<lambda>(x, c). q x c) = Inr (w, adv (length (bs @ bs')) c)"
    using readsD [OF assms(2) st] p by (simp add: adv_adv)
qed

lemma reads_map:
  assumes "reads p bs v"
  shows "reads (\<lambda>c. rbind (p c) (\<lambda>(x, c). Inr (f x, c))) bs (f v)"
  using reads_bind [OF assms, where q = "\<lambda>x c. Inr (f x, c)", OF reads_pure] by simp

lemma reads_ensure:
  assumes "reads p bs v" and "b"
  shows "reads (\<lambda>c. rbind (ensure b e) (\<lambda>_. p c)) bs v"
  using assms by simp

text \<open>A counted loop reads the concatenation of its records' encodings.\<close>
lemma reads_repeat:
  assumes "\<And>x. x \<in> set xs \<Longrightarrow> reads p (enc x) x"
  shows "reads (repeatR (length xs) p) (concat (map enc xs)) xs"
  using assms
proof (induction xs)
  case Nil
  then show ?case by (auto simp: reads_def adv_0)
next
  case (Cons x xs)
  have px: "reads p (enc x) x" and IH: "reads (repeatR (length xs) p) (concat (map enc xs)) xs"
    using Cons by auto
  show ?case unfolding reads_def
  proof (intro allI impI)
    fix c ts
    assume c: "inv c" "rest c = concat (map enc (x # xs)) @ ts"
    have st: "inv (adv (length (enc x)) c)" "rest (adv (length (enc x)) c) = concat (map enc xs) @ ts"
      using adv_state [of c "enc x" "concat (map enc xs) @ ts"] c by simp_all
    show "repeatR (length (x # xs)) p c = Inr (x # xs, adv (length (concat (map enc (x # xs)))) c)"
      using readsD [OF px c(1), of "concat (map enc xs) @ ts"] readsD [OF IH st] c
      by (simp add: adv_adv)
  qed
qed

text \<open>Conversely, whatever \<open>p\<close> returns, it consumed an encoding of it, as \<open>R\<close> relates them.\<close>
definition consumes :: "('c \<Rightarrow> 'e + 'a \<times> 'c) \<Rightarrow> ('a \<Rightarrow> bytes \<Rightarrow> bool) \<Rightarrow> bool" where
  "consumes p R \<longleftrightarrow> (\<forall>c v c'. inv c \<longrightarrow> p c = Inr (v, c') \<longrightarrow>
     inv c' \<and> (\<exists>bs. rest c = bs @ rest c' \<and> R v bs))"

lemma consumesE:
  assumes "consumes p R" "inv c" "p c = Inr (v, c')"
  obtains bs where "rest c = bs @ rest c'" "R v bs" "inv c'"
  using assms unfolding consumes_def by meson

lemma tk_consumes: "consumes (tk n) (\<lambda>v bs. v = bs \<and> length bs = n)"
  unfolding consumes_def by (auto simp: tk_cases adv_inv adv_rest split: if_splits intro!: exI [of _ "take n (rest _)"])

lemma consumes_map:
  assumes "consumes p R" and "\<And>v bs. R v bs \<Longrightarrow> S (f v) bs"
  shows "consumes (\<lambda>c. rbind (p c) (\<lambda>(x, c). Inr (f x, c))) S"
  using assms unfolding consumes_def by (auto simp: rbind_eq_Inr) blast+

lemma consumes_repeat:
  assumes "consumes p R"
  shows "consumes (repeatR n p) (\<lambda>xs bs. length xs = n \<and> (\<exists>bss. list_all2 R xs bss \<and> bs = concat bss))"
proof (induction n)
  case 0
  show ?case by (auto simp: consumes_def)
next
  case (Suc n)
  show ?case unfolding consumes_def
  proof (intro allI impI)
    fix c xs c'
    assume c: "inv c" "repeatR (Suc n) p c = Inr (xs, c')"
    then obtain x c1 ys where p: "p c = Inr (x, c1)" and r: "repeatR n p c1 = Inr (ys, c')"
      and xs: "xs = x # ys" by (auto split: sum.splits prod.splits)
    obtain b where b: "rest c = b @ rest c1" "R x b" "inv c1" by (rule consumesE [OF assms c(1) p])
    obtain bss where "rest c1 = concat bss @ rest c'" "list_all2 R ys bss" "inv c'" "length ys = n"
      by (rule consumesE [OF Suc b(3) r]) blast
    with b xs show "inv c' \<and> (\<exists>bs. rest c = bs @ rest c' \<and> length xs = Suc n \<and>
        (\<exists>bss. list_all2 R xs bss \<and> bs = concat bss))"
      by (intro conjI exI [of _ "b @ concat bss"] exI [of _ "b # bss"]) auto
  qed
qed

lemma repeat_fixed:
  assumes p: "\<And>c. inv c \<Longrightarrow> w \<le> length (rest c) \<Longrightarrow> p c = Inr (f (take w (rest c)), adv w c)"
    and c: "inv c" "n * w \<le> length (rest c)"
  shows "repeatR n p c = Inr (map (\<lambda>i. f (window (i * w) w (rest c))) [0..<n], adv (n * w) c)"
  using c
proof (induction n arbitrary: c)
  case 0
  then show ?case by (simp add: adv_0)
next
  case (Suc n)
  have w: "w \<le> length (rest c)" using Suc.prems by simp
  let ?c = "adv w c"
  have st: "inv ?c" "rest ?c = drop w (rest c)" using adv_inv adv_rest Suc.prems(1) w by auto
  have "repeatR n p ?c = Inr (map (\<lambda>i. f (window (i * w) w (rest ?c))) [0..<n], adv (n * w) ?c)"
    using Suc.IH [OF st(1)] Suc.prems st by simp
  moreover have "map (\<lambda>i. f (window (i * w) w (rest c))) [0..<Suc n]
      = f (take w (rest c)) # map (\<lambda>i. f (window (i * w) w (drop w (rest c)))) [0..<n]"
    by (simp add: upt_conv_Cons map_Suc_upt [symmetric] window_def add.commute del: upt_Suc)
  ultimately show ?case using p [OF Suc.prems(1) w] st(2) by (simp add: adv_adv del: upt_Suc)
qed

end

section \<open>\<open>LeCursor\<close>\<close>

record LeCursor =
  lc_b :: bytes
  lc_o :: usize

definition lc_new :: "bytes \<Rightarrow> LeCursor" where
  "lc_new b = \<lparr>lc_b = b, lc_o = 0\<rparr>"

definition lc_remaining :: "LeCursor \<Rightarrow> usize" where
  "lc_remaining c = length (lc_b c) - lc_o c"

definition lc_take :: "usize \<Rightarrow> LeCursor \<Rightarrow> FormatError + bytes \<times> LeCursor" where
  "lc_take n c =
    rbind (ok_or (checked_add (lc_o c) n) (WrongBlockLen n (lc_remaining c))) (\<lambda>fin.
    if length (lc_b c) < fin then Inl (WrongBlockLen n (lc_remaining c))
    else Inr (window (lc_o c) (fin - lc_o c) (lc_b c), c\<lparr>lc_o := fin\<rparr>))"

definition lc_u8 :: "LeCursor \<Rightarrow> FormatError + u8 \<times> LeCursor" where
  "lc_u8 c = rbind (lc_take 1 c) (\<lambda>(s, c). Inr (s ! 0, c))"

definition lc_u16 :: "LeCursor \<Rightarrow> FormatError + u16 \<times> LeCursor" where
  "lc_u16 c = rbind (lc_take 2 c) (\<lambda>(s, c). Inr (un_le16 s, c))"

definition lc_u32 :: "LeCursor \<Rightarrow> FormatError + u32 \<times> LeCursor" where
  "lc_u32 c = rbind (lc_take 4 c) (\<lambda>(s, c). Inr (un_le32 s, c))"

definition lc_u64 :: "LeCursor \<Rightarrow> FormatError + u64 \<times> LeCursor" where
  "lc_u64 c = rbind (lc_take 8 c) (\<lambda>(s, c). Inr (un_le64 s, c))"

text \<open>The buffer is addressable and the offset never leaves it.\<close>
definition lc_inv :: "LeCursor \<Rightarrow> bool" where
  "lc_inv c \<longleftrightarrow> lc_o c \<le> length (lc_b c) \<and> length (lc_b c) \<le> usize_MAX"

definition lc_rest :: "LeCursor \<Rightarrow> bytes" where
  "lc_rest c = drop (lc_o c) (lc_b c)"

definition lc_adv :: "nat \<Rightarrow> LeCursor \<Rightarrow> LeCursor" where
  "lc_adv n c = c\<lparr>lc_o := lc_o c + n\<rparr>"

interpretation lc: byte_reader lc_take lc_inv lc_rest lc_adv "\<lambda>n c. WrongBlockLen n (lc_remaining c)"
proof unfold_locales
  fix c n
  assume "lc_inv c"
  then show "n \<le> length (lc_rest c) \<Longrightarrow> lc_take n c = Inr (take n (lc_rest c), lc_adv n c)"
    by (auto simp: lc_inv_def lc_rest_def lc_take_def lc_adv_def window_def checked_add_def rbind_def)
  show "length (lc_rest c) < n \<Longrightarrow> lc_take n c = Inl (WrongBlockLen n (lc_remaining c))"
    by (auto simp: lc_rest_def lc_take_def rbind_eq_Inl checked_add_def)
qed (auto simp: lc_inv_def lc_rest_def lc_adv_def add.commute)

lemma lc_new_start: "length b \<le> usize_MAX \<Longrightarrow> lc_inv (lc_new b)" "lc_rest (lc_new b) = b"
  by (simp_all add: lc_new_def lc_inv_def lc_rest_def)

lemma lc_remaining_rest: "lc_remaining c = length (lc_rest c)"
  by (simp add: lc_remaining_def lc_rest_def)

lemma lc_u8_reads: "lc.reads lc_u8 [x] x"
  using lc.reads_map [OF lc.tk_reads [of "[x]"], where f = "\<lambda>s. s ! 0"]
  by (simp add: lc_u8_def [abs_def])

lemma lc_u16_reads: "lc.reads lc_u16 (le16 x) x"
  using lc.reads_map [OF lc.tk_reads [of "le16 x"], where f = un_le16]
  by (simp add: lc_u16_def [abs_def])

lemma lc_u32_reads: "lc.reads lc_u32 (le32 x) x"
  using lc.reads_map [OF lc.tk_reads [of "le32 x"], where f = un_le32]
  by (simp add: lc_u32_def [abs_def])

lemma lc_u64_reads: "lc.reads lc_u64 (le64 x) x"
  using lc.reads_map [OF lc.tk_reads [of "le64 x"], where f = un_le64]
  by (simp add: lc_u64_def [abs_def])

lemma lc_u8_consumes: "lc.consumes lc_u8 (\<lambda>v bs. bs = [v])"
  unfolding lc_u8_def [abs_def]
  by (rule lc.consumes_map [OF lc.tk_consumes]) (auto simp: length_Suc_conv)

lemma lc_u16_consumes: "lc.consumes lc_u16 (\<lambda>v bs. bs = le16 v)"
  unfolding lc_u16_def [abs_def] by (rule lc.consumes_map [OF lc.tk_consumes]) (auto simp: le16_un_le16)

lemma lc_u32_consumes: "lc.consumes lc_u32 (\<lambda>v bs. bs = le32 v)"
  unfolding lc_u32_def [abs_def] by (rule lc.consumes_map [OF lc.tk_consumes]) (auto simp: le32_un_le32)

lemma lc_u64_consumes: "lc.consumes lc_u64 (\<lambda>v bs. bs = le64 v)"
  unfolding lc_u64_def [abs_def] by (rule lc.consumes_map [OF lc.tk_consumes]) (auto simp: le64_un_le64)

lemmas lc_reads = lc_u8_reads lc_u16_reads lc_u32_reads lc_u64_reads

end
