(* ===== verification/Corpus.thy ===== *)
theory Corpus
  imports Cursor
begin

text \<open>
  The tokenised-corpus containers of \<open>tritium-format\<close>: a \<open>.tqbin\<close> shard (\<open>tqbin.rs\<close>) is a counted stream of
  \<open>u32\<close> tokens, a \<open>.tqidx\<close> manifest (\<open>tqidx.rs\<close>) names the shards and their token counts.  Both readers are
  characterised exactly: they accept a buffer if and only if it starts with an encoding the writer could
  have produced (reserved bytes aside), and then return what was encoded.
\<close>

section \<open>Shards\<close>

definition TQBIN_MAGIC :: bytes where "TQBIN_MAGIC = [0x54, 0x51, 0x42, 0x4E]"
definition TQBIN_VERSION :: u8 where "TQBIN_VERSION = 1"

definition write_tqbin :: "u32 list \<Rightarrow> bytes" where
  "write_tqbin tokens =
    TQBIN_MAGIC @ [TQBIN_VERSION] @ [0, 0, 0] @ le64 (of_nat (length tokens)) @ concat (map le32 tokens)"

definition tqbin_header :: "LeCursor \<Rightarrow> FormatError + u64 \<times> LeCursor" where
  "tqbin_header c =
    rbind (lc_take 4 c) (\<lambda>(magic, c).
    rbind (ensure (magic = TQBIN_MAGIC) TqBadMagic) (\<lambda>_.
    rbind (lc_u8 c) (\<lambda>(version, c).
    rbind (ensure (version = TQBIN_VERSION) (UnsupportedTqVersion version)) (\<lambda>_.
    rbind (lc_take 3 c) (\<lambda>(reserved, c).
    lc_u64 c)))))"

definition read_tqbin :: "bytes \<Rightarrow> FormatError + u32 list" where
  "read_tqbin bs =
    rbind (tqbin_header (lc_new bs)) (\<lambda>(n_tokens, c).
    rbind (ok_or (checked_mul (unat n_tokens) 4) (WrongBlockLen usize_MAX (lc_remaining c))) (\<lambda>need.
    rbind (ensure (need \<le> lc_remaining c) (WrongBlockLen need (lc_remaining c))) (\<lambda>_.
    rbind (repeatR (unat n_tokens) lc_u32 c) (\<lambda>(tokens, c). Inr tokens))))"

section \<open>Manifests\<close>

definition TQIDX_MAGIC :: bytes where "TQIDX_MAGIC = [0x54, 0x51, 0x49, 0x58]"
definition TQIDX_VERSION :: u8 where "TQIDX_VERSION = 1"

record ShardEntry =
  se_name :: rstring
  se_n_tokens :: u64

record TqIndex =
  seq_len :: u32
  shards :: "ShardEntry list"

definition n_samples :: "TqIndex \<Rightarrow> usize" where
  "n_samples idx =
    (if seq_len idx = 0 then 0
     else fold (\<lambda>s total. saturating_add total (unat (se_n_tokens s) div unat (seq_len idx))) (shards idx) 0)"

definition push_shard :: "ShardEntry \<Rightarrow> bytes" where
  "push_shard s = le16 (of_nat (length (se_name s))) @ se_name s @ le64 (se_n_tokens s)"

definition write_tqidx :: "u32 \<Rightarrow> ShardEntry list \<Rightarrow> FormatError + bytes" where
  "write_tqidx sl ss =
    (if sl = 0 then Inl TqZeroSeqLen
     else rbind (mapR (\<lambda>s. ensure (length (se_name s) \<le> 65535) (TqNameTooLong (length (se_name s)))) ss) (\<lambda>_.
       Inr (TQIDX_MAGIC @ [TQIDX_VERSION] @ [0] @ le32 sl @ le32 (of_nat (length ss))
            @ concat (map push_shard ss))))"

definition read_shard :: "LeCursor \<Rightarrow> FormatError + ShardEntry \<times> LeCursor" where
  "read_shard c =
    rbind (lc_u16 c) (\<lambda>(name_len, c).
    rbind (lc_take (unat name_len) c) (\<lambda>(name, c).
    rbind (ensure (utf8_ok name) TqBadName) (\<lambda>_.
    rbind (lc_u64 c) (\<lambda>(n_tokens, c).
    Inr (\<lparr>se_name = name, se_n_tokens = n_tokens\<rparr>, c)))))"

definition tqidx_header :: "LeCursor \<Rightarrow> FormatError + (u32 \<times> u32) \<times> LeCursor" where
  "tqidx_header c =
    rbind (lc_take 4 c) (\<lambda>(magic, c).
    rbind (ensure (magic = TQIDX_MAGIC) TqBadMagic) (\<lambda>_.
    rbind (lc_u8 c) (\<lambda>(version, c).
    rbind (ensure (version = TQIDX_VERSION) (UnsupportedTqVersion version)) (\<lambda>_.
    rbind (lc_u8 c) (\<lambda>(reserved, c).
    rbind (lc_u32 c) (\<lambda>(sl, c).
    rbind (ensure (sl \<noteq> 0) TqZeroSeqLen) (\<lambda>_.
    rbind (lc_u32 c) (\<lambda>(count, c). Inr ((sl, count), c)))))))))"

definition read_tqidx :: "bytes \<Rightarrow> FormatError + TqIndex" where
  "read_tqidx bs =
    rbind (tqidx_header (lc_new bs)) (\<lambda>((sl, shard_count), c).
    rbind (repeatR (unat shard_count) read_shard c) (\<lambda>(ss, c).
    Inr \<lparr>seq_len = sl, shards = ss\<rparr>))"

section \<open>The shard reader\<close>

lemma tqbin_header_consumes:
  "lc.consumes tqbin_header (\<lambda>n bs. \<exists>r. length r = 3 \<and> bs = TQBIN_MAGIC @ [TQBIN_VERSION] @ r @ le64 n)"
  unfolding lc.consumes_def
proof (intro allI impI)
  fix c n c'
  assume c: "lc_inv c" and run: "tqbin_header c = Inr (n, c')"
  then obtain c1 c2 r c3 where
    1: "lc_take 4 c = Inr (TQBIN_MAGIC, c1)" and 2: "lc_u8 c1 = Inr (TQBIN_VERSION, c2)" and
    3: "lc_take 3 c2 = Inr (r, c3)" and 4: "lc_u64 c3 = Inr (n, c')"
    by (auto simp: tqbin_header_def rbind_eq_Inr)
  have a: "lc_rest c = TQBIN_MAGIC @ lc_rest c1" "lc_inv c1"
    using lc.consumesE [OF lc.tk_consumes c 1] by metis+
  have b: "lc_rest c1 = TQBIN_VERSION # lc_rest c2" "lc_inv c2"
    using lc.consumesE [OF lc_u8_consumes a(2) 2] by (metis append_Cons append_Nil)+
  have d: "lc_rest c2 = r @ lc_rest c3" "length r = 3" "lc_inv c3"
    using lc.consumesE [OF lc.tk_consumes b(2) 3] by metis+
  have e: "lc_rest c3 = le64 n @ lc_rest c'" "lc_inv c'"
    using lc.consumesE [OF lc_u64_consumes d(3) 4] by metis+
  show "lc_inv c' \<and> (\<exists>bs. lc_rest c = bs @ lc_rest c' \<and>
      (\<exists>r. length r = 3 \<and> bs = TQBIN_MAGIC @ [TQBIN_VERSION] @ r @ le64 n))"
    using a b d e by auto
qed

lemma tqbin_header_reads:
  assumes "length r = 3"
  shows "lc.reads tqbin_header (TQBIN_MAGIC @ [TQBIN_VERSION] @ r @ le64 n) n"
  unfolding tqbin_header_def [abs_def]
  by (rule lc.reads_bind lc.reads_ensure lc.tk_reads_n lc_reads | simp add: assms TQBIN_MAGIC_def)+

lemma le32_stream_inj:
  "list_all2 (\<lambda>v bs. bs = le32 v) xs bss \<Longrightarrow> concat bss = concat (map le32 xs)"
  by (induction rule: list_all2_induct) auto

lemma length_le32_stream [simp]: "length (concat (map le32 ts)) = 4 * length ts"
  by (induction ts) auto

text \<open>C36: reading a shard succeeds exactly on the buffers that start with the encoding of some token
  stream (with any reserved bytes and any trailing data), and returns that stream.\<close>
theorem read_tqbin_ok_iff:
  assumes "length bs \<le> usize_MAX"
  shows "read_tqbin bs = Inr ts \<longleftrightarrow>
    (\<exists>r tail. length r = 3 \<and> length ts < 2 ^ 64 \<and>
       bs = TQBIN_MAGIC @ [TQBIN_VERSION] @ r @ le64 (of_nat (length ts)) @ concat (map le32 ts) @ tail)"
proof
  assume "read_tqbin bs = Inr ts"
  then obtain n c c' where h: "tqbin_header (lc_new bs) = Inr (n, c)"
    and r: "repeatR (unat n) lc_u32 c = Inr (ts, c')"
    by (auto simp: read_tqbin_def rbind_eq_Inr)
  obtain r where r3: "length r = 3"
    and bs: "bs = (TQBIN_MAGIC @ [TQBIN_VERSION] @ r @ le64 n) @ lc_rest c" and c: "lc_inv c"
    using lc.consumesE [OF tqbin_header_consumes lc_new_start(1) [OF assms] h]
    by (metis lc_new_start(2))
  obtain bss where "lc_rest c = concat bss @ lc_rest c'" "list_all2 (\<lambda>v bs. bs = le32 v) ts bss"
    and len: "length ts = unat n"
    by (rule lc.consumesE [OF lc.consumes_repeat [OF lc_u32_consumes] c r]) blast
  then have "lc_rest c = concat (map le32 ts) @ lc_rest c'" using le32_stream_inj by metis
  then have "bs = TQBIN_MAGIC @ [TQBIN_VERSION] @ r @ le64 (of_nat (length ts))
      @ concat (map le32 ts) @ lc_rest c'"
    unfolding len using bs by simp
  moreover have "length ts < 2 ^ 64" using len unat64_less [of n] by simp
  ultimately show "\<exists>r tail. length r = 3 \<and> length ts < 2 ^ 64 \<and>
      bs = TQBIN_MAGIC @ [TQBIN_VERSION] @ r @ le64 (of_nat (length ts)) @ concat (map le32 ts) @ tail"
    using r3 by blast
next
  assume "\<exists>r tail. length r = 3 \<and> length ts < 2 ^ 64 \<and>
      bs = TQBIN_MAGIC @ [TQBIN_VERSION] @ r @ le64 (of_nat (length ts)) @ concat (map le32 ts) @ tail"
  then obtain r tail where r: "length r = 3" and n: "length ts < 2 ^ 64"
    and bs: "bs = (TQBIN_MAGIC @ [TQBIN_VERSION] @ r @ le64 (of_nat (length ts))) @ concat (map le32 ts) @ tail"
    by auto
  let ?h = "TQBIN_MAGIC @ [TQBIN_VERSION] @ r @ le64 (of_nat (length ts))"
  let ?c = "lc_adv (length ?h) (lc_new bs)"
  have start: "lc_inv (lc_new bs)" "lc_rest (lc_new bs) = ?h @ concat (map le32 ts) @ tail"
    using lc_new_start assms bs by auto
  have h: "tqbin_header (lc_new bs) = Inr (of_nat (length ts), ?c)"
    by (rule lc.readsD [OF tqbin_header_reads [OF r] start])
  have st: "lc_inv ?c" "lc_rest ?c = concat (map le32 ts) @ tail"
    using lc.adv_state [OF start] by auto
  have u: "unat (of_nat (length ts) :: u64) = length ts" using n by (simp add: unat_of_nat)
  have "repeatR (length ts) lc_u32 ?c = Inr (ts, lc_adv (length (concat (map le32 ts))) ?c)"
    by (rule lc.readsD [OF lc.reads_repeat [OF lc_u32_reads] st])
  moreover have "length ts * 4 \<le> usize_MAX" using assms bs by simp
  moreover have "length ts * 4 \<le> lc_remaining ?c" using st(2) by (simp add: lc_remaining_rest)
  ultimately show "read_tqbin bs = Inr ts" using h u by (simp add: read_tqbin_def checked_mul_def)
qed

theorem read_tqbin_ok_iff_witness:
  "length (write_tqbin [7, 1]) \<le> usize_MAX \<and> read_tqbin (write_tqbin [7, 1]) = Inr [7, 1]"
proof -
  have len: "length (write_tqbin [7, 1]) \<le> usize_MAX"
    by (simp add: write_tqbin_def TQBIN_MAGIC_def usize_MAX_def)
  moreover have "read_tqbin (write_tqbin [7, 1]) = Inr [7, 1]"
    unfolding read_tqbin_ok_iff [OF len]
    by (intro exI [of _ "[0, 0, 0]"] exI [of _ "[]"]) (simp add: write_tqbin_def)
  ultimately show ?thesis ..
qed

section \<open>The manifest reader\<close>

lemma read_shard_consumes:
  "lc.consumes read_shard (\<lambda>s bs. utf8_ok (se_name s) \<and> length (se_name s) < 2 ^ 16 \<and> bs = push_shard s)"
  unfolding lc.consumes_def
proof (intro allI impI)
  fix c s c'
  assume c: "lc_inv c" and run: "read_shard c = Inr (s, c')"
  then obtain l c1 name c2 n where
    1: "lc_u16 c = Inr (l, c1)" and 2: "lc_take (unat l) c1 = Inr (name, c2)" and
    utf: "utf8_ok name" and 3: "lc_u64 c2 = Inr (n, c')" and s: "s = \<lparr>se_name = name, se_n_tokens = n\<rparr>"
    by (auto simp: read_shard_def rbind_eq_Inr)
  have a: "lc_rest c = le16 l @ lc_rest c1" "lc_inv c1"
    using lc.consumesE [OF lc_u16_consumes c 1] by metis+
  have b: "lc_rest c1 = name @ lc_rest c2" "length name = unat l" "lc_inv c2"
    using lc.consumesE [OF lc.tk_consumes a(2) 2] by metis+
  have d: "lc_rest c2 = le64 n @ lc_rest c'" "lc_inv c'"
    using lc.consumesE [OF lc_u64_consumes b(3) 3] by metis+
  show "lc_inv c' \<and> (\<exists>bs. lc_rest c = bs @ lc_rest c' \<and>
      utf8_ok (se_name s) \<and> length (se_name s) < 2 ^ 16 \<and> bs = push_shard s)"
    using a b d utf s unat16_less [of l] by (auto simp: push_shard_def)
qed

lemma read_shard_reads:
  assumes "utf8_ok (se_name s)" "length (se_name s) < 2 ^ 16"
  shows "lc.reads read_shard (push_shard s) s"
proof -
  have u: "unat (of_nat (length (se_name s)) :: u16) = length (se_name s)"
    using assms(2) by (simp add: unat_of_nat)
  have last: "lc.reads (\<lambda>c. rbind (lc_u64 c) (\<lambda>(n, c). Inr (\<lparr>se_name = se_name s, se_n_tokens = n\<rparr>, c)))
      (le64 (se_n_tokens s)) s"
    using lc.reads_map [OF lc_u64_reads [of "se_n_tokens s"], where f = "\<lambda>n. \<lparr>se_name = se_name s, se_n_tokens = n\<rparr>"]
    by (cases s) simp
  show ?thesis unfolding read_shard_def [abs_def] push_shard_def
    by (rule lc.reads_bind lc_u16_reads lc.tk_reads_n lc.reads_ensure last u [symmetric] assms(1))+
qed

lemma tqidx_header_consumes:
  "lc.consumes tqidx_header (\<lambda>(sl, n) bs. sl \<noteq> 0 \<and>
     (\<exists>r. bs = TQIDX_MAGIC @ [TQIDX_VERSION] @ [r] @ le32 sl @ le32 n))"
  unfolding lc.consumes_def
proof (intro allI impI)
  fix c v c'
  assume c: "lc_inv c" and run: "tqidx_header c = Inr (v, c')"
  then obtain c1 c2 r c3 sl c4 n where
    1: "lc_take 4 c = Inr (TQIDX_MAGIC, c1)" and 2: "lc_u8 c1 = Inr (TQIDX_VERSION, c2)" and
    3: "lc_u8 c2 = Inr (r, c3)" and 4: "lc_u32 c3 = Inr (sl, c4)" and sl: "sl \<noteq> 0" and
    5: "lc_u32 c4 = Inr (n, c')" and v: "v = (sl, n)"
    by (auto simp: tqidx_header_def rbind_eq_Inr)
  have a: "lc_rest c = TQIDX_MAGIC @ lc_rest c1" "lc_inv c1"
    using lc.consumesE [OF lc.tk_consumes c 1] by metis+
  have b: "lc_rest c1 = [TQIDX_VERSION] @ lc_rest c2" "lc_inv c2"
    using lc.consumesE [OF lc_u8_consumes a(2) 2] by metis+
  have d: "lc_rest c2 = [r] @ lc_rest c3" "lc_inv c3"
    using lc.consumesE [OF lc_u8_consumes b(2) 3] by metis+
  have e: "lc_rest c3 = le32 sl @ lc_rest c4" "lc_inv c4"
    using lc.consumesE [OF lc_u32_consumes d(2) 4] by metis+
  have f: "lc_rest c4 = le32 n @ lc_rest c'" "lc_inv c'"
    using lc.consumesE [OF lc_u32_consumes e(2) 5] by metis+
  show "lc_inv c' \<and> (\<exists>bs. lc_rest c = bs @ lc_rest c' \<and> (case v of (sl, n) \<Rightarrow> \<lambda>bs. sl \<noteq> 0 \<and>
     (\<exists>r. bs = TQIDX_MAGIC @ [TQIDX_VERSION] @ [r] @ le32 sl @ le32 n)) bs)"
    using a b d e f sl v by auto
qed

lemma tqidx_header_reads:
  assumes "sl \<noteq> 0"
  shows "lc.reads tqidx_header (TQIDX_MAGIC @ [TQIDX_VERSION] @ [r] @ le32 sl @ le32 n) (sl, n)"
  unfolding tqidx_header_def [abs_def]
  by (rule lc.reads_bind lc.reads_map lc.reads_ensure lc.tk_reads_n lc_reads assms | simp add: TQIDX_MAGIC_def)+

lemma shard_stream: "list_all2 (\<lambda>s bs. P s \<and> Q s \<and> bs = push_shard s) ss bss \<Longrightarrow>
    list_all P ss \<and> list_all Q ss \<and> concat bss = concat (map push_shard ss)"
  by (induction rule: list_all2_induct) auto

text \<open>C37: reading a manifest succeeds exactly on the buffers that start with the encoding of a manifest
  whose window length is not zero and whose shard names are UTF-8 of at most \<open>u16::MAX\<close> bytes (with any
  reserved byte and any trailing data), and returns that manifest.\<close>
theorem read_tqidx_ok_iff:
  assumes "length bs \<le> usize_MAX"
  shows "read_tqidx bs = Inr \<lparr>seq_len = sl, shards = ss\<rparr> \<longleftrightarrow>
    sl \<noteq> 0 \<and> length ss < 2 ^ 32 \<and>
    list_all (\<lambda>s. utf8_ok (se_name s)) ss \<and> list_all (\<lambda>s. length (se_name s) < 2 ^ 16) ss \<and>
    (\<exists>r tail. bs = TQIDX_MAGIC @ [TQIDX_VERSION] @ [r] @ le32 sl @ le32 (of_nat (length ss))
       @ concat (map push_shard ss) @ tail)" (is "?read \<longleftrightarrow> ?enc")
proof
  assume ?read
  then obtain n c c' where h: "tqidx_header (lc_new bs) = Inr ((sl, n), c)"
    and r: "repeatR (unat n) read_shard c = Inr (ss, c')"
    by (auto simp: read_tqidx_def rbind_eq_Inr)
  obtain r where "sl \<noteq> 0" and c: "lc_inv c"
    and bs: "bs = (TQIDX_MAGIC @ [TQIDX_VERSION] @ [r] @ le32 sl @ le32 n) @ lc_rest c"
    by (rule lc.consumesE [OF tqidx_header_consumes lc_new_start(1) [OF assms] h])
      (auto simp: lc_new_start(2))
  obtain bss where "lc_rest c = concat bss @ lc_rest c'" and len: "length ss = unat n"
    and "list_all2 (\<lambda>s bs. utf8_ok (se_name s) \<and> length (se_name s) < 2 ^ 16 \<and> bs = push_shard s) ss bss"
    by (rule lc.consumesE [OF lc.consumes_repeat [OF read_shard_consumes] c r]) blast
  with shard_stream bs \<open>sl \<noteq> 0\<close> unat32_less [of n] show ?enc by fastforce
next
  assume ?enc
  then obtain r tail where sl: "sl \<noteq> 0" and n: "length ss < 2 ^ 32"
    and ok: "\<And>s. s \<in> set ss \<Longrightarrow> utf8_ok (se_name s) \<and> length (se_name s) < 2 ^ 16"
    and bs: "bs = (TQIDX_MAGIC @ [TQIDX_VERSION] @ [r] @ le32 sl @ le32 (of_nat (length ss)))
      @ concat (map push_shard ss) @ tail"
    by (auto simp: list_all_iff)
  let ?h = "TQIDX_MAGIC @ [TQIDX_VERSION] @ [r] @ le32 sl @ le32 (of_nat (length ss))"
  let ?c = "lc_adv (length ?h) (lc_new bs)"
  have start: "lc_inv (lc_new bs)" "lc_rest (lc_new bs) = ?h @ concat (map push_shard ss) @ tail"
    using lc_new_start assms bs by auto
  have h: "tqidx_header (lc_new bs) = Inr ((sl, of_nat (length ss)), ?c)"
    by (rule lc.readsD [OF tqidx_header_reads [OF sl] start])
  have st: "lc_inv ?c" "lc_rest ?c = concat (map push_shard ss) @ tail"
    using lc.adv_state [OF start] by auto
  have "lc.reads (repeatR (length ss) read_shard) (concat (map push_shard ss)) ss"
    by (rule lc.reads_repeat) (use ok read_shard_reads in blast)
  then have "repeatR (length ss) read_shard ?c = Inr (ss, lc_adv (length (concat (map push_shard ss))) ?c)"
    by (rule lc.readsD [OF _ st])
  moreover have "unat (of_nat (length ss) :: u32) = length ss" using n by (simp add: unat_of_nat)
  ultimately show ?read using h by (simp add: read_tqidx_def)
qed

theorem read_tqidx_ok_iff_witness:
  "read_tqidx (TQIDX_MAGIC @ [1, 0, 8, 0, 0, 0, 1, 0, 0, 0, 1, 0, 0x61, 24, 0, 0, 0, 0, 0, 0, 0])
     = Inr \<lparr>seq_len = 8, shards = [\<lparr>se_name = [0x61], se_n_tokens = 24\<rparr>]\<rparr>"
  by (subst read_tqidx_ok_iff)
    (simp_all add: TQIDX_MAGIC_def TQIDX_VERSION_def usize_MAX_def push_shard_def le_eval)

text \<open>Both writers produce what their reader returns.\<close>
lemma write_tqidx_eq_Inr: "write_tqidx sl ss = Inr bs \<longleftrightarrow>
    sl \<noteq> 0 \<and> list_all (\<lambda>s. length (se_name s) < 2 ^ 16) ss \<and>
    bs = TQIDX_MAGIC @ [TQIDX_VERSION] @ [0] @ le32 sl @ le32 (of_nat (length ss)) @ concat (map push_shard ss)"
proof -
  have "is_ok (mapR (\<lambda>s. ensure (length (se_name s) \<le> 65535) (TqNameTooLong (length (se_name s)))) ss) \<longleftrightarrow>
      list_all (\<lambda>s. length (se_name s) < 2 ^ 16) ss"
    by (auto simp: mapR_is_ok list_all_iff)
  then show ?thesis
    by (auto simp: write_tqidx_def rbind_eq_Inr is_ok_iff)
qed

text \<open>The sample count the loader shuffles over is the sum over the shards of their whole windows,
  capped at \<open>u64::MAX\<close>; a manifest without windows counts none.\<close>
lemma n_samples_sum:
  "n_samples idx = min usize_MAX (\<Sum>s\<leftarrow>shards idx. unat (se_n_tokens s) div unat (seq_len idx))"
proof -
  have "fold (\<lambda>s total. saturating_add total (f s)) ss a = min usize_MAX (a + (\<Sum>s\<leftarrow>ss. f s))"
    if "a \<le> usize_MAX" for f and ss :: "ShardEntry list" and a
    using that
  proof (induction ss arbitrary: a)
    case (Cons s ss)
    then show ?case using Cons.IH [of "saturating_add a (f s)"]
      by (auto simp: saturating_add_def min_def)
  qed simp
  then show ?thesis by (simp add: n_samples_def)
qed

end
