(* ===== verification/Sparse.thy ===== *)
theory Sparse
  imports Rows F32
begin

unbundle bit_operations_syntax

text \<open>
  Sparse residual planes (\<open>tritium-format/src/sparse.rs\<close>): the nonzeros of a TQ2_0 row with its scales, the density
  switch between the two storage forms and the sidecar encoding.  The widening of a scale to f32 is the third-party
  function \<open>f16::to_f32\<close>, a parameter.
\<close>

section \<open>Planes\<close>

definition SPARSE_MAGIC :: bytes where "SPARSE_MAGIC = [0x54, 0x53, 0x53, 0x50]"
definition SPARSE_VERSION :: u8 where "SPARSE_VERSION = 1"
definition SPARSE_HEADER_BYTES :: nat where "SPARSE_HEADER_BYTES = 4 + 1 + 1 + 4 + 4"
definition SIGN_BIT :: u32 where "SIGN_BIT = push_bit 31 1"

record SparsePlane =
  sx_k :: usize
  sx_scales :: "f16 list"
  sx_idx :: "u32 list"
  sx_sign :: "i8 list"

definition nnz :: "SparsePlane \<Rightarrow> usize" where "nnz p = length (sx_idx p)"

definition density :: "SparsePlane \<Rightarrow> f32" where
  "density p = (if sx_k p = 0 then f32_zero else fdiv (f32_of_nat (nnz p)) (f32_of_nat (sx_k p)))"

definition validate_zero_padding :: "bytes \<Rightarrow> usize \<Rightarrow> FormatError + unit" where
  "validate_zero_padding packed k =
    (let used_in_last_block = k mod QK_K in
     if used_in_last_block = 0 then Inr ()
     else
      (let last_block_offset = (num_blocks k - 1) * TQ2_0_BLOCK_BYTES in
       rbind (unpack_tq2_0_block (window last_block_offset TQ2_0_BLOCK_BYTES packed) QK_K) (\<lambda>(trits, scale).
       ensure (\<not> list_ex (\<lambda>t. t \<noteq> ZERO) (drop used_in_last_block trits)) SaltNonZeroPadding)))"

text \<open>The columns of the nonzero trits, in order.\<close>
definition nonzeros :: "trit list \<Rightarrow> nat list" where
  "nonzeros trits = filter (\<lambda>c. get (trits ! c) \<noteq> 0) [0..<length trits]"

definition sparse_from_tq2_0 :: "bytes \<Rightarrow> usize \<Rightarrow> FormatError + SparsePlane" where
  "sparse_from_tq2_0 packed k =
    (if unat SIGN_BIT \<le> k then Inl (SaltRowTooLong k)
     else
      rbind (unpack_tq2_0_row packed k (num_blocks k)) (\<lambda>(trits, scales).
      rbind (validate_zero_padding packed k) (\<lambda>_.
      Inr \<lparr>sx_k = k, sx_scales = scales, sx_idx = map of_nat (nonzeros trits),
           sx_sign = map (\<lambda>c. get (trits ! c)) (nonzeros trits)\<rparr>)))"

fun check_entries :: "usize \<Rightarrow> (u32 \<times> i8) list \<Rightarrow> FormatError + unit" where
  "check_entries k [] = Inr ()"
| "check_entries k ((column, sign) # rest) =
    (if k \<le> unat column then Inl (DecodedOutOfRange (sint column))
     else if sign \<noteq> -1 \<and> sign \<noteq> 1 then Inl (DecodedOutOfRange sign)
     else check_entries k rest)"

definition validate_sparse_plane :: "SparsePlane \<Rightarrow> FormatError + usize" where
  "validate_sparse_plane p =
    (if unat SIGN_BIT \<le> sx_k p then Inl (SaltRowTooLong (sx_k p))
     else let nb = num_blocks (sx_k p) in
       if length (sx_scales p) \<noteq> nb then Inl (WrongBlockLen nb (length (sx_scales p)))
       else if length (sx_idx p) \<noteq> length (sx_sign p) then Inl (WrongBlockLen (length (sx_idx p)) (length (sx_sign p)))
       else if list_ex (\<lambda>(a, b). b \<le> a) (zip (sx_idx p) (tl (sx_idx p))) then Inl SaltNonCanonicalSparseIndices
       else rbind (check_entries (sx_k p) (zip (sx_idx p) (sx_sign p))) (\<lambda>_. Inr nb))"

definition set_trit :: "usize \<Rightarrow> u32 \<times> i8 \<Rightarrow> trit list \<Rightarrow> FormatError + trit list" where
  "set_trit k e trits = (case e of (c, s) \<Rightarrow>
    if k \<le> unat c then Inl (WrongBlockLen k (unat c))
    else rbind (map_err from_TritError (from_i8 s)) (\<lambda>t. Inr (trits[unat c := t])))"

definition sparse_to_tq2_0 :: "SparsePlane \<Rightarrow> FormatError + bytes" where
  "sparse_to_tq2_0 p =
    rbind (validate_sparse_plane p) (\<lambda>nb.
    rbind (foldR (set_trit (sx_k p)) (zip (sx_idx p) (sx_sign p)) (replicate (sx_k p) ZERO)) (\<lambda>trits.
    pack_tq2_0_row trits (sx_scales p) (nb * TQ2_0_BLOCK_BYTES)))"

text \<open>Indexing the scales out of range panics; on the planes the format admits it does not happen.\<close>
definition dequant_sparse_plane :: "(f16 \<Rightarrow> f32) \<Rightarrow> SparsePlane \<Rightarrow> f32 list option" where
  "dequant_sparse_plane to_f32 p =
    (if list_ex (\<lambda>(c, s). unat c < sx_k p \<and> length (sx_scales p) \<le> unat c div QK_K) (zip (sx_idx p) (sx_sign p)) then None
     else Some (fold (\<lambda>(c, s) acc. if unat c < sx_k p
         then acc[unat c := fmul (to_f32 (sx_scales p ! (unat c div QK_K))) (f32_of_int s)] else acc)
       (zip (sx_idx p) (sx_sign p)) (replicate (sx_k p) f32_zero)))"

definition dot_step :: "(f16 \<Rightarrow> f32) \<Rightarrow> f32 list \<Rightarrow> SparsePlane \<Rightarrow> u32 \<times> i8 \<Rightarrow> f32 \<Rightarrow> FormatError fault + f32" where
  "dot_step to_f32 act p e acc = (case e of (c, s) \<Rightarrow>
    if sx_k p \<le> unat c then Inl (Fail (WrongBlockLen (sx_k p) (unat c)))
    else if length (sx_scales p) \<le> unat c div QK_K then Inl Panic
    else Inr (fadd acc (fmul (fmul (act ! unat c) (to_f32 (sx_scales p ! (unat c div QK_K)))) (f32_of_int s))))"

definition sparse_dot :: "(f16 \<Rightarrow> f32) \<Rightarrow> f32 list \<Rightarrow> SparsePlane \<Rightarrow> FormatError fault + f32" where
  "sparse_dot to_f32 act p =
    (if length act < sx_k p then Inl (Fail (WrongBlockLen (sx_k p) (length act)))
     else foldR (dot_step to_f32 act p) (zip (sx_idx p) (sx_sign p)) f32_zero)"

datatype PlaneRepr = Dense bytes | Sparse SparsePlane

definition choose_plane_repr :: "bytes \<Rightarrow> usize \<Rightarrow> f32 \<Rightarrow> FormatError + PlaneRepr" where
  "choose_plane_repr packed k max_density =
    (case sparse_from_tq2_0 packed k of
       Inl SaltNonZeroPadding \<Rightarrow> Inr (Dense packed)
     | Inl e \<Rightarrow> Inl e
     | Inr p \<Rightarrow> if flt (density p) max_density then Inr (Sparse p) else Inr (Dense packed))"

definition expand_plane_repr :: "PlaneRepr \<Rightarrow> FormatError + bytes" where
  "expand_plane_repr r = (case r of Dense bs \<Rightarrow> Inr bs | Sparse p \<Rightarrow> sparse_to_tq2_0 p)"

section \<open>The sidecar encoding\<close>

definition pack_entry :: "usize \<Rightarrow> u32 \<times> i8 \<Rightarrow> FormatError + bytes" where
  "pack_entry k e = (case e of (c, s) \<Rightarrow>
    if k \<le> unat c then Inl (DecodedOutOfRange (sint c))
    else if s = 1 then Inr (le32 c)
    else if s = -1 then Inr (le32 (c OR SIGN_BIT))
    else Inl (DecodedOutOfRange s))"

definition pack_sparse_plane :: "SparsePlane \<Rightarrow> FormatError + bytes" where
  "pack_sparse_plane p =
    (if unat SIGN_BIT \<le> sx_k p then Inl (SaltRowTooLong (sx_k p))
     else
      rbind (validate_sparse_plane p) (\<lambda>nb.
      rbind (mapR (pack_entry (sx_k p)) (zip (sx_idx p) (sx_sign p))) (\<lambda>entries.
      Inr (SPARSE_MAGIC @ [SPARSE_VERSION] @ [0] @ le32 (of_nat (sx_k p)) @ le32 (of_nat (length (sx_idx p)))
           @ concat (map le16 (sx_scales p)) @ concat entries))))"

record SparsePlaneRef =
  sr_k :: usize
  sr_scales :: bytes
  sr_entries :: bytes

definition words32 :: "bytes \<Rightarrow> u32 list" where
  "words32 bs = map (\<lambda>i. un_le32 (window (i * 4) 4 bs)) [0..<length bs div 4]"

fun check_columns :: "usize \<Rightarrow> u32 option \<Rightarrow> u32 list \<Rightarrow> FormatError + unit" where
  "check_columns k previous [] = Inr ()"
| "check_columns k previous (encoded # rest) =
    (let column = encoded AND NOT SIGN_BIT in
     if k \<le> unat column then Inl (DecodedOutOfRange (sint column))
     else if (case previous of None \<Rightarrow> False | Some v \<Rightarrow> column \<le> v) then Inl SaltNonCanonicalSparseIndices
     else check_columns k (Some column) rest)"

text \<open>The four bytes of a little-endian field are indexed one by one in the code, which panics like the slice of them.\<close>
definition sparse_ref_parse :: "bytes \<Rightarrow> FormatError fault + SparsePlaneRef" where
  "sparse_ref_parse bytes =
    (if length bytes < SPARSE_HEADER_BYTES then Inl (Fail (WrongBlockLen SPARSE_HEADER_BYTES (length bytes)))
     else
      rbind (slice_at bytes 0 4) (\<lambda>magic.
      rbind (ensure (magic = SPARSE_MAGIC) (Fail SaltBadMagic)) (\<lambda>_.
      rbind (index_at bytes 4) (\<lambda>version.
      rbind (ensure (version = SPARSE_VERSION) (Fail (UnsupportedSaltVersion version))) (\<lambda>_.
      rbind (slice_at bytes 6 4) (\<lambda>k_bytes.
      let k = unat (un_le32 k_bytes) in
      rbind (ensure (\<not> unat SIGN_BIT \<le> k) (Fail (SaltRowTooLong k))) (\<lambda>_.
      rbind (slice_at bytes 10 4) (\<lambda>n_bytes.
      let n = unat (un_le32 n_bytes); err = Fail (WrongBlockLen usize_MAX (length bytes)) in
      rbind (ok_or (checked_mul (num_blocks k) 2) err) (\<lambda>scale_bytes.
      rbind (ok_or (checked_mul n 4) err) (\<lambda>entry_bytes.
      rbind (ok_or (checked_add SPARSE_HEADER_BYTES scale_bytes) err) (\<lambda>entries_start.
      rbind (ok_or (checked_add entries_start entry_bytes) err) (\<lambda>required.
      rbind (ensure (length bytes = required) (Fail (WrongBlockLen required (length bytes)))) (\<lambda>_.
      rbind (slice_at bytes SPARSE_HEADER_BYTES scale_bytes) (\<lambda>scales.
      rbind (slice_from bytes entries_start) (\<lambda>entries.
      rbind (map_err Fail (check_columns k None (words32 entries))) (\<lambda>_.
      Inr \<lparr>sr_k = k, sr_scales = scales, sr_entries = entries\<rparr>))))))))))))))))"

text \<open>The view of bytes that \<open>parse\<close> has accepted before, without its checks.\<close>
definition sparse_ref_from_validated :: "bytes \<Rightarrow> FormatError fault + SparsePlaneRef" where
  "sparse_ref_from_validated bytes =
    rbind (slice_at bytes 6 4) (\<lambda>k_bytes.
    let k = unat (un_le32 k_bytes); scale_bytes = num_blocks k * 2; entries_start = SPARSE_HEADER_BYTES + scale_bytes in
    rbind (slice_at bytes SPARSE_HEADER_BYTES scale_bytes) (\<lambda>scales.
    rbind (slice_from bytes entries_start) (\<lambda>entries.
    Inr \<lparr>sr_k = k, sr_scales = scales, sr_entries = entries\<rparr>)))"

definition sr_scale_count :: "SparsePlaneRef \<Rightarrow> usize" where "sr_scale_count r = length (sr_scales r) div 2"
definition sr_entry_count :: "SparsePlaneRef \<Rightarrow> usize" where "sr_entry_count r = length (sr_entries r) div 4"

definition sr_scale_list :: "SparsePlaneRef \<Rightarrow> f16 list" where
  "sr_scale_list r = map (\<lambda>i. un_le16 (window (i * 2) 2 (sr_scales r))) [0..<sr_scale_count r]"

definition sr_encoded_entries :: "SparsePlaneRef \<Rightarrow> u32 list" where
  "sr_encoded_entries r = words32 (sr_entries r)"

definition sr_to_owned :: "SparsePlaneRef \<Rightarrow> SparsePlane" where
  "sr_to_owned r = \<lparr>sx_k = sr_k r, sx_scales = sr_scale_list r,
     sx_idx = map (\<lambda>e. e AND NOT SIGN_BIT) (sr_encoded_entries r),
     sx_sign = map (\<lambda>e. if e AND SIGN_BIT \<noteq> 0 then -1 else 1) (sr_encoded_entries r)\<rparr>"

definition unpack_sparse_plane :: "bytes \<Rightarrow> FormatError fault + SparsePlane" where
  "unpack_sparse_plane bytes = rbind (sparse_ref_parse bytes) (\<lambda>r. Inr (sr_to_owned r))"

section \<open>Exact rows\<close>

text \<open>A block codec whose accepted blocks are determined by what they decode to.\<close>
locale exact_codec = block_codec +
  assumes repack: "length bs = W \<Longrightarrow> unpack_block bs B = Inr (ts, s) \<Longrightarrow> pack_block ts s W = Inr bs"
begin

lemma pad_chunk:
  assumes "xs = ts @ replicate m ZERO" "i * B + B \<le> length xs"
  shows "chunk ts i = take B (drop (i * B) xs)"
proof -
  have "take B (drop (i * B) xs) = take B (drop (i * B) ts) @ replicate (min (B - (length ts - i * B)) (m - (i * B - length ts))) ZERO"
    by (simp add: assms(1))
  moreover have "min (B - (length ts - i * B)) (m - (i * B - length ts)) = B - length (take B (drop (i * B) ts))"
    using assms by (auto simp: min_def)
  ultimately show ?thesis by (simp add: chunk_def pad_to_def)
qed

lemma blocks_full:
  assumes "\<And>i. i < nb \<Longrightarrow> length (b i) = B"
  shows "length (concat (map b [0..<nb])) = nb * B"
    and "i < nb \<Longrightarrow> take B (drop (i * B) (concat (map b [0..<nb]))) = b i"
proof -
  have all: "\<And>x. x \<in> set (map b [0..<nb]) \<Longrightarrow> length x = B" using assms by auto
  show "length (concat (map b [0..<nb])) = nb * B" using length_concat_const [of "map b [0..<nb]" B, OF all] by simp
  show "i < nb \<Longrightarrow> take B (drop (i * B) (concat (map b [0..<nb]))) = b i"
    using window_concat_const [of "map b [0..<nb]" B i, OF all] by (simp add: window_def)
qed

lemma row_prefix:
  assumes b: "\<And>i. i < div_ceil k B \<Longrightarrow> length (b i) = B"
  shows "concat (map (\<lambda>i. take (min (i * B + B) k - i * B) (b i)) [0..<div_ceil k B]) = take k (concat (map b [0..<div_ceil k B]))"
proof -
  let ?full = "concat (map b [0..<div_ceil k B])"
  have lk: "length (take k ?full) = k" using blocks_full(1) [OF b] div_ceil_mult_ge [OF B_pos, of k] by simp
  have "take (min (i * B + B) k - i * B) (b i) = take B (drop (i * B) (take k ?full))" if "i < div_ceil k B" for i
  proof -
    have "take B (drop (i * B) (take k ?full)) = take (min (i * B + B) k - i * B) (take B (drop (i * B) ?full))"
      by (auto simp: drop_take min_def)
    then show ?thesis using blocks_full(2) [OF b that] by simp
  qed
  then have eq: "map (\<lambda>i. take (min (i * B + B) k - i * B) (b i)) [0..<div_ceil k B]
      = map (\<lambda>i. take B (drop (i * B) (take k ?full))) [0..<div_ceil k B]" by simp
  show ?thesis unfolding eq using concat_row_chunks [OF B_pos, of "take k ?full"] unfolding lk .
qed

lemma row_padding:
  assumes b: "\<And>i. i < div_ceil k B \<Longrightarrow> length (b i) = B"
    and pad: "\<And>i. i < div_ceil k B \<Longrightarrow> k < i * B + B \<Longrightarrow> drop (k - i * B) (b i) = replicate (i * B + B - k) ZERO"
  shows "drop k (concat (map b [0..<div_ceil k B])) = replicate (div_ceil k B * B - k) ZERO"
proof (cases "k = div_ceil k B * B")
  case True
  then have "length (concat (map b [0..<div_ceil k B])) \<le> k" using blocks_full(1) [of "div_ceil k B" b, OF b] by simp
  then show ?thesis using True by simp
next
  case False
  let ?n = "div_ceil k B" and ?full = "concat (map b [0..<div_ceil k B])"
  have k: "k < ?n * B" using False div_ceil_mult_ge [OF B_pos, of k] by simp
  then have n0: "0 < ?n" by (cases ?n) auto
  have last: "(?n - 1) * B \<le> k" using div_ceil_mult_less [OF B_pos, of k] by (cases "k = 0") (auto simp: B_pos)
  have e: "(?n - 1) * B + B = ?n * B" using n0 by (cases ?n) auto
  have "length (drop ((?n - 1) * B) ?full) \<le> B" using blocks_full(1) [of ?n b, OF b] e by simp
  then have "drop ((?n - 1) * B) ?full = b (?n - 1)" using blocks_full(2) [of ?n b "?n - 1", OF b] n0 by simp
  then have "drop k ?full = drop (k - (?n - 1) * B) (b (?n - 1))" using last by (metis drop_drop le_add_diff_inverse2)
  also have "\<dots> = replicate ((?n - 1) * B + B - k) ZERO" using n0 k e by (intro pad) auto
  finally show ?thesis unfolding e .
qed

text \<open>A row that decodes, and whose blocks decode to zeros behind its end, is what packing the decoded row gives.\<close>
lemma repack_row:
  assumes len: "length bs = nb * W" and nb: "nb = div_ceil k B"
    and un: "unpack_blocks unpack_block B W bs k nb = Inr (ts, scales)"
    and pad: "\<And>i b s. i < nb \<Longrightarrow> unpack_block (window (i * W) W bs) B = Inr (b, s) \<Longrightarrow> k < i * B + B \<Longrightarrow>
       drop (k - i * B) b = replicate (i * B + B - k) ZERO"
  shows "pack_blocks pack_block B W ts scales = Inr bs"
proof -
  let ?w = "\<lambda>i. window (i * W) W bs"
  let ?f = "\<lambda>i. rbind (unpack_block (?w i) B) (\<lambda>(block, scale).
        let start = i * B; e = min (start + B) k in Inr (take (e - start) block, scale))"
  obtain rs where rs: "mapR ?f [0..<nb] = Inr rs" and ts: "ts = concat (map fst rs)" and sc: "scales = map snd rs"
    using un by (auto simp: unpack_blocks_def rbind_eq_Inr)
  have lrs: "length rs = nb" using mapR_length [OF rs] by simp
  define b where "b i = fst (projr (unpack_block (?w i) B))" for i
  have dec: "unpack_block (?w i) B = Inr (b i, scales ! i) \<and> fst (rs ! i) = take (min (i * B + B) k - i * B) (b i)" if "i < nb" for i
  proof -
    have "?f i = Inr (rs ! i)" using rs that lrs by (auto simp: mapR_eq_Inr list_all2_conv_all_nth)
    then show ?thesis using that lrs by (cases "rs ! i") (auto simp: rbind_eq_Inr Let_def sc b_def)
  qed
  have lb: "\<And>i. i < div_ceil k B \<Longrightarrow> length (b i) = B" using dec unpack_length nb by blast
  define full where "full = concat (map b [0..<div_ceil k B])"
  have "map fst rs = map (\<lambda>i. take (min (i * B + B) k - i * B) (b i)) [0..<div_ceil k B]"
    using dec lrs nb by (intro nth_equalityI) auto
  then have "ts = take k full" using row_prefix [of k b, OF lb] by (simp add: ts full_def)
  moreover have "drop k full = replicate (nb * B - k) ZERO"
    unfolding full_def nb using lb dec pad nb by (intro row_padding) blast+
  ultimately have full_ts: "full = ts @ replicate (nb * B - k) ZERO" by (metis append_take_drop_id)
  have "packed (chunk ts i) (scales ! i) = ?w i" if i: "i < nb" for i
  proof -
    have "i * B + B \<le> nb * B" "i * W + W \<le> nb * W" using i mult_le_mono1 [of "Suc i" nb B] mult_le_mono1 [of "Suc i" nb W] by simp_all
    moreover from this have "chunk ts i = b i"
      using pad_chunk [OF full_ts] blocks_full [of nb b] lb i by (simp add: nb full_def)
    ultimately show ?thesis using repack [of "?w i" "b i" "scales ! i"] dec [OF i] len by (simp add: packed_def)
  qed
  then have "map (\<lambda>i. packed (chunk ts i) (scales ! i)) [0..<length scales] = map ?w [0..<nb]" using lrs sc by simp
  then show ?thesis unfolding pack_blocks_ok using concat_windows [OF len] by simp
qed

end

lemma tq2_block_repack:
  assumes len: "length block = 66" and un: "unpack_tq2_0_block block 256 = Inr (ts, s)"
  shows "pack_tq2_0_block ts s 66 = Inr block"
proof -
  let ?qs = "take 64 block"
  have m: "mapR (\<lambda>(c, l, m). decode_trit (int (unat (code2 (?qs ! (c * 32 + m)) l)) - 1))
      [(c, l, m). c \<leftarrow> [0..<2], l \<leftarrow> [0..<4], m \<leftarrow> [0..<32]] = Inr ts" and s: "s = read_scale block"
    using un len by (auto simp: unpack_tq2_0_block_def Let_def rbind_eq_Inr simp del: upt_Suc)
  have "length ts = 256" using mapR_length [OF m] unfolding grid3 by (simp del: upt_Suc)
  moreover have "?qs @ le16 (read_scale block) = block" using len by (simp add: read_scale_def le16_un_le16)
  ultimately show ?thesis using tq2_mapR_repack [OF m] pack_tq2_0_block_ok [of ts s] len s by (simp del: upt_Suc)
qed

interpretation tq2x: exact_codec pack_tq2_0_block unpack_tq2_0_block QK_K TQ2_0_BLOCK_BYTES
  by unfold_locales (use tq2_block_repack in \<open>simp add: block_consts\<close>)

section \<open>The switch loses nothing\<close>

lemma SIGN_BIT_num: "unat SIGN_BIT = 2147483648" "SIGN_BIT = 0x80000000"
  by (simp_all add: SIGN_BIT_def)

lemma last_block_of: "i < num_blocks k \<Longrightarrow> k < i * 256 + 256 \<Longrightarrow> i = num_blocks k - 1 \<and> k mod 256 = k - i * 256 \<and> i * 256 < k"
proof -
  assume i: "i < num_blocks k" and k: "k < i * 256 + 256"
  have lt: "i * 256 < k"
  proof -
    have "k \<noteq> 0" using i by (cases "k = 0") (simp_all add: num_blocks_def)
    then have "(num_blocks k - 1) * 256 < k" using div_ceil_mult_less [of 256 k] by (simp add: num_blocks_def)
    moreover have "i * 256 \<le> (num_blocks k - 1) * 256" using i by simp
    ultimately show ?thesis by linarith
  qed
  have "k div 256 = i" using lt k by auto
  moreover have "num_blocks k = i + 1" using lt k by (auto simp: num_blocks_def div_ceil_def)
  ultimately show ?thesis using lt by (metis diff_add_inverse2 minus_div_mult_eq_mod)
qed

lemma padding_zero:
  assumes v: "validate_zero_padding packed k = Inr ()" and i: "i < num_blocks k" "k < i * 256 + 256"
    and un: "unpack_tq2_0_block (window (i * 66) 66 packed) 256 = Inr (b, s)"
  shows "drop (k - i * 256) b = replicate (i * 256 + 256 - k) ZERO"
proof -
  note l = last_block_of [OF i]
  have "list_all (\<lambda>t. t = ZERO) (drop (k - i * 256) b)"
    using v un l by (auto simp: validate_zero_padding_def Let_def block_consts list_all_iff list_ex_iff split: if_splits)
  moreover have "length (drop (k - i * 256) b) = i * 256 + 256 - k"
    using unpack_tq2_0_block_length [OF un] l by (simp add: block_consts)
  ultimately show ?thesis unfolding list_all_iff by (intro replicate_eqI) blast+
qed

lemma nonzeros_sorted: "sorted_wrt (<) (nonzeros ts)" "set (nonzeros ts) = {c. c < length ts \<and> ts ! c \<noteq> ZERO}"
proof -
  have "get t \<noteq> 0 \<longleftrightarrow> t \<noteq> ZERO" for t by (cases t) simp_all
  then show "set (nonzeros ts) = {c. c < length ts \<and> ts ! c \<noteq> ZERO}" by (auto simp: nonzeros_def)
  show "sorted_wrt (<) (nonzeros ts)" unfolding nonzeros_def by (intro sorted_wrt_filter sorted_wrt_upt)
qed

lemma foldR_set_trit:
  "\<forall>c\<in>set cs. c < k \<Longrightarrow> k \<le> 2147483648 \<Longrightarrow>
   foldR (set_trit k) (zip (map of_nat cs) (map (\<lambda>c. get (ts ! c)) cs)) acc = Inr (fold (\<lambda>c a. a[c := ts ! c]) cs acc)"
proof (induction cs arbitrary: acc)
  case (Cons c cs)
  have "unat (of_nat c :: u32) = c" using Cons.prems by (simp add: unat_of_nat)
  then show ?case using Cons by (simp add: set_trit_def map_err_def)
qed simp

lemma fold_update_length: "length (fold (\<lambda>c a. a[c := ts ! c]) cs acc) = length acc"
  by (induction cs arbitrary: acc) simp_all

lemma fold_update_nth: "j < length acc \<Longrightarrow> fold (\<lambda>c a. a[c := ts ! c]) cs acc ! j = (if j \<in> set cs then ts ! j else acc ! j)"
  by (induction cs arbitrary: acc) (auto simp: nth_list_update)

lemma rebuild_trits: "fold (\<lambda>c a. a[c := ts ! c]) (nonzeros ts) (replicate (length ts) ZERO) = ts"
  by (rule nth_equalityI) (auto simp: fold_update_nth fold_update_length nonzeros_sorted(2))

lemma of_nat_u32_less: "a < b \<Longrightarrow> b < 2147483648 \<Longrightarrow> (of_nat a :: u32) < of_nat b"
  by (simp add: word_less_nat_alt unat_of_nat)

lemma check_entries_ok: "check_entries k es = Inr () \<longleftrightarrow> (\<forall>(c, s)\<in>set es. unat c < k \<and> (s = -1 \<or> s = 1))"
  by (induction k es rule: check_entries.induct) (auto split: if_splits)

lemma ascending_zip: "sorted_wrt (<) (xs :: u32 list) \<Longrightarrow> \<not> list_ex (\<lambda>(a, b). b \<le> a) (zip xs (tl xs))"
proof (induction xs)
  case (Cons x xs)
  then show ?case by (cases xs) (auto simp: list_ex_iff)
qed simp

lemma ascending_map_of_nat: "sorted_wrt (<) cs \<Longrightarrow> \<forall>c\<in>set cs. c < 2147483648 \<Longrightarrow> sorted_wrt (<) (map (of_nat :: nat \<Rightarrow> u32) cs)"
  by (induction cs) (auto intro: of_nat_u32_less)

lemma sparse_of_row:
  assumes k: "k < 2147483648" and ts: "length ts = k" "length scales = num_blocks k"
  defines "p \<equiv> \<lparr>sx_k = k, sx_scales = scales, sx_idx = map of_nat (nonzeros ts), sx_sign = map (\<lambda>c. get (ts ! c)) (nonzeros ts)\<rparr>"
  shows "validate_sparse_plane p = Inr (num_blocks k)" "sparse_to_tq2_0 p = pack_tq2_0_row ts scales (num_blocks k * TQ2_0_BLOCK_BYTES)"
proof -
  have cs: "\<forall>c\<in>set (nonzeros ts). c < k" using nonzeros_sorted(2) ts by auto
  have asc: "\<not> list_ex (\<lambda>(a, b). b \<le> a) (zip (sx_idx p) (tl (sx_idx p)))"
    unfolding p_def using cs k nonzeros_sorted(1) [of ts] by (intro ascending_zip) (auto intro!: ascending_map_of_nat)
  have sg: "get t \<noteq> 0 \<Longrightarrow> get t = -1 \<or> get t = 1" for t by (cases t) simp_all
  have en: "check_entries (sx_k p) (zip (sx_idx p) (sx_sign p)) = Inr ()"
  proof -
    have "unat (of_nat c :: u32) < k \<and> (get (ts ! c) = -1 \<or> get (ts ! c) = 1)" if "c \<in> set (nonzeros ts)" for c
      using that cs k sg [of "ts ! c"] by (auto simp: nonzeros_def unat_of_nat)
    then show ?thesis unfolding check_entries_ok p_def by (auto simp: zip_map_map zip_same_conv_map)
  qed
  show v: "validate_sparse_plane p = Inr (num_blocks k)"
    using asc en k ts by (simp add: validate_sparse_plane_def p_def SIGN_BIT_num)
  show "sparse_to_tq2_0 p = pack_tq2_0_row ts scales (num_blocks k * TQ2_0_BLOCK_BYTES)"
    using v foldR_set_trit [OF cs, of ts "replicate k ZERO"] k rebuild_trits [of ts] ts by (simp add: sparse_to_tq2_0_def p_def)
qed

lemma expand_choose:
  assumes "choose_plane_repr packed k max_density = Inr r"
  shows "expand_plane_repr r = Inr packed"
proof (cases r)
  case (Dense bs)
  then show ?thesis using assms by (auto simp: choose_plane_repr_def expand_plane_repr_def split: sum.splits FormatError.splits if_splits)
next
  case (Sparse p)
  then have "sparse_from_tq2_0 packed k = Inr p" using assms
    by (auto simp: choose_plane_repr_def split: sum.splits FormatError.splits if_splits)
  then obtain ts scales where k: "k < 2147483648" and un: "unpack_tq2_0_row packed k (num_blocks k) = Inr (ts, scales)"
    and v: "validate_zero_padding packed k = Inr ()"
    and p: "p = \<lparr>sx_k = k, sx_scales = scales, sx_idx = map of_nat (nonzeros ts), sx_sign = map (\<lambda>c. get (ts ! c)) (nonzeros ts)\<rparr>"
    by (auto simp: sparse_from_tq2_0_def rbind_eq_Inr SIGN_BIT_num split: if_splits)
  have len: "length packed = num_blocks k * TQ2_0_BLOCK_BYTES"
    and ub: "unpack_blocks unpack_tq2_0_block QK_K TQ2_0_BLOCK_BYTES packed k (num_blocks k) = Inr (ts, scales)"
    using un by (auto simp: unpack_tq2_0_row_def check_row_def Let_def split: if_splits)
  have nb: "num_blocks k = div_ceil k QK_K" by (simp add: num_blocks_def)
  have pk: "pack_blocks pack_tq2_0_block QK_K TQ2_0_BLOCK_BYTES ts scales = Inr packed"
    using len nb ub by (rule tq2x.repack_row) (use padding_zero [OF v] in \<open>simp add: block_consts\<close>)
  have "length ts = k" "length scales = num_blocks k" using tq2.unpack_blocks_length [of packed k ts scales] ub nb by auto
  then show ?thesis using sparse_of_row(2) [OF k] pk
    by (simp add: expand_plane_repr_def Sparse p pack_tq2_0_row_def check_row_def)
qed

text \<open>C17: the density switch is lossless.  For any bytes, row length and threshold, whichever form \<open>choose_plane_repr\<close> picks,
  \<open>expand_plane_repr\<close> gives back the bytes it was given, so the form a plane is stored in cannot change a result.\<close>
theorem plane_switch_lossless:
  assumes "choose_plane_repr packed k max_density = Inr r"
  shows "expand_plane_repr r = Inr packed"
  using assms by (rule expand_choose)

theorem plane_switch_lossless_witness:
  "\<exists>bs r. length bs = 66 \<and> choose_plane_repr bs 256 f32_one = Inr r \<and> expand_plane_repr r = Inr bs"
proof -
  let ?ts = "replicate 255 ZERO @ [POS]"
  have nb: "num_blocks 256 = 1" by (simp add: num_blocks_def div_ceil_def)
  obtain bs where bs: "length bs = 66" "unpack_blocks unpack_tq2_0_block QK_K TQ2_0_BLOCK_BYTES bs 256 1 = Inr (?ts, [0x3C00])"
    using tq2.row_roundtrip [of "[0x3C00]" ?ts] by (auto simp: block_consts div_ceil_def)
  then have "unpack_tq2_0_row bs 256 (num_blocks 256) = Inr (?ts, [0x3C00])"
    by (simp add: unpack_tq2_0_row_def check_row_def nb block_consts)
  then obtain p where "sparse_from_tq2_0 bs 256 = Inr p"
    by (simp add: sparse_from_tq2_0_def SIGN_BIT_num validate_zero_padding_def)
  then obtain r where "choose_plane_repr bs 256 f32_one = Inr r"
    by (cases "flt (density p) f32_one") (simp_all add: choose_plane_repr_def)
  then show ?thesis using plane_switch_lossless [of bs 256 f32_one r] bs(1) by blast
qed

section \<open>The encoding round trip\<close>

definition encode_entry :: "u32 \<times> i8 \<Rightarrow> u32" where
  "encode_entry e = (if snd e = 1 then fst e else fst e OR SIGN_BIT)"

lemma sign_bit_clear: "unat (c :: u32) < 2147483648 \<Longrightarrow> c AND SIGN_BIT = 0 \<and> c AND NOT SIGN_BIT = c \<and>
    (c OR SIGN_BIT) AND NOT SIGN_BIT = c \<and> (c OR SIGN_BIT) AND SIGN_BIT \<noteq> 0"
proof -
  assume c: "unat c < 2147483648"
  have "c < push_bit 31 1" using c SIGN_BIT_num(1) by (simp add: word_less_nat_alt SIGN_BIT_def)
  then have "take_bit 31 c = c" using c by (simp add: word_unat_eq_iff unsigned_take_bit_eq take_bit_nat_eq_self)
  then have hi: "bit c n \<Longrightarrow> n < 31" for n by (metis bit_take_bit_iff)
  have sb: "bit SIGN_BIT n \<longleftrightarrow> n = 31" for n
    unfolding SIGN_BIT_def bit_push_bit_iff bit_1_iff by auto
  show ?thesis
  proof (intro conjI)
    show "c AND SIGN_BIT = 0" by (rule bit_word_eqI) (use hi in \<open>auto simp: bit_and_iff sb\<close>)
    show "c AND NOT SIGN_BIT = c" by (rule bit_word_eqI) (use hi in \<open>auto simp: bit_and_iff bit_not_iff sb\<close>)
    show "(c OR SIGN_BIT) AND NOT SIGN_BIT = c"
      by (rule bit_word_eqI) (use hi in \<open>auto simp: bit_and_iff bit_or_iff bit_not_iff sb\<close>)
    have "bit ((c OR SIGN_BIT) AND SIGN_BIT) 31" by (simp add: bit_and_iff bit_or_iff sb)
    then show "(c OR SIGN_BIT) AND SIGN_BIT \<noteq> 0" by (metis bit_0_eq bot_apply bot_bool_def)
  qed
qed

lemma words32_concat: "words32 (concat (map le32 ws)) = ws"
proof (rule nth_equalityI)
  have w: "\<And>x. x \<in> set (map le32 ws) \<Longrightarrow> length x = 4" by auto
  have len: "length (concat (map le32 ws)) = length ws * 4" using length_concat_const [of "map le32 ws" 4, OF w] by simp
  then show "length (words32 (concat (map le32 ws))) = length ws" by (simp add: words32_def)
  fix i assume "i < length (words32 (concat (map le32 ws)))"
  then have i: "i < length ws" using len by (simp add: words32_def)
  then show "words32 (concat (map le32 ws)) ! i = ws ! i"
    using window_concat_const [of "map le32 ws" 4 i, OF w] len by (simp add: words32_def)
qed

lemma scales_concat: "map (\<lambda>i. un_le16 (window (i * 2) 2 (concat (map le16 hs)))) [0..<length hs] = hs"
proof (rule nth_equalityI)
  have w: "\<And>x. x \<in> set (map le16 hs) \<Longrightarrow> length x = 2" by auto
  fix i assume "i < length (map (\<lambda>i. un_le16 (window (i * 2) 2 (concat (map le16 hs)))) [0..<length hs])"
  then show "map (\<lambda>i. un_le16 (window (i * 2) 2 (concat (map le16 hs)))) [0..<length hs] ! i = hs ! i"
    using window_concat_const [of "map le16 hs" 2 i, OF w] by simp
qed simp

lemma check_columns_ok:
  "sorted_wrt (<) cs \<Longrightarrow> \<forall>c\<in>set cs. unat c < k \<Longrightarrow> (\<forall>v. previous = Some v \<longrightarrow> (\<forall>c\<in>set cs. v < c)) \<Longrightarrow>
   map (\<lambda>e. e AND NOT SIGN_BIT) ws = cs \<Longrightarrow> check_columns k previous ws = Inr ()"
proof (induction ws arbitrary: cs previous)
  case (Cons w ws)
  then obtain c cs' where cs: "cs = c # cs'" "w AND NOT SIGN_BIT = c" "map (\<lambda>e. e AND NOT SIGN_BIT) ws = cs'" by (cases cs) auto
  have "check_columns k (Some c) ws = Inr ()" using Cons.prems cs by (intro Cons.IH [of cs']) auto
  then show ?case using Cons.prems cs by (auto split: option.splits)
qed simp

lemma ascending_of_zip: "\<not> list_ex (\<lambda>(a, b). b \<le> a) (zip xs (tl xs)) \<Longrightarrow> sorted_wrt (<) (xs :: u32 list)"
proof (induction xs)
  case (Cons x xs)
  show ?case
  proof (cases xs)
    case (Cons y ys)
    then have s: "sorted_wrt (<) xs" "x < y" using Cons.IH Cons.prems by auto
    then show ?thesis using Cons by (auto intro: order.strict_trans)
  qed simp
qed simp

lemma sparse_plane_facts:
  assumes "validate_sparse_plane p = Inr nb"
  shows "sx_k p < 2147483648" "length (sx_scales p) = num_blocks (sx_k p)" "length (sx_idx p) = length (sx_sign p)"
    "sorted_wrt (<) (sx_idx p)" "\<forall>(c, s)\<in>set (zip (sx_idx p) (sx_sign p)). unat c < sx_k p \<and> (s = -1 \<or> s = 1)"
  using assms check_entries_ok
  by (auto simp: validate_sparse_plane_def Let_def rbind_eq_Inr SIGN_BIT_num intro: ascending_of_zip split: if_splits)

lemma pack_entries: "\<forall>(c, s)\<in>set es. unat c < k \<and> (s = -1 \<or> s = 1) \<Longrightarrow>
    mapR (pack_entry k) es = Inr (map (\<lambda>e. le32 (encode_entry e)) es)"
  by (rule mapR_map) (auto simp: pack_entry_def encode_entry_def)

lemma entry_fields: "unat c < 2147483648 \<Longrightarrow> s = -1 \<or> s = 1 \<Longrightarrow>
    encode_entry (c, s) AND NOT SIGN_BIT = c \<and> (if encode_entry (c, s) AND SIGN_BIT \<noteq> 0 then -1 else 1) = s"
  using sign_bit_clear [of c] by (auto simp: encode_entry_def)

lemma length_concat_le: "length (concat (map le16 hs)) = length hs * 2" "length (concat (map le32 ws)) = length ws * 4"
proof -
  show "length (concat (map le16 hs)) = length hs * 2" by (induction hs) simp_all
  show "length (concat (map le32 ws)) = length ws * 4" by (induction ws) simp_all
qed

lemma parse_of_facts:
  assumes "length b = 14 + num_blocks k * 2 + n * 4" "window 0 4 b = SPARSE_MAGIC" "b ! 4 = SPARSE_VERSION"
    "unat (un_le32 (window 6 4 b)) = k" "k < 2147483648" "unat (un_le32 (window 10 4 b)) = n"
    "check_columns k None (words32 (drop (14 + num_blocks k * 2) b)) = Inr ()"
  shows "sparse_ref_parse b = Inr \<lparr>sr_k = k, sr_scales = window 14 (num_blocks k * 2) b, sr_entries = drop (14 + num_blocks k * 2) b\<rparr>"
proof -
  have "num_blocks k \<le> k + 255" unfolding num_blocks_def div_ceil_def by simp
  moreover have "n < 2 ^ 32"
  proof -
    have "unat (un_le32 (window 10 4 b)) < 2 ^ LENGTH(32)" by (rule unsigned_less)
    then show ?thesis using assms(6) by simp
  qed
  ultimately show ?thesis using assms
    by (simp add: sparse_ref_parse_def SPARSE_HEADER_BYTES_def SIGN_BIT_num Let_def checked_mul_def checked_add_def usize_MAX_num ok_or_def)
qed

text \<open>The parser on a header followed by its scales and entries.\<close>
lemma parse_parts:
  assumes k: "k < 2147483648" and n: "length ws < 2 ^ 32" and hs: "length hs = num_blocks k"
    and cols: "check_columns k None ws = Inr ()"
  shows "sparse_ref_parse (SPARSE_MAGIC @ [SPARSE_VERSION] @ [0] @ le32 (of_nat k) @ le32 (of_nat (length ws))
      @ concat (map le16 hs) @ concat (map le32 ws))
    = Inr \<lparr>sr_k = k, sr_scales = concat (map le16 hs), sr_entries = concat (map le32 ws)\<rparr>"
proof -
  let ?pre = "SPARSE_MAGIC @ [SPARSE_VERSION] @ [0]" and ?k = "le32 (of_nat k)" and ?n = "le32 (of_nat (length ws))"
  let ?sc = "concat (map le16 hs)" and ?en = "concat (map le32 ws)"
  let ?b = "?pre @ ?k @ ?n @ ?sc @ ?en"
  have pre: "length ?pre = 6" "window 0 4 ?b = SPARSE_MAGIC" "?b ! 4 = SPARSE_VERSION" by (simp_all add: SPARSE_MAGIC_def window_def)
  have f: "window 6 4 ?b = ?k" "window 10 4 ?b = ?n" by (simp_all add: window_def SPARSE_MAGIC_def)
  have u: "unat (of_nat k :: u32) = k" "unat (of_nat (length ws) :: u32) = length ws" using k n by (simp_all add: unat_of_nat)
  have l: "length ?b = 14 + num_blocks k * 2 + length ws * 4" using pre(1) hs by (simp add: length_concat_le)
  have h: "length (?pre @ ?k @ ?n) = 14" using pre(1) by simp
  have lsc: "length ?sc = num_blocks k * 2" using hs length_concat_le(1) [of hs] by simp
  have d: "window 14 (num_blocks k * 2) ?b = ?sc"
    using lsc window_append2 [of "?pre @ ?k @ ?n" 14 "num_blocks k * 2" "?sc @ ?en"] unfolding h by (simp add: window_def)
  have "drop (length (?pre @ ?k @ ?n) + length ?sc) ((?pre @ ?k @ ?n) @ ?sc @ ?en) = ?en" by (simp only: drop_append) simp
  then have e: "drop (14 + num_blocks k * 2) ?b = ?en" unfolding h lsc by simp
  have "check_columns k None (words32 (drop (14 + num_blocks k * 2) ?b)) = Inr ()" unfolding e words32_concat by (rule cols)
  from parse_of_facts [OF l pre(2,3) _ k _ this] show ?thesis unfolding f d e by (simp add: u)
qed

lemma ascending_length: "sorted_wrt (<) (cs :: u32 list) \<Longrightarrow> \<forall>c\<in>set cs. unat c < k \<Longrightarrow> length cs \<le> k"
proof -
  assume s: "sorted_wrt (<) cs" and b: "\<forall>c\<in>set cs. unat c < k"
  have "distinct (map unat cs)" using s by (simp add: strict_sorted_iff distinct_map inj_on_def word_unat_eq_iff)
  then have "length cs = card (set (map unat cs))" by (metis distinct_card length_map)
  also have "\<dots> \<le> card {..<k}" using b by (intro card_mono) auto
  finally show ?thesis by simp
qed

text \<open>Every plane that packs is read back as it was.\<close>
lemma sparse_plane_roundtrip:
  assumes pk: "pack_sparse_plane p = Inr bytes"
  shows "unpack_sparse_plane bytes = Inr p"
proof -
  let ?es = "zip (sx_idx p) (sx_sign p)" and ?k = "sx_k p"
  let ?ws = "map encode_entry ?es"
  obtain nb where v: "validate_sparse_plane p = Inr nb" using pk by (auto simp: pack_sparse_plane_def rbind_eq_Inr split: if_splits)
  note f = sparse_plane_facts [OF v]
  have bytes: "bytes = SPARSE_MAGIC @ [SPARSE_VERSION] @ [0] @ le32 (of_nat ?k) @ le32 (of_nat (length ?ws))
      @ concat (map le16 (sx_scales p)) @ concat (map le32 ?ws)"
    using pk pack_entries [OF f(5)] f(1,3) v by (simp add: pack_sparse_plane_def SIGN_BIT_num comp_def)
  have cols: "\<forall>c\<in>set (sx_idx p). unat c < ?k"
  proof
    fix c assume "c \<in> set (sx_idx p)"
    then obtain i where i: "i < length (sx_idx p)" "c = sx_idx p ! i" by (auto simp: in_set_conv_nth)
    then have "(c, sx_sign p ! i) \<in> set ?es" using f(3) by (auto simp: set_zip)
    then show "unat c < ?k" using f(5) by blast
  qed
  have fields: "encode_entry e AND NOT SIGN_BIT = fst e \<and> (if encode_entry e AND SIGN_BIT \<noteq> 0 then -1 else 1) = snd e" if "e \<in> set ?es" for e
  proof -
    obtain c sg where e: "e = (c, sg)" by (cases e)
    then have "unat c < ?k" "sg = -1 \<or> sg = 1" using that f(5) by blast+
    then show ?thesis using entry_fields [of c sg] f(1) unfolding e by simp
  qed
  have idx: "map (\<lambda>e. e AND NOT SIGN_BIT) ?ws = sx_idx p" "map (\<lambda>e. if e AND SIGN_BIT \<noteq> 0 then -1 else 1) ?ws = sx_sign p"
  proof -
    have "map (\<lambda>e. e AND NOT SIGN_BIT) ?ws = map fst ?es" "map (\<lambda>e. if e AND SIGN_BIT \<noteq> 0 then -1 else 1) ?ws = map snd ?es"
      using fields by auto
    then show "map (\<lambda>e. e AND NOT SIGN_BIT) ?ws = sx_idx p" "map (\<lambda>e. if e AND SIGN_BIT \<noteq> 0 then -1 else 1) ?ws = sx_sign p"
      using f(3) by (simp_all only: map_fst_zip map_snd_zip)
  qed
  have "length ?ws < 2 ^ 32" using ascending_length [OF f(4) cols] f(1,3) by simp
  moreover have "check_columns ?k None ?ws = Inr ()" using f(4) cols _ idx(1) by (rule check_columns_ok) simp
  ultimately have "sparse_ref_parse bytes = Inr \<lparr>sr_k = ?k, sr_scales = concat (map le16 (sx_scales p)), sr_entries = concat (map le32 ?ws)\<rparr>"
    unfolding bytes by (intro parse_parts f(1,2))
  then show ?thesis using idx scales_concat [of "sx_scales p"]
    by (simp add: unpack_sparse_plane_def sr_to_owned_def sr_encoded_entries_def sr_scale_list_def sr_scale_count_def words32_concat length_concat_le del: map_map)
qed

lemma from_validated_parse: "sparse_ref_parse bytes = Inr r \<Longrightarrow> sparse_ref_from_validated bytes = Inr r"
  by (auto simp: sparse_ref_parse_def sparse_ref_from_validated_def Let_def rbind_eq_Inr split: if_splits)

text \<open>The guards of the parser cover its slices.\<close>
lemma sparse_ref_parse_no_panic: "sparse_ref_parse bytes \<noteq> Inl Panic"
  by (auto simp: sparse_ref_parse_def SPARSE_HEADER_BYTES_def Let_def rbind_Panic slice_eq_Panic split: if_splits)

lemma check_columns_facts:
  "check_columns k previous ws = Inr () \<Longrightarrow> sorted_wrt (<) (map (\<lambda>e. e AND NOT SIGN_BIT) ws)
    \<and> (\<forall>e\<in>set ws. unat (e AND NOT SIGN_BIT) < k \<and> (\<forall>v. previous = Some v \<longrightarrow> v < e AND NOT SIGN_BIT))"
proof (induction k previous ws rule: check_columns.induct)
  case (2 k previous e rest)
  then show ?case by (fastforce simp: Let_def split: if_splits option.splits)
qed simp

text \<open>What the parser accepts, taken over as an owned plane, passes the validation of owned planes.\<close>
lemma parsed_plane_validates:
  assumes "sparse_ref_parse bytes = Inr r"
  shows "validate_sparse_plane (sr_to_owned r) = Inr (num_blocks (sr_k r))" "sx_k (sr_to_owned r) = sr_k r"
proof -
  let ?p = "sr_to_owned r"
  have k: "sr_k r < 2147483648" and sc: "length (sr_scales r) = num_blocks (sr_k r) * 2"
    and cols: "check_columns (sr_k r) None (words32 (sr_entries r)) = Inr ()"
    using assms by (auto simp: sparse_ref_parse_def SPARSE_HEADER_BYTES_def Let_def rbind_eq_Inr SIGN_BIT_num split: if_splits)
  note f = check_columns_facts [OF cols]
  have "check_entries (sr_k r) (zip (sx_idx ?p) (sx_sign ?p)) = Inr ()"
    using f unfolding check_entries_ok by (auto simp: sr_to_owned_def sr_encoded_entries_def zip_map_map zip_same_conv_map)
  moreover have "\<not> list_ex (\<lambda>(a, b). b \<le> a) (zip (sx_idx ?p) (tl (sx_idx ?p)))"
    using f by (intro ascending_zip) (simp add: sr_to_owned_def sr_encoded_entries_def)
  ultimately show "validate_sparse_plane ?p = Inr (num_blocks (sr_k r))"
    using k sc by (simp add: validate_sparse_plane_def SIGN_BIT_num) (simp add: sr_to_owned_def sr_scale_list_def sr_scale_count_def)
  show "sx_k ?p = sr_k r" by (simp add: sr_to_owned_def)
qed

end
