(* ===== verification/Salt.thy ===== *)
theory Salt
  imports Sparse
begin

unbundle bit_operations_syntax

text \<open>
  The residual sidecar rows (\<open>tritium-format/src/salt.rs\<close>): rows of several ternary planes in the dense version 1 and the
  progressive version 2, whose residual planes may be sparse.  Every slice and index of the
  reader that is out of range, and every arm it calls unreachable, has the outcome \<^const>\<open>Panic\<close>.
\<close>

section \<open>Rows\<close>

definition SALT_MAGIC :: bytes where "SALT_MAGIC = [0x54, 0x53, 0x4C, 0x54]"
definition SALT_VERSION :: u8 where "SALT_VERSION = 1"
definition SALT_PROGRESSIVE_VERSION :: u8 where "SALT_PROGRESSIVE_VERSION = 2"
definition SALT_HEADER_BYTES :: nat where "SALT_HEADER_BYTES = 4 + 1 + 1 + 4"
definition PLANE_TAG_DENSE :: u8 where "PLANE_TAG_DENSE = 0"
definition PLANE_TAG_SPARSE :: u8 where "PLANE_TAG_SPARSE = 1"
definition PLANE_DESCRIPTOR_BYTES :: nat where "PLANE_DESCRIPTOR_BYTES = 1 + 4"
definition u32_MAX :: nat where "u32_MAX = 2 ^ 32 - 1"

record SaltRow =
  sl_k :: usize
  sl_planes :: "bytes list"

record PackedSaltRow =
  ps_k :: usize
  ps_planes :: "PlaneRepr list"

definition plane_bytes_of :: "usize \<Rightarrow> usize" where
  "plane_bytes_of k = num_blocks k * TQ2_0_BLOCK_BYTES"

definition validate_dense_plane :: "bytes \<Rightarrow> usize \<Rightarrow> FormatError + unit" where
  "validate_dense_plane payload expected_len =
    (if length payload \<noteq> expected_len then Inl (WrongBlockLen expected_len (length payload))
     else ensure (\<not> list_ex (\<lambda>i. list_ex (\<lambda>p. list_ex (\<lambda>shift. drop_bit shift p AND 3 = 3) [0, 2, 4, 6])
         (take (QK_K div 4) (window (i * TQ2_0_BLOCK_BYTES) TQ2_0_BLOCK_BYTES payload)))
       [0..<length payload div TQ2_0_BLOCK_BYTES]) (DecodedOutOfRange 2))"

definition validate_salt_row :: "SaltRow \<Rightarrow> FormatError + usize" where
  "validate_salt_row row =
    (if 255 < length (sl_planes row) then Inl (SaltTooManyPlanes (length (sl_planes row)))
     else if u32_MAX < sl_k row then Inl (SaltRowTooLong (sl_k row))
     else let plane_bytes = plane_bytes_of (sl_k row) in
       rbind (foldR (\<lambda>plane _. validate_dense_plane plane plane_bytes) (sl_planes row) ()) (\<lambda>_. Inr plane_bytes))"

definition check_repr :: "usize \<Rightarrow> usize \<Rightarrow> PlaneRepr \<Rightarrow> FormatError + unit" where
  "check_repr k plane_bytes plane = (case plane of
     Dense bs \<Rightarrow> validate_dense_plane bs plane_bytes
   | Sparse p \<Rightarrow>
       if sx_k p \<noteq> k then Inl (WrongBlockLen k (sx_k p))
       else rbind (validate_sparse_plane p) (\<lambda>_. Inr ()))"

definition packed_salt_row_new :: "usize \<Rightarrow> PlaneRepr list \<Rightarrow> FormatError + PackedSaltRow" where
  "packed_salt_row_new k planes =
    (if 255 < length planes then Inl (SaltTooManyPlanes (length planes))
     else if u32_MAX < k then Inl (SaltRowTooLong k)
     else if (case planes of Sparse _ # _ \<Rightarrow> True | _ \<Rightarrow> False) then Inl SaltSparseBasePlane
     else
      rbind (ok_or (checked_mul (num_blocks k) TQ2_0_BLOCK_BYTES) (WrongBlockLen usize_MAX k)) (\<lambda>plane_bytes.
      rbind (foldR (\<lambda>plane _. check_repr k plane_bytes plane) planes ()) (\<lambda>_.
      Inr \<lparr>ps_k = k, ps_planes = planes\<rparr>)))"

definition packed_of_salt_row :: "SaltRow \<Rightarrow> FormatError + PackedSaltRow" where
  "packed_of_salt_row row = packed_salt_row_new (sl_k row) (map Dense (sl_planes row))"

definition sparse_plane_count :: "PackedSaltRow \<Rightarrow> nat" where
  "sparse_plane_count r = length (filter (\<lambda>p. case p of Sparse _ \<Rightarrow> True | Dense _ \<Rightarrow> False) (ps_planes r))"

definition repr_payload_bytes :: "PlaneRepr \<Rightarrow> nat" where
  "repr_payload_bytes plane = (case plane of
     Dense bs \<Rightarrow> length bs
   | Sparse p \<Rightarrow> saturating_add (saturating_add (saturating_mul (length (sx_scales p)) 2) (saturating_mul (length (sx_idx p)) 4))
       (saturating_mul (length (sx_sign p)) 1))"

definition resident_payload_bytes :: "PackedSaltRow \<Rightarrow> nat" where
  "resident_payload_bytes r = fold (\<lambda>plane tot. saturating_add tot (repr_payload_bytes plane)) (ps_planes r) 0"

definition to_dense :: "PackedSaltRow \<Rightarrow> FormatError + SaltRow" where
  "to_dense r = rbind (mapR expand_plane_repr (ps_planes r)) (\<lambda>planes. Inr \<lparr>sl_k = ps_k r, sl_planes = planes\<rparr>)"

definition into_dense :: "PackedSaltRow \<Rightarrow> FormatError + SaltRow" where
  "into_dense r = rbind (mapR (\<lambda>plane. case plane of Dense bs \<Rightarrow> Inr bs | Sparse p \<Rightarrow> sparse_to_tq2_0 p) (ps_planes r)) (\<lambda>planes.
     Inr \<lparr>sl_k = ps_k r, sl_planes = planes\<rparr>)"

section \<open>Writers\<close>

definition pack_salt_row :: "SaltRow \<Rightarrow> FormatError + bytes" where
  "pack_salt_row row =
    rbind (validate_salt_row row) (\<lambda>_.
    Inr (SALT_MAGIC @ [SALT_VERSION] @ [of_nat (length (sl_planes row))] @ le32 (of_nat (sl_k row)) @ concat (sl_planes row)))"

definition encode_plane :: "usize \<Rightarrow> usize \<Rightarrow> f32 \<Rightarrow> nat \<times> bytes \<Rightarrow> FormatError + u8 \<times> bytes" where
  "encode_plane k plane_bytes max_density ip = (case ip of (index, plane) \<Rightarrow>
    if index = 0 then Inr (PLANE_TAG_DENSE, plane)
    else rbind (choose_plane_repr plane k max_density) (\<lambda>repr. case repr of
      Dense bs \<Rightarrow> Inr (PLANE_TAG_DENSE, bs)
    | Sparse p \<Rightarrow> rbind (pack_sparse_plane p) (\<lambda>bs.
        if length bs < plane_bytes then Inr (PLANE_TAG_SPARSE, bs) else Inr (PLANE_TAG_DENSE, plane))))"

definition descriptor :: "u8 \<times> bytes \<Rightarrow> FormatError + bytes" where
  "descriptor tp = (case tp of (tag, bs) \<Rightarrow>
    if u32_MAX < length bs then Inl (WrongBlockLen u32_MAX (length bs)) else Inr ([tag] @ le32 (of_nat (length bs))))"

definition pack_progressive_salt_row :: "SaltRow \<Rightarrow> f32 \<Rightarrow> FormatError + bytes" where
  "pack_progressive_salt_row row max_sparse_density =
    (if \<not> f32_is_finite max_sparse_density \<or> \<not> (fle f32_zero max_sparse_density \<and> fle max_sparse_density f32_one)
     then Inl InvalidSparseDensity
     else
      rbind (validate_salt_row row) (\<lambda>plane_bytes.
      rbind (mapR (encode_plane (sl_k row) plane_bytes max_sparse_density) (List.enumerate 0 (sl_planes row))) (\<lambda>encoded.
      rbind (ok_or (checked_mul (length encoded) PLANE_DESCRIPTOR_BYTES) (SaltTooManyPlanes (length encoded))) (\<lambda>descriptor_bytes.
      rbind (foldR (\<lambda>(_, bs) tot. ok_or (checked_add tot (length bs)) (WrongBlockLen usize_MAX tot)) encoded 0) (\<lambda>payload_bytes.
      rbind (ok_or (Option.bind (checked_add SALT_HEADER_BYTES descriptor_bytes) (\<lambda>n. checked_add n payload_bytes))
               (WrongBlockLen usize_MAX payload_bytes)) (\<lambda>_.
      rbind (mapR descriptor encoded) (\<lambda>descriptors.
      Inr (SALT_MAGIC @ [SALT_PROGRESSIVE_VERSION] @ [of_nat (length encoded)] @ le32 (of_nat (sl_k row))
           @ concat descriptors @ concat (map snd encoded)))))))))"

section \<open>The reader\<close>

record SaltRowLayout =
  ly_version :: u8
  ly_planes :: usize
  ly_k :: usize
  ly_plane_bytes :: usize
  ly_payload_start :: usize
  ly_encoded_len :: usize

definition read_plane_descriptor :: "bytes \<Rightarrow> nat \<Rightarrow> FormatError fault + u8 \<times> usize" where
  "read_plane_descriptor bytes index =
    (let offset = SALT_HEADER_BYTES + index * PLANE_DESCRIPTOR_BYTES in
     rbind (slice_at bytes (offset + 1) 4) (\<lambda>len.
     rbind (index_at bytes offset) (\<lambda>tag. Inr (tag, unat (un_le32 len)))))"

definition read_header :: "bytes \<Rightarrow> FormatError fault + u8 \<times> usize \<times> usize" where
  "read_header bytes =
    (if length bytes < SALT_HEADER_BYTES then Inl (Fail (WrongBlockLen SALT_HEADER_BYTES (length bytes)))
     else
      rbind (slice_at bytes 0 4) (\<lambda>magic.
      rbind (ensure (magic = SALT_MAGIC) (Fail SaltBadMagic)) (\<lambda>_.
      rbind (index_at bytes 4) (\<lambda>version.
      rbind (index_at bytes 5) (\<lambda>planes.
      rbind (slice_at bytes 6 4) (\<lambda>k.
      Inr (version, unat planes, unat (un_le32 k))))))))"

definition validate_plane_tag :: "u8 \<Rightarrow> nat \<Rightarrow> FormatError + unit" where
  "validate_plane_tag tag index =
    (if tag = PLANE_TAG_DENSE then Inr ()
     else if tag = PLANE_TAG_SPARSE then (if index = 0 then Inl SaltSparseBasePlane else Inr ())
     else Inl (SaltInvalidPlaneTag tag))"

definition desc_step :: "bytes \<Rightarrow> FormatError \<Rightarrow> nat \<Rightarrow> nat \<Rightarrow> FormatError fault + nat" where
  "desc_step bytes e index payload_bytes =
    rbind (read_plane_descriptor bytes index) (\<lambda>(tag, len).
    rbind (map_err Fail (validate_plane_tag tag index)) (\<lambda>_. ok_or (checked_add payload_bytes len) (Fail e)))"

definition parse_salt_row_layout :: "bytes \<Rightarrow> FormatError fault + SaltRowLayout" where
  "parse_salt_row_layout bytes =
    rbind (read_header bytes) (\<lambda>(version, planes, k).
    let err = Fail (WrongBlockLen usize_MAX (length bytes)) in
    rbind (ok_or (checked_mul (num_blocks k) TQ2_0_BLOCK_BYTES) err) (\<lambda>plane_bytes.
    rbind
      (if version = SALT_VERSION then
        rbind (ok_or (checked_mul planes plane_bytes) err) (\<lambda>payload_bytes.
        rbind (ok_or (checked_add SALT_HEADER_BYTES payload_bytes) err) (\<lambda>encoded_len.
        Inr (SALT_HEADER_BYTES, encoded_len)))
       else if version = SALT_PROGRESSIVE_VERSION then
        rbind (ok_or (checked_mul planes PLANE_DESCRIPTOR_BYTES) err) (\<lambda>descriptor_bytes.
        rbind (ok_or (checked_add SALT_HEADER_BYTES descriptor_bytes) err) (\<lambda>payload_start.
        rbind (ensure (payload_start \<le> length bytes) (Fail (WrongBlockLen payload_start (length bytes)))) (\<lambda>_.
        rbind (foldR (desc_step bytes (WrongBlockLen usize_MAX (length bytes))) [0..<planes] 0) (\<lambda>payload_bytes.
        rbind (ok_or (checked_add payload_start payload_bytes) err) (\<lambda>encoded_len.
        Inr (payload_start, encoded_len))))))
       else Inl (Fail (UnsupportedSaltVersion version))) (\<lambda>(payload_start, encoded_len).
    rbind (ensure (encoded_len \<le> length bytes) (Fail (WrongBlockLen encoded_len (length bytes)))) (\<lambda>_.
    Inr \<lparr>ly_version = version, ly_planes = planes, ly_k = k, ly_plane_bytes = plane_bytes, ly_payload_start = payload_start,
         ly_encoded_len = encoded_len\<rparr>))))"

definition packed_salt_row_len :: "bytes \<Rightarrow> FormatError fault + usize" where
  "packed_salt_row_len bytes = rbind (parse_salt_row_layout bytes) (\<lambda>l. Inr (ly_encoded_len l))"

definition plane_desc :: "bytes \<Rightarrow> SaltRowLayout \<Rightarrow> nat \<Rightarrow> FormatError fault + u8 \<times> usize" where
  "plane_desc bytes l index =
    (if ly_version l = SALT_VERSION then Inr (PLANE_TAG_DENSE, ly_plane_bytes l) else read_plane_descriptor bytes index)"

definition check_payload :: "SaltRowLayout \<Rightarrow> u8 \<Rightarrow> bytes \<Rightarrow> FormatError fault + unit" where
  "check_payload l tag payload =
    (if tag = PLANE_TAG_DENSE then map_err Fail (validate_dense_plane payload (ly_plane_bytes l))
     else rbind (sparse_ref_parse payload) (\<lambda>r. ensure (sr_k r = ly_k l) (Fail (WrongBlockLen (ly_k l) (sr_k r)))))"

definition check_plane :: "bytes \<Rightarrow> SaltRowLayout \<Rightarrow> nat \<Rightarrow> nat \<Rightarrow> FormatError fault + nat" where
  "check_plane bytes l index payload_offset =
    rbind (plane_desc bytes l index) (\<lambda>(tag, len).
    rbind (slice_at bytes payload_offset len) (\<lambda>payload.
    rbind (check_payload l tag payload) (\<lambda>_.
    Inr (payload_offset + len))))"

record PackedSaltRowRef =
  pr_bytes :: bytes
  pr_layout :: SaltRowLayout

definition salt_row_ref_parse :: "bytes \<Rightarrow> FormatError fault + PackedSaltRowRef" where
  "salt_row_ref_parse bytes =
    rbind (parse_salt_row_layout bytes) (\<lambda>l.
    rbind (ensure (length bytes = ly_encoded_len l) (Fail (WrongBlockLen (ly_encoded_len l) (length bytes)))) (\<lambda>_.
    rbind (foldR (check_plane bytes l) [0..<ly_planes l] (ly_payload_start l)) (\<lambda>_.
    Inr \<lparr>pr_bytes = bytes, pr_layout = l\<rparr>)))"

datatype PackedSaltPlaneRef = DenseRef bytes | SparseRef SparsePlaneRef

record PackedSaltPlaneRefs =
  it_row :: PackedSaltRowRef
  it_index :: usize
  it_payload_offset :: usize

definition row_planes :: "PackedSaltRowRef \<Rightarrow> PackedSaltPlaneRefs" where
  "row_planes row = \<lparr>it_row = row, it_index = 0, it_payload_offset = ly_payload_start (pr_layout row)\<rparr>"

definition plane_ref :: "u8 \<Rightarrow> bytes \<Rightarrow> FormatError fault + PackedSaltPlaneRef" where
  "plane_ref tag payload =
    (if tag = PLANE_TAG_DENSE then Inr (DenseRef payload)
     else if tag = PLANE_TAG_SPARSE then
       rbind (sparse_ref_from_validated payload) (\<lambda>r. Inr (SparseRef r))
     else Inl Panic)"

definition plane_next ::
  "PackedSaltPlaneRefs \<Rightarrow> FormatError fault + (PackedSaltPlaneRef \<times> PackedSaltPlaneRefs) option" where
  "plane_next it =
    (let bytes = pr_bytes (it_row it); l = pr_layout (it_row it) in
     if it_index it = ly_planes l then Inr None
     else
      rbind (plane_desc bytes l (it_index it)) (\<lambda>(tag, len).
      rbind (slice_at bytes (it_payload_offset it) len) (\<lambda>payload.
      rbind (plane_ref tag payload) (\<lambda>p.
      Inr (Some (p, it\<lparr>it_index := it_index it + 1, it_payload_offset := it_payload_offset it + len\<rparr>))))))"

definition own_plane :: "PackedSaltPlaneRef \<Rightarrow> PlaneRepr" where
  "own_plane p = (case p of DenseRef bs \<Rightarrow> Dense bs | SparseRef r \<Rightarrow> Sparse (sr_to_owned r))"

text \<open>The loop over the first planes of the iterator, each taken over as an owned plane.\<close>
fun take_planes :: "nat \<Rightarrow> PackedSaltPlaneRefs \<Rightarrow> FormatError fault + PlaneRepr list" where
  "take_planes 0 it = Inr []"
| "take_planes (Suc n) it = rbind (plane_next it) (\<lambda>x. case x of
     None \<Rightarrow> Inr []
   | Some (p, it') \<Rightarrow> rbind (take_planes n it') (\<lambda>ps. Inr (own_plane p # ps)))"

definition unpack_packed_salt_row_prefix :: "bytes \<Rightarrow> nat \<Rightarrow> FormatError fault + PackedSaltRow" where
  "unpack_packed_salt_row_prefix bytes max_planes =
    rbind (salt_row_ref_parse bytes) (\<lambda>row.
    let keep = min (ly_planes (pr_layout row)) max_planes in
    rbind (take_planes keep (row_planes row)) (\<lambda>planes.
    Inr \<lparr>ps_k = ly_k (pr_layout row), ps_planes = planes\<rparr>))"

definition unpack_packed_salt_row :: "bytes \<Rightarrow> FormatError fault + PackedSaltRow" where
  "unpack_packed_salt_row bytes = unpack_packed_salt_row_prefix bytes usize_MAX"

definition unpack_salt_row_prefix :: "bytes \<Rightarrow> nat \<Rightarrow> FormatError fault + SaltRow" where
  "unpack_salt_row_prefix bytes max_planes =
    rbind (unpack_packed_salt_row_prefix bytes max_planes) (\<lambda>row. map_err Fail (into_dense row))"

definition unpack_salt_row :: "bytes \<Rightarrow> FormatError fault + SaltRow" where
  "unpack_salt_row bytes = unpack_salt_row_prefix bytes usize_MAX"

definition read_legacy_as_salt :: "bytes \<Rightarrow> usize \<Rightarrow> FormatError + SaltRow" where
  "read_legacy_as_salt tq2_row k =
    (let plane_bytes = num_blocks k * TQ2_0_BLOCK_BYTES in
     if length tq2_row \<noteq> plane_bytes then Inl (WrongBlockLen plane_bytes (length tq2_row))
     else Inr \<lparr>sl_k = k, sl_planes = [tq2_row]\<rparr>)"

section \<open>Dequantization\<close>

definition add_plane :: "(f16 \<Rightarrow> f32) \<Rightarrow> usize \<Rightarrow> bytes \<Rightarrow> f32 list \<Rightarrow> FormatError + f32 list" where
  "add_plane to_f32 k plane acc =
    rbind (unpack_tq2_0_row plane k (num_blocks k)) (\<lambda>(trits, scales).
    Inr (map (\<lambda>i. fadd (acc ! i) (fmul (to_f32 (scales ! (i div QK_K))) (trit_to_f32 (trits ! i)))) [0..<length trits]))"

definition dequant_salt_row :: "(f16 \<Rightarrow> f32) \<Rightarrow> SaltRow \<Rightarrow> FormatError + f32 list" where
  "dequant_salt_row to_f32 row = foldR (add_plane to_f32 (sl_k row)) (sl_planes row) (replicate (sl_k row) f32_zero)"

definition salt_rows_to_dense :: "(f16 \<Rightarrow> f32) \<Rightarrow> SaltRow list \<Rightarrow> FormatError + f32 list" where
  "salt_rows_to_dense to_f32 rows = rbind (mapR (dequant_salt_row to_f32) rows) (\<lambda>outs. Inr (concat outs))"

section \<open>The planes of a layout\<close>

definition desc_of :: "bytes \<Rightarrow> SaltRowLayout \<Rightarrow> nat \<Rightarrow> u8 \<times> usize" where
  "desc_of bytes l i = (if ly_version l = SALT_VERSION then (PLANE_TAG_DENSE, ly_plane_bytes l)
     else (bytes ! (10 + i * 5), unat (un_le32 (window (11 + i * 5) 4 bytes))))"

definition plane_off :: "bytes \<Rightarrow> SaltRowLayout \<Rightarrow> nat \<Rightarrow> nat" where
  "plane_off bytes l i = ly_payload_start l + (\<Sum>j<i. snd (desc_of bytes l j))"

definition plane_at :: "bytes \<Rightarrow> SaltRowLayout \<Rightarrow> nat \<Rightarrow> bytes" where
  "plane_at bytes l i = window (plane_off bytes l i) (snd (desc_of bytes l i)) bytes"

definition layout_ok :: "bytes \<Rightarrow> SaltRowLayout \<Rightarrow> bool" where
  "layout_ok bytes l \<longleftrightarrow> ly_k l \<le> u32_MAX \<and> ly_planes l \<le> 255 \<and> ly_plane_bytes l = num_blocks (ly_k l) * TQ2_0_BLOCK_BYTES
    \<and> (\<forall>i<ly_planes l. plane_desc bytes l i = Inr (desc_of bytes l i) \<and> validate_plane_tag (fst (desc_of bytes l i)) i = Inr ())
    \<and> ly_encoded_len l = plane_off bytes l (ly_planes l) \<and> ly_encoded_len l \<le> length bytes"

lemmas salt_consts = SALT_HEADER_BYTES_def PLANE_DESCRIPTOR_BYTES_def SALT_VERSION_def SALT_PROGRESSIVE_VERSION_def
  PLANE_TAG_DENSE_def PLANE_TAG_SPARSE_def u32_MAX_def

lemma plane_off_Suc [simp]: "plane_off bytes l (Suc i) = plane_off bytes l i + snd (desc_of bytes l i)"
  by (simp add: plane_off_def)

lemma plane_off_0 [simp]: "plane_off bytes l 0 = ly_payload_start l"
  by (simp add: plane_off_def)

lemma plane_off_mono: "i \<le> j \<Longrightarrow> plane_off bytes l i \<le> plane_off bytes l j"
  unfolding plane_off_def by (intro add_left_mono sum_mono2) auto

lemma read_descriptor_ok:
  "11 + i * 5 + 4 \<le> length bytes \<Longrightarrow>
   read_plane_descriptor bytes i = Inr (bytes ! (10 + i * 5), unat (un_le32 (window (11 + i * 5) 4 bytes)))"
  by (simp add: read_plane_descriptor_def salt_consts)

lemma descriptor_fold:
  assumes "\<And>i. i < n \<Longrightarrow> read_plane_descriptor bytes i = Inr (D i)"
  shows "foldR (desc_step bytes e) [0..<n] 0 \<noteq> Inl Panic \<and>
    (\<forall>t. foldR (desc_step bytes e) [0..<n] 0 = Inr t \<longleftrightarrow> t = (\<Sum>j<n. snd (D j)) \<and> (\<Sum>j<n. snd (D j)) \<le> usize_MAX
       \<and> (\<forall>j<n. validate_plane_tag (fst (D j)) j = Inr ()))"
  using assms
proof (induction n)
  case (Suc n)
  have IH: "foldR (desc_step bytes e) [0..<n] 0 \<noteq> Inl Panic"
    "\<And>t. foldR (desc_step bytes e) [0..<n] 0 = Inr t \<longleftrightarrow> t = (\<Sum>j<n. snd (D j)) \<and> (\<Sum>j<n. snd (D j)) \<le> usize_MAX
       \<and> (\<forall>j<n. validate_plane_tag (fst (D j)) j = Inr ())" using Suc.IH Suc.prems by simp_all
  have fn: "desc_step bytes e n u = rbind (map_err Fail (validate_plane_tag (fst (D n)) n)) (\<lambda>_. ok_or (checked_add u (snd (D n))) (Fail e))"
    for u using Suc.prems [of n] by (simp add: desc_step_def split: prod.splits)
  have step: "foldR (desc_step bytes e) [0..<Suc n] 0 = rbind (foldR (desc_step bytes e) [0..<n] 0) (desc_step bytes e n)"
    by (simp add: foldR_append) (cases "foldR (desc_step bytes e) [0..<n] 0"; simp split: sum.splits)
  have "foldR (desc_step bytes e) [0..<Suc n] 0 \<noteq> Inl Panic"
    unfolding step rbind_Panic using IH(1) by (auto simp: fn rbind_Panic)
  moreover have "foldR (desc_step bytes e) [0..<Suc n] 0 = Inr t \<longleftrightarrow> t = (\<Sum>j<Suc n. snd (D j)) \<and> (\<Sum>j<Suc n. snd (D j)) \<le> usize_MAX
       \<and> (\<forall>j<Suc n. validate_plane_tag (fst (D j)) j = Inr ())" for t
    unfolding step rbind_eq_Inr IH(2) by (auto simp: fn rbind_eq_Inr ok_or_def checked_add_def less_Suc_eq split: option.splits if_splits)
  ultimately show ?case by blast
qed simp

lemma u8_nat: "unat (b :: u8) \<le> 255" and u32_nat: "unat (w :: u32) \<le> u32_MAX"
proof -
  have "unat b < 256" using unsigned_less [of b] by simp
  then show "unat b \<le> 255" by linarith
  have "unat w < 4294967296" using unsigned_less [of w] by simp
  moreover have "u32_MAX = 4294967295" by (simp add: u32_MAX_def)
  ultimately show "unat w \<le> u32_MAX" by linarith
qed

lemma descriptors_read:
  assumes "10 + n * 5 \<le> length bytes" "i < n"
  shows "read_plane_descriptor bytes i = Inr (bytes ! (10 + i * 5), unat (un_le32 (window (11 + i * 5) 4 bytes)))"
proof -
  have "Suc i * 5 \<le> n * 5" using assms(2) by (intro mult_le_mono1) simp
  then show ?thesis using assms(1) by (intro read_descriptor_ok) simp
qed

lemma read_header_no_panic: "read_header bytes \<noteq> Inl Panic"
  by (auto simp: read_header_def salt_consts rbind_Panic slice_eq_Panic)

lemma check_payload_no_panic: "check_payload l tag payload \<noteq> Inl Panic"
  by (auto simp: check_payload_def rbind_Panic sparse_ref_parse_no_panic)

lemma layout_no_panic: "parse_salt_row_layout bytes \<noteq> Inl Panic"
proof -
  have "foldR (desc_step bytes e) [0..<n] 0 \<noteq> Inl Panic" if "10 + n * 5 \<le> length bytes" for n e
    using descriptor_fold [of n bytes _ e, OF descriptors_read [OF that]] by simp
  then show ?thesis by (auto simp: parse_salt_row_layout_def Let_def rbind_Panic read_header_no_panic salt_consts split: if_splits prod.splits)
qed

lemma layout_parse:
  assumes "parse_salt_row_layout bytes = Inr l"
  shows "layout_ok bytes l"
proof -
  obtain version planes k where h: "read_header bytes = Inr (version, planes, k)"
    using assms by (auto simp: parse_salt_row_layout_def rbind_eq_Inr)
  then have b: "k \<le> u32_MAX" "planes \<le> 255"
    using u8_nat u32_nat by (auto simp: read_header_def rbind_eq_Inr split: if_splits)
  consider (v1) "version = 1" | (v2) "version = 2" "version \<noteq> 1"
    using assms h by (auto simp: parse_salt_row_layout_def rbind_eq_Inr Let_def salt_consts split: if_splits)
  then show ?thesis
  proof cases
    case v1
    then show ?thesis using assms h b
      by (auto simp: parse_salt_row_layout_def rbind_eq_Inr Let_def salt_consts layout_ok_def plane_desc_def desc_of_def plane_off_def
          validate_plane_tag_def ok_or_def split: option.splits)
  next
    case v2
    let ?D = "\<lambda>i. (bytes ! (10 + i * 5), unat (un_le32 (window (11 + i * 5) 4 bytes)))"
    obtain t where t: "10 + planes * 5 \<le> length bytes"
      "foldR (desc_step bytes (WrongBlockLen usize_MAX (length bytes))) [0..<planes] 0 = Inr t"
      "l = \<lparr>ly_version = 2, ly_planes = planes, ly_k = k, ly_plane_bytes = num_blocks k * TQ2_0_BLOCK_BYTES,
        ly_payload_start = 10 + planes * 5, ly_encoded_len = 10 + planes * 5 + t\<rparr>" "10 + planes * 5 + t \<le> length bytes"
      using assms h v2 by (auto simp: parse_salt_row_layout_def rbind_eq_Inr Let_def salt_consts ok_or_def split: option.splits)
    note rd = descriptors_read [OF t(1)]
    have "t = (\<Sum>j<planes. snd (?D j))" "\<And>j. j < planes \<Longrightarrow> validate_plane_tag (fst (?D j)) j = Inr ()"
      using descriptor_fold [of planes bytes ?D, OF rd] t(2) by blast+
    then show ?thesis using b t(3,4) rd
      by (auto simp: layout_ok_def plane_desc_def desc_of_def plane_off_def salt_consts)
  qed
qed

section \<open>The reader on a layout\<close>

lemma slice_plane:
  assumes "layout_ok bytes l" "i < ly_planes l"
  shows "slice_at bytes (plane_off bytes l i) (snd (desc_of bytes l i)) = Inr (plane_at bytes l i)"
proof -
  have "plane_off bytes l (Suc i) \<le> plane_off bytes l (ly_planes l)" using assms(2) by (intro plane_off_mono) simp
  then show ?thesis using assms(1) by (simp add: layout_ok_def plane_at_def)
qed

lemma check_plane_step:
  assumes "layout_ok bytes l" "i < ly_planes l"
  shows "check_plane bytes l i (plane_off bytes l i) =
    rbind (check_payload l (fst (desc_of bytes l i)) (plane_at bytes l i)) (\<lambda>_. Inr (plane_off bytes l (Suc i)))"
  using assms slice_plane [OF assms] by (cases "desc_of bytes l i") (simp add: check_plane_def layout_ok_def)

lemma check_planes:
  assumes ok: "layout_ok bytes l" and n: "n \<le> ly_planes l"
  shows "foldR (check_plane bytes l) [0..<n] (ly_payload_start l) \<noteq> Inl Panic \<and>
    (\<forall>t. foldR (check_plane bytes l) [0..<n] (ly_payload_start l) = Inr t \<longleftrightarrow> t = plane_off bytes l n
       \<and> (\<forall>i<n. check_payload l (fst (desc_of bytes l i)) (plane_at bytes l i) = Inr ()))"
  using n
proof (induction n)
  case (Suc n)
  let ?r = "foldR (check_plane bytes l) [0..<n] (ly_payload_start l)"
  have IH: "?r \<noteq> Inl Panic" "\<And>t. ?r = Inr t \<longleftrightarrow> t = plane_off bytes l n
       \<and> (\<forall>i<n. check_payload l (fst (desc_of bytes l i)) (plane_at bytes l i) = Inr ())" using Suc by simp_all
  have step: "foldR (check_plane bytes l) [0..<Suc n] (ly_payload_start l) = rbind ?r (check_plane bytes l n)"
    by (simp add: foldR_append) (cases ?r; simp split: sum.splits)
  have cs: "check_plane bytes l n (plane_off bytes l n) =
    rbind (check_payload l (fst (desc_of bytes l n)) (plane_at bytes l n)) (\<lambda>_. Inr (plane_off bytes l (Suc n)))"
    using Suc.prems by (intro check_plane_step ok) simp
  have "rbind ?r (check_plane bytes l n) \<noteq> Inl Panic"
    unfolding rbind_Panic using IH cs by (auto simp: rbind_Panic check_payload_no_panic)
  moreover have "rbind ?r (check_plane bytes l n) = Inr t \<longleftrightarrow> t = plane_off bytes l (Suc n)
       \<and> (\<forall>i<Suc n. check_payload l (fst (desc_of bytes l i)) (plane_at bytes l i) = Inr ())" for t
    unfolding rbind_eq_Inr IH(2) using cs by (auto simp: rbind_eq_Inr less_Suc_eq)
  ultimately show ?case unfolding step by blast
qed auto

text \<open>What the loop takes over of plane \<open>i\<close>.\<close>
definition taken :: "bytes \<Rightarrow> SaltRowLayout \<Rightarrow> nat \<Rightarrow> PlaneRepr" where
  "taken bytes l i = (if fst (desc_of bytes l i) = PLANE_TAG_DENSE then Dense (plane_at bytes l i)
     else Sparse (projr (unpack_sparse_plane (plane_at bytes l i))))"

lemma plane_ref_ok:
  assumes "check_payload l tag payload = Inr ()" "validate_plane_tag tag i = Inr ()"
  shows "\<exists>p. plane_ref tag payload = Inr p
    \<and> own_plane p = (if tag = PLANE_TAG_DENSE then Dense payload else Sparse (projr (unpack_sparse_plane payload)))"
proof (cases "tag = PLANE_TAG_DENSE")
  case False
  then obtain r where "sparse_ref_parse payload = Inr r" using assms(1) by (auto simp: check_payload_def rbind_eq_Inr)
  moreover have "tag = PLANE_TAG_SPARSE" using False assms(2) by (auto simp: validate_plane_tag_def split: if_splits)
  ultimately show ?thesis using False from_validated_parse [of payload r]
    by (simp add: plane_ref_def own_plane_def unpack_sparse_plane_def)
qed (simp add: plane_ref_def own_plane_def)

lemma take_planes_ok:
  assumes ok: "layout_ok bytes l" and ck: "\<And>i. i < ly_planes l \<Longrightarrow> check_payload l (fst (desc_of bytes l i)) (plane_at bytes l i) = Inr ()"
  shows "i + n \<le> ly_planes l \<Longrightarrow>
    take_planes n \<lparr>it_row = \<lparr>pr_bytes = bytes, pr_layout = l\<rparr>, it_index = i, it_payload_offset = plane_off bytes l i\<rparr>
    = Inr (map (taken bytes l) [i..<i + n])"
proof (induction n arbitrary: i)
  case (Suc n)
  let ?row = "\<lparr>pr_bytes = bytes, pr_layout = l\<rparr>"
  have i: "i < ly_planes l" using Suc.prems by simp
  obtain tag len where d: "desc_of bytes l i = (tag, len)" by (cases "desc_of bytes l i")
  have pd: "plane_desc bytes l i = Inr (tag, len)" "validate_plane_tag tag i = Inr ()" using ok i d by (auto simp: layout_ok_def)
  obtain p where p: "plane_ref tag (plane_at bytes l i) = Inr p" "own_plane p = taken bytes l i"
    using plane_ref_ok [OF _ pd(2)] ck [OF i] d by (auto simp: taken_def)
  have "plane_next \<lparr>it_row = ?row, it_index = i, it_payload_offset = plane_off bytes l i\<rparr>
      = Inr (Some (p, \<lparr>it_row = ?row, it_index = Suc i, it_payload_offset = plane_off bytes l (Suc i)\<rparr>))"
    using i pd p slice_plane [OF ok i] d by (simp add: plane_next_def)
  then show ?case using Suc.IH [of "Suc i"] Suc.prems p(2) by (simp add: upt_conv_Cons del: upt_Suc)
qed simp

text \<open>The whole reader, as a function of the layout.\<close>
lemma unpack_packed_ok:
  assumes l: "parse_salt_row_layout bytes = Inr l" and len: "length bytes = ly_encoded_len l"
    and ck: "\<And>i. i < ly_planes l \<Longrightarrow> check_payload l (fst (desc_of bytes l i)) (plane_at bytes l i) = Inr ()"
  shows "unpack_packed_salt_row_prefix bytes n =
    Inr \<lparr>ps_k = ly_k l, ps_planes = map (taken bytes l) [0..<min (ly_planes l) n]\<rparr>"
proof -
  note ok = layout_parse [OF l]
  have "foldR (check_plane bytes l) [0..<ly_planes l] (ly_payload_start l) = Inr (plane_off bytes l (ly_planes l))"
    using check_planes [OF ok order_refl] ck by blast
  then show ?thesis using l len take_planes_ok [OF ok ck, of 0 "min (ly_planes l) n"]
    by (simp add: unpack_packed_salt_row_prefix_def salt_row_ref_parse_def row_planes_def Let_def)
qed

section \<open>The reader on arbitrary bytes\<close>

lemma unpack_packed_cases:
  obtains (refused) e where "unpack_packed_salt_row_prefix bytes n = Inl (Fail e)"
  | (accepted) l where "layout_ok bytes l"
      "\<And>i. i < ly_planes l \<Longrightarrow> check_payload l (fst (desc_of bytes l i)) (plane_at bytes l i) = Inr ()"
      "unpack_packed_salt_row_prefix bytes n = Inr \<lparr>ps_k = ly_k l, ps_planes = map (taken bytes l) [0..<min (ly_planes l) n]\<rparr>"
proof (cases "parse_salt_row_layout bytes")
  case (Inl e)
  then show ?thesis using layout_no_panic [of bytes] refused
    by (cases e) (auto simp: unpack_packed_salt_row_prefix_def salt_row_ref_parse_def)
next
  case (Inr l)
  note ok = layout_parse [OF Inr]
  show ?thesis
  proof (cases "length bytes = ly_encoded_len l \<and> (\<forall>i<ly_planes l. check_payload l (fst (desc_of bytes l i)) (plane_at bytes l i) = Inr ())")
    case True
    then show ?thesis using accepted [OF ok] unpack_packed_ok [OF Inr, of n] by blast
  next
    case False
    then have "\<exists>e. salt_row_ref_parse bytes = Inl e \<and> e \<noteq> Panic"
      using Inr check_planes [OF ok order_refl]
      by (cases "foldR (check_plane bytes l) [0..<ly_planes l] (ly_payload_start l)") (auto simp: salt_row_ref_parse_def ensure_def)
    then obtain e where e: "salt_row_ref_parse bytes = Inl e" "e \<noteq> Panic" by blast
    then show ?thesis using refused by (cases e) (simp_all add: unpack_packed_salt_row_prefix_def)
  qed
qed

lemma num_blocks_fit: "k \<le> u32_MAX \<Longrightarrow> num_blocks k \<le> 16777216"
  by (simp add: num_blocks_def div_ceil_def u32_MAX_def)

lemma foldR_unit: "foldR (\<lambda>x _. g x) xs () = Inr () \<longleftrightarrow> (\<forall>x\<in>set xs. g x = Inr ())"
proof (induction xs)
  case (Cons x xs)
  then show ?case by (cases "g x") auto
qed simp

lemma taken_checks:
  assumes ok: "layout_ok bytes l" and i: "i < ly_planes l"
    and ck: "check_payload l (fst (desc_of bytes l i)) (plane_at bytes l i) = Inr ()"
  shows "check_repr (ly_k l) (ly_plane_bytes l) (taken bytes l i) = Inr ()" "i = 0 \<Longrightarrow> \<exists>bs. taken bytes l i = Dense bs"
proof -
  show "check_repr (ly_k l) (ly_plane_bytes l) (taken bytes l i) = Inr ()"
  proof (cases "fst (desc_of bytes l i) = PLANE_TAG_DENSE")
    case False
    then obtain r where "sparse_ref_parse (plane_at bytes l i) = Inr r" "sr_k r = ly_k l"
      using ck by (auto simp: check_payload_def rbind_eq_Inr)
    then show ?thesis using False parsed_plane_validates [of "plane_at bytes l i" r]
      by (simp add: taken_def check_repr_def unpack_sparse_plane_def)
  qed (use ck in \<open>simp add: taken_def check_repr_def check_payload_def\<close>)
  have "validate_plane_tag (fst (desc_of bytes l i)) i = Inr ()" using ok i by (simp add: layout_ok_def)
  then show "i = 0 \<Longrightarrow> \<exists>bs. taken bytes l i = Dense bs" by (auto simp: validate_plane_tag_def taken_def split: if_splits)
qed

text \<open>C14: the reader is safe on untrusted bytes.  Whatever the bytes and the number of planes asked for, no slice or index of the header, the
  descriptors, the payloads, the sparse parser or its unchecked view is out of range and no arm called unreachable is reached: the
  reader returns an error or a row, and so does the length probe.  And a row it returns, built by the constructor
  that does not validate, is one that the validating constructor \<open>PackedSaltRow::new\<close> accepts as it is.\<close>
theorem salt_reader_safe:
  "packed_salt_row_len bytes \<noteq> Inl Panic \<and> unpack_packed_salt_row_prefix bytes n \<noteq> Inl Panic \<and>
   (\<forall>r. unpack_packed_salt_row_prefix bytes n = Inr r \<longrightarrow> packed_salt_row_new (ps_k r) (ps_planes r) = Inr r)"
proof (cases rule: unpack_packed_cases [of bytes n])
  case (accepted l)
  let ?ps = "map (taken bytes l) [0..<min (ly_planes l) n]"
  have ck: "check_repr (ly_k l) (num_blocks (ly_k l) * TQ2_0_BLOCK_BYTES) p = Inr ()" if "p \<in> set ?ps" for p
    using that taken_checks(1) [OF accepted(1) _ accepted(2)] accepted(1) by (auto simp: layout_ok_def)
  have base: "\<not> (case ?ps of Sparse _ # _ \<Rightarrow> True | _ \<Rightarrow> False)"
  proof (cases "min (ly_planes l) n")
    case (Suc m)
    then have "0 < ly_planes l" by (cases "ly_planes l") auto
    then obtain bs where "taken bytes l 0 = Dense bs" using taken_checks(2) [OF accepted(1) _ accepted(2), of 0] by blast
    then show ?thesis unfolding Suc by (simp add: upt_conv_Cons del: upt_Suc)
  qed simp
  have "num_blocks (ly_k l) * TQ2_0_BLOCK_BYTES \<le> usize_MAX"
    using num_blocks_fit [of "ly_k l"] accepted(1) by (simp add: layout_ok_def usize_MAX_num block_consts)
  moreover have "length ?ps \<le> 255" "ly_k l \<le> u32_MAX" using accepted(1) by (auto simp: layout_ok_def)
  moreover have "foldR (\<lambda>plane _. check_repr (ly_k l) (num_blocks (ly_k l) * TQ2_0_BLOCK_BYTES) plane) ?ps () = Inr ()"
    unfolding foldR_unit using ck by blast
  ultimately have "packed_salt_row_new (ly_k l) ?ps = Inr \<lparr>ps_k = ly_k l, ps_planes = ?ps\<rparr>"
    unfolding packed_salt_row_new_def using base by (simp add: checked_mul_def ok_or_def linorder_not_less del: foldR.simps length_map)
  then show ?thesis using accepted(3) layout_no_panic [of bytes] by (simp add: packed_salt_row_len_def rbind_Panic)
qed (use layout_no_panic [of bytes] in \<open>simp add: packed_salt_row_len_def rbind_Panic\<close>)

section \<open>The reader on written rows\<close>

definition row_header :: "u8 \<Rightarrow> nat \<Rightarrow> usize \<Rightarrow> bytes" where
  "row_header v n k = SALT_MAGIC @ [v] @ [of_nat n] @ le32 (of_nat k)"

lemma length_row_header [simp]: "length (row_header v n k) = 10"
  by (simp add: row_header_def SALT_MAGIC_def)

lemma read_row_header:
  assumes "n \<le> 255" "k \<le> u32_MAX"
  shows "read_header (row_header v n k @ body) = Inr (v, n, k)"
proof -
  have "unat (of_nat n :: u8) = n" "unat (of_nat k :: u32) = k" using assms by (simp_all add: unat_of_nat u32_MAX_def)
  moreover have "window 6 4 (row_header v n k @ body) = le32 (of_nat k)" by (simp add: row_header_def window_def SALT_MAGIC_def)
  moreover have "window 0 4 (row_header v n k @ body) = SALT_MAGIC" "(row_header v n k @ body) ! 4 = v" "(row_header v n k @ body) ! 5 = of_nat n"
    by (simp_all add: row_header_def SALT_MAGIC_def window_def)
  ultimately show ?thesis by (simp add: read_header_def salt_consts)
qed

lemma concat_split: "i < length xs \<Longrightarrow> concat xs = concat (take i xs) @ xs ! i @ concat (drop (Suc i) xs)"
  by (metis id_take_nth_drop concat.simps(2) concat_append)

lemma length_concat_take: "i \<le> length xs \<Longrightarrow> length (concat (take i xs)) = (\<Sum>j<i. length (xs ! j))"
  by (induction i) (simp_all add: take_Suc_conv_app_nth)

lemma window_concat:
  assumes "i < length xs"
  shows "window (length pre + (\<Sum>j<i. length (xs ! j))) (length (xs ! i)) (pre @ concat xs @ post) = xs ! i"
proof -
  have "pre @ concat xs @ post = (pre @ concat (take i xs)) @ xs ! i @ concat (drop (Suc i) xs) @ post"
    using concat_split [OF assms] by simp
  moreover have "length (pre @ concat (take i xs)) = length pre + (\<Sum>j<i. length (xs ! j))"
    using length_concat_take [of i xs] assms by simp
  ultimately show ?thesis by (simp only: window_def drop_append) simp
qed

lemma plane_at_item:
  assumes "bytes = pre @ concat xs @ post" "length pre = ly_payload_start l" "length xs = n"
    "\<And>i. i < n \<Longrightarrow> snd (desc_of bytes l i) = length (xs ! i)" "i < n"
  shows "plane_at bytes l i = xs ! i"
proof -
  have "(\<Sum>j<i. snd (desc_of bytes l j)) = (\<Sum>j<i. length (xs ! j))" using assms(4,5) by (intro sum.cong) auto
  then show ?thesis using window_concat [of i xs pre post] assms by (simp add: plane_at_def plane_off_def)
qed

definition dsc :: "u8 \<times> bytes \<Rightarrow> bytes" where
  "dsc it = [fst it] @ le32 (of_nat (length (snd it)))"

lemma dsc_read:
  fixes post
  assumes "i < length its" "length (snd (its ! i)) \<le> u32_MAX" "length pre = 10"
  defines "bytes \<equiv> pre @ concat (map dsc its) @ post"
  shows "(bytes ! (10 + i * 5), unat (un_le32 (window (11 + i * 5) 4 bytes))) = (fst (its ! i), length (snd (its ! i)))"
proof -
  have w: "\<And>x. x \<in> set (map dsc its) \<Longrightarrow> length x = 5" by (auto simp: dsc_def)
  have len: "length (concat (map dsc its)) = length its * 5" using length_concat_const [of "map dsc its" 5, OF w] by simp
  have i: "i * 5 + 5 \<le> length its * 5" using assms(1) mult_le_mono1 [of "Suc i" "length its" 5] by simp
  have W: "window (10 + i * 5) 5 bytes = dsc (its ! i)"
    using window_concat_const [of "map dsc its" 5 i, OF w] assms(1) i len assms(3) by (simp add: bytes_def window_append2)
  have lb: "10 + i * 5 + 5 \<le> length bytes" using i len assms(3) by (simp add: bytes_def)
  have "bytes ! (10 + i * 5) = fst (its ! i)" using nth_window [of 0 5 "10 + i * 5" bytes] lb W by (simp add: dsc_def)
  moreover have "window (11 + i * 5) 4 bytes = tl (window (10 + i * 5) 5 bytes)"
  proof -
    have "drop (Suc (10 + i * 5)) bytes = tl (drop (10 + i * 5) bytes)" by (simp only: drop_Suc tl_drop)
    moreover have "Suc (10 + i * 5) = 11 + i * 5" by simp
    ultimately show ?thesis by (simp only: window_def tl_take) simp
  qed
  moreover have "unat (of_nat (length (snd (its ! i))) :: u32) = length (snd (its ! i))" using assms(2) by (simp add: unat_of_nat u32_MAX_def)
  ultimately show ?thesis using W by (simp add: dsc_def)
qed

text \<open>A row of items, its planes as they are stored: the tag and the payload of each.\<close>
definition item_ok :: "usize \<Rightarrow> nat \<Rightarrow> u8 \<times> bytes \<Rightarrow> bool" where
  "item_ok k i it \<longleftrightarrow> validate_plane_tag (fst it) i = Inr () \<and> length (snd it) \<le> u32_MAX
    \<and> (\<forall>l. ly_k l = k \<longrightarrow> ly_plane_bytes l = num_blocks k * TQ2_0_BLOCK_BYTES \<longrightarrow> check_payload l (fst it) (snd it) = Inr ())"

definition item_repr :: "u8 \<times> bytes \<Rightarrow> PlaneRepr" where
  "item_repr it = (if fst it = PLANE_TAG_DENSE then Dense (snd it) else Sparse (projr (unpack_sparse_plane (snd it))))"

lemma unpack_items:
  assumes l: "parse_salt_row_layout bytes = Inr l" and len: "length bytes = ly_encoded_len l"
    and bytes: "bytes = pre @ concat (map snd its)" "length pre = ly_payload_start l" and n: "ly_planes l = length its"
    and desc: "\<And>i. i < length its \<Longrightarrow> desc_of bytes l i = (fst (its ! i), length (snd (its ! i)))"
    and ok: "\<And>i. i < length its \<Longrightarrow> item_ok (ly_k l) i (its ! i)"
  shows "unpack_packed_salt_row_prefix bytes m = Inr \<lparr>ps_k = ly_k l, ps_planes = map item_repr (take m its)\<rparr>"
proof -
  have at: "plane_at bytes l i = snd (its ! i)" if "i < length its" for i
    using plane_at_item [of bytes pre "map snd its" "[]" l "length its" i] bytes desc that by simp
  have pb: "ly_plane_bytes l = num_blocks (ly_k l) * TQ2_0_BLOCK_BYTES" using layout_parse [OF l] by (simp add: layout_ok_def)
  have "unpack_packed_salt_row_prefix bytes m = Inr \<lparr>ps_k = ly_k l, ps_planes = map (taken bytes l) [0..<min (ly_planes l) m]\<rparr>"
  proof (rule unpack_packed_ok [OF l len])
    fix i assume "i < ly_planes l"
    then have i: "i < length its" using n by simp
    then show "check_payload l (fst (desc_of bytes l i)) (plane_at bytes l i) = Inr ()"
      using ok [OF i] at [OF i] desc [OF i] pb by (simp add: item_ok_def)
  qed
  moreover have "map (taken bytes l) [0..<min (ly_planes l) m] = map item_repr (take m its)"
    by (rule nth_equalityI) (use n at desc in \<open>auto simp: taken_def item_repr_def\<close>)
  ultimately show ?thesis by simp
qed

lemma plane_bytes_fit: "k \<le> u32_MAX \<Longrightarrow> num_blocks k * TQ2_0_BLOCK_BYTES \<le> 1107296256"
  using num_blocks_fit [of k] by (simp add: block_consts)

lemma layout_v1:
  assumes b: "length xs \<le> 255" "k \<le> u32_MAX" and xs: "\<And>x. x \<in> set xs \<Longrightarrow> length x = num_blocks k * TQ2_0_BLOCK_BYTES"
  defines "pb \<equiv> num_blocks k * TQ2_0_BLOCK_BYTES"
  shows "parse_salt_row_layout (row_header SALT_VERSION (length xs) k @ concat xs @ post) = Inr \<lparr>ly_version = SALT_VERSION, ly_planes = length xs,
    ly_k = k, ly_plane_bytes = pb, ly_payload_start = 10, ly_encoded_len = 10 + length xs * pb\<rparr>"
proof -
  have "length (concat xs) = length xs * pb" unfolding pb_def using length_concat_const [of xs, OF xs] by simp
  moreover have "length xs * pb \<le> 255 * 1107296256" unfolding pb_def using b(1) plane_bytes_fit [OF b(2)] by (rule mult_le_mono)
  moreover have "pb \<le> 1107296256" unfolding pb_def by (rule plane_bytes_fit [OF b(2)])
  ultimately show ?thesis
    using read_row_header [OF b, of SALT_VERSION "concat xs @ post"] num_blocks_fit [OF b(2)] pb_def [THEN meta_eq_to_obj_eq, symmetric]
    by (simp add: parse_salt_row_layout_def Let_def checked_mul_def checked_add_def ok_or_def usize_MAX_num SALT_HEADER_BYTES_def)
qed

lemma layout_v2:
  assumes b: "length its \<le> 255" "k \<le> u32_MAX" and ok: "\<And>i. i < length its \<Longrightarrow> item_ok k i (its ! i)"
  fixes post
  defines "bytes \<equiv> row_header SALT_PROGRESSIVE_VERSION (length its) k @ concat (map dsc its) @ concat (map snd its) @ post"
    and "l \<equiv> \<lparr>ly_version = SALT_PROGRESSIVE_VERSION, ly_planes = length its, ly_k = k, ly_plane_bytes = num_blocks k * TQ2_0_BLOCK_BYTES,
      ly_payload_start = 10 + length its * 5, ly_encoded_len = 10 + length its * 5 + length (concat (map snd its))\<rparr>"
  shows "parse_salt_row_layout bytes = Inr l"
    "i < length its \<Longrightarrow> desc_of bytes l i = (fst (its ! i), length (snd (its ! i)))"
proof -
  have its: "length (snd (its ! i)) \<le> u32_MAX" "validate_plane_tag (fst (its ! i)) i = Inr ()" if "i < length its" for i
    using ok [OF that] by (auto simp: item_ok_def)
  let ?D = "\<lambda>i. (bytes ! (10 + i * 5), unat (un_le32 (window (11 + i * 5) 4 bytes)))"
  have D: "?D i = (fst (its ! i), length (snd (its ! i)))" if "i < length its" for i
    unfolding bytes_def using that its(1) by (intro dsc_read) simp_all
  then show "i < length its \<Longrightarrow> desc_of bytes l i = (fst (its ! i), length (snd (its ! i)))"
    by (simp add: desc_of_def l_def salt_consts)
  have w: "\<And>x. x \<in> set (map dsc its) \<Longrightarrow> length x = 5" by (auto simp: dsc_def)
  have len: "length bytes = 10 + length its * 5 + length (concat (map snd its)) + length post"
    using length_concat_const [of "map dsc its" 5, OF w] by (simp add: bytes_def)
  have sum: "(\<Sum>j<length its. snd (?D j)) = length (concat (map snd its))"
    using D length_concat_take [of "length its" "map snd its"] by simp
  have "(\<Sum>j<length its. snd (?D j)) \<le> (\<Sum>j<length its. u32_MAX)" using D its(1) by (intro sum_mono) simp
  also have "\<dots> \<le> 255 * u32_MAX" using b(1) by simp
  finally have fit: "length (concat (map snd its)) \<le> 255 * 4294967295" unfolding sum by (simp add: u32_MAX_def)
  have "foldR (desc_step bytes e) [0..<length its] 0 = Inr (length (concat (map snd its)))" for e
    using descriptor_fold [of "length its" bytes ?D e] descriptors_read [of "length its" bytes] len D its(2) fit
    unfolding sum by (simp add: usize_MAX_num)
  moreover have "read_header bytes = Inr (SALT_PROGRESSIVE_VERSION, length its, k)"
    unfolding bytes_def by (rule read_row_header [OF b])
  ultimately show "parse_salt_row_layout bytes = Inr l"
    using num_blocks_fit [OF b(2)] b(1) fit len
    by (simp add: parse_salt_row_layout_def Let_def checked_mul_def checked_add_def ok_or_def usize_MAX_num salt_consts l_def)
qed

section \<open>Round trips\<close>

lemma into_dense_expand: "into_dense r = to_dense r"
  by (simp add: into_dense_def to_dense_def expand_plane_repr_def [abs_def])

text \<open>An item that stands for a plane.\<close>
definition stores :: "usize \<Rightarrow> nat \<Rightarrow> u8 \<times> bytes \<Rightarrow> bytes \<Rightarrow> bool" where
  "stores k i it plane \<longleftrightarrow> item_ok k i it \<and> expand_plane_repr (item_repr it) = Inr plane"

lemma stores_dense:
  assumes "validate_dense_plane plane (num_blocks k * TQ2_0_BLOCK_BYTES) = Inr ()" "k \<le> u32_MAX"
  shows "stores k i (PLANE_TAG_DENSE, plane) plane"
proof -
  have "length plane = num_blocks k * TQ2_0_BLOCK_BYTES" using assms(1) by (auto simp: validate_dense_plane_def split: if_splits)
  then show ?thesis using assms(1) plane_bytes_fit [OF assms(2)]
    by (simp add: stores_def item_ok_def item_repr_def expand_plane_repr_def validate_plane_tag_def check_payload_def u32_MAX_def)
qed

lemma stores_sparse:
  assumes ch: "choose_plane_repr plane k d = Inr (Sparse p)" and pk: "pack_sparse_plane p = Inr bs"
    and len: "length bs \<le> u32_MAX" and i: "i \<noteq> 0"
  shows "stores k i (PLANE_TAG_SPARSE, bs) plane"
proof -
  have un: "unpack_sparse_plane bs = Inr p" using pk by (rule sparse_plane_roundtrip)
  then obtain r where r: "sparse_ref_parse bs = Inr r" "p = sr_to_owned r" by (auto simp: unpack_sparse_plane_def rbind_eq_Inr)
  have "sparse_from_tq2_0 plane k = Inr p"
    using ch by (auto simp: choose_plane_repr_def split: sum.splits FormatError.splits if_splits)
  then have "sx_k p = k" by (auto simp: sparse_from_tq2_0_def rbind_eq_Inr split: if_splits)
  then have "sr_k r = k" using r(2) by (simp add: sr_to_owned_def)
  moreover have "sparse_to_tq2_0 p = Inr plane" using expand_choose [OF ch] by (simp add: expand_plane_repr_def)
  ultimately show ?thesis using r(1) un len i
    by (simp add: stores_def item_ok_def item_repr_def expand_plane_repr_def validate_plane_tag_def check_payload_def
        PLANE_TAG_DENSE_def PLANE_TAG_SPARSE_def)
qed

lemma encode_stores:
  assumes v: "validate_dense_plane plane (num_blocks k * TQ2_0_BLOCK_BYTES) = Inr ()" and k: "k \<le> u32_MAX"
    and e: "encode_plane k (num_blocks k * TQ2_0_BLOCK_BYTES) d (i, plane) = Inr it"
  shows "stores k i it plane"
proof (cases "i = 0")
  case True
  then show ?thesis using e stores_dense [OF v k] by (simp add: encode_plane_def)
next
  case False
  then obtain r where r: "choose_plane_repr plane k d = Inr r" using e by (auto simp: encode_plane_def rbind_eq_Inr)
  show ?thesis
  proof (cases r)
    case (Dense bs)
    then have "bs = plane" using expand_choose [OF r] by (simp add: expand_plane_repr_def)
    then show ?thesis using e r False Dense stores_dense [OF v k] by (simp add: encode_plane_def)
  next
    case (Sparse p)
    then obtain bs where bs: "pack_sparse_plane p = Inr bs" using e r False by (auto simp: encode_plane_def rbind_eq_Inr)
    show ?thesis
    proof (cases "length bs < num_blocks k * TQ2_0_BLOCK_BYTES")
      case True
      then have "length bs \<le> u32_MAX" using plane_bytes_fit [OF k] by (simp add: u32_MAX_def)
      then show ?thesis using e r False Sparse bs True stores_sparse [of plane k d p bs i] by (simp add: encode_plane_def)
    qed (use e r False Sparse bs stores_dense [OF v k] in \<open>simp add: encode_plane_def\<close>)
  qed
qed

lemma stored_dense:
  assumes "length its = length planes" "\<And>i. i < length its \<Longrightarrow> stores k i (its ! i) (planes ! i)"
  shows "into_dense \<lparr>ps_k = k, ps_planes = map item_repr (take m its)\<rparr> = Inr \<lparr>sl_k = k, sl_planes = take m planes\<rparr>"
proof -
  have "mapR expand_plane_repr (map item_repr (take m its)) = Inr (take m planes)"
    unfolding mapR_eq_Inr using assms by (auto simp: list_all2_conv_all_nth stores_def)
  then show ?thesis by (simp add: into_dense_expand to_dense_def)
qed

lemma validate_salt_row_ok: "validate_salt_row row = Inr pb \<longleftrightarrow> length (sl_planes row) \<le> 255 \<and> sl_k row \<le> u32_MAX
    \<and> pb = num_blocks (sl_k row) * TQ2_0_BLOCK_BYTES \<and> (\<forall>p\<in>set (sl_planes row). validate_dense_plane p pb = Inr ())"
  by (auto simp: validate_salt_row_def plane_bytes_of_def Let_def rbind_eq_Inr foldR_unit)

lemma pack_salt_row_reads:
  assumes "pack_salt_row row = Inr bs"
  shows "unpack_salt_row_prefix bs m = Inr (row\<lparr>sl_planes := take m (sl_planes row)\<rparr>)" "packed_salt_row_len (bs @ rest) = Inr (length bs)"
proof -
  let ?k = "sl_k row" and ?ps = "sl_planes row"
  let ?pb = "num_blocks ?k * TQ2_0_BLOCK_BYTES" and ?its = "map (Pair PLANE_TAG_DENSE) ?ps"
  have v: "length ?ps \<le> 255" "?k \<le> u32_MAX" "\<And>p. p \<in> set ?ps \<Longrightarrow> validate_dense_plane p ?pb = Inr ()"
    and bs: "bs = row_header SALT_VERSION (length ?ps) ?k @ concat ?ps"
    using assms by (auto simp: pack_salt_row_def rbind_eq_Inr validate_salt_row_ok row_header_def)
  have len: "length p = ?pb" if "p \<in> set ?ps" for p using v(3) [OF that] by (auto simp: validate_dense_plane_def split: if_splits)
  let ?l = "\<lparr>ly_version = SALT_VERSION, ly_planes = length ?ps, ly_k = ?k, ly_plane_bytes = ?pb, ly_payload_start = 10,
    ly_encoded_len = 10 + length ?ps * ?pb\<rparr>"
  have lb: "length bs = 10 + length ?ps * ?pb" unfolding bs using length_concat_const [of ?ps ?pb, OF len] by simp
  have l: "parse_salt_row_layout (bs @ post) = Inr ?l" for post
    unfolding bs using layout_v1 [OF v(1,2), of post] len by simp
  then show "packed_salt_row_len (bs @ rest) = Inr (length bs)" using lb by (simp add: packed_salt_row_len_def)
  have st: "stores ?k i (?its ! i) (?ps ! i)" if "i < length ?its" for i using that stores_dense [OF v(3) v(2)] by simp
  have "unpack_packed_salt_row_prefix bs m = Inr \<lparr>ps_k = ly_k ?l, ps_planes = map item_repr (take m ?its)\<rparr>"
  proof (rule unpack_items [where pre = "row_header SALT_VERSION (length ?ps) ?k"])
    show "parse_salt_row_layout bs = Inr ?l" using l [of "[]"] by simp
    show "desc_of bs ?l i = (fst (?its ! i), length (snd (?its ! i)))" if "i < length ?its" for i
      using that len by (simp add: desc_of_def)
    show "item_ok (ly_k ?l) i (?its ! i)" if "i < length ?its" for i using st [OF that] by (simp add: stores_def)
    show "bs = row_header SALT_VERSION (length ?ps) ?k @ concat (map snd ?its)" by (simp add: bs comp_def)
  qed (simp_all add: lb)
  then show "unpack_salt_row_prefix bs m = Inr (row\<lparr>sl_planes := take m ?ps\<rparr>)"
    using stored_dense [of ?its ?ps ?k m] st by (simp add: unpack_salt_row_prefix_def)
qed

lemma pack_progressive_parts:
  assumes "pack_progressive_salt_row row d = Inr bs"
  obtains its where "bs = row_header SALT_PROGRESSIVE_VERSION (length its) (sl_k row) @ concat (map dsc its) @ concat (map snd its)"
    "length its = length (sl_planes row)" "\<And>i. i < length its \<Longrightarrow> stores (sl_k row) i (its ! i) (sl_planes row ! i)"
    "length its \<le> 255" "sl_k row \<le> u32_MAX"
proof -
  let ?k = "sl_k row" and ?ps = "sl_planes row"
  let ?pb = "num_blocks ?k * TQ2_0_BLOCK_BYTES"
  have v: "length ?ps \<le> 255" "?k \<le> u32_MAX" "\<And>p. p \<in> set ?ps \<Longrightarrow> validate_dense_plane p ?pb = Inr ()"
    using assms by (auto simp: pack_progressive_salt_row_def rbind_eq_Inr validate_salt_row_ok split: if_splits)
  obtain its ds where its: "mapR (encode_plane ?k ?pb d) (List.enumerate 0 ?ps) = Inr its" and ds: "mapR descriptor its = Inr ds"
    and bs: "bs = SALT_MAGIC @ [SALT_PROGRESSIVE_VERSION] @ [of_nat (length its)] @ le32 (of_nat ?k) @ concat ds @ concat (map snd its)"
    using assms by (auto simp: pack_progressive_salt_row_def rbind_eq_Inr validate_salt_row_ok split: if_splits)
  have len: "length its = length ?ps" using mapR_length [OF its] by simp
  have st: "stores ?k i (its ! i) (?ps ! i)" if i: "i < length its" for i
  proof (rule encode_stores [OF v(3) v(2)])
    show "encode_plane ?k ?pb d (i, ?ps ! i) = Inr (its ! i)"
      using its i len by (auto simp: mapR_eq_Inr list_all2_conv_all_nth nth_enumerate_eq)
  qed (use i len in simp)
  have "ds = map dsc its"
  proof (rule nth_equalityI)
    show "length ds = length (map dsc its)" using mapR_length [OF ds] by simp
    fix i assume "i < length ds"
    then have "descriptor (its ! i) = Inr (ds ! i)" "i < length its"
      using ds by (auto simp: mapR_eq_Inr list_all2_conv_all_nth)
    then show "ds ! i = map dsc its ! i" by (auto simp: descriptor_def dsc_def split: prod.splits if_splits)
  qed
  then show ?thesis using that [of its] bs len st v(1,2) by (simp add: row_header_def)
qed

lemma pack_progressive_reads:
  assumes "pack_progressive_salt_row row d = Inr bs"
  shows "unpack_salt_row_prefix bs m = Inr (row\<lparr>sl_planes := take m (sl_planes row)\<rparr>)" "packed_salt_row_len (bs @ rest) = Inr (length bs)"
proof -
  let ?k = "sl_k row"
  obtain its where bs: "bs = row_header SALT_PROGRESSIVE_VERSION (length its) ?k @ concat (map dsc its) @ concat (map snd its)"
    and len: "length its = length (sl_planes row)" and st: "\<And>i. i < length its \<Longrightarrow> stores ?k i (its ! i) (sl_planes row ! i)"
    and b: "length its \<le> 255" "?k \<le> u32_MAX" using pack_progressive_parts [OF assms] by blast
  have ok: "\<And>i. i < length its \<Longrightarrow> item_ok ?k i (its ! i)" using st by (simp add: stores_def)
  let ?l = "\<lparr>ly_version = SALT_PROGRESSIVE_VERSION, ly_planes = length its, ly_k = ?k, ly_plane_bytes = num_blocks ?k * TQ2_0_BLOCK_BYTES,
      ly_payload_start = 10 + length its * 5, ly_encoded_len = 10 + length its * 5 + length (concat (map snd its))\<rparr>"
  have w: "\<And>x. x \<in> set (map dsc its) \<Longrightarrow> length x = 5" by (auto simp: dsc_def)
  have ld: "length (concat (map dsc its)) = length its * 5" using length_concat_const [of "map dsc its" 5, OF w] by simp
  have lb: "length bs = ly_encoded_len ?l" using ld by (simp add: bs)
  have l: "parse_salt_row_layout (bs @ post) = Inr ?l" for post
    using layout_v2(1) [OF b ok, of post] by (simp add: bs)
  then show "packed_salt_row_len (bs @ rest) = Inr (length bs)" using lb by (simp add: packed_salt_row_len_def)
  have "unpack_packed_salt_row_prefix bs m = Inr \<lparr>ps_k = ly_k ?l, ps_planes = map item_repr (take m its)\<rparr>"
  proof (rule unpack_items [where pre = "row_header SALT_PROGRESSIVE_VERSION (length its) ?k @ concat (map dsc its)"])
    show "parse_salt_row_layout bs = Inr ?l" using l [of "[]"] by simp
    show "desc_of bs ?l i = (fst (its ! i), length (snd (its ! i)))" if "i < length its" for i
      using layout_v2(2) [OF b ok that, of "[]"] by (simp add: bs)
    show "item_ok (ly_k ?l) i (its ! i)" if "i < length its" for i using ok [OF that] by simp
  qed (use lb ld in \<open>simp_all add: bs\<close>)
  then show "unpack_salt_row_prefix bs m = Inr (row\<lparr>sl_planes := take m (sl_planes row)\<rparr>)"
    using stored_dense [of its "sl_planes row" ?k m] st len by (simp add: unpack_salt_row_prefix_def)
qed

text \<open>C13: rows round trip and truncate.  Whichever writer made the bytes, and whatever mix of dense and sparse planes the progressive
  one chose, asking the reader for the first \<open>m\<close> planes gives exactly the first \<open>m\<close> planes of the row that was written; and the
  length probe finds the end of the row in front of whatever follows it.\<close>
theorem salt_row_roundtrip:
  assumes "pack_salt_row row = Inr bs \<or> pack_progressive_salt_row row d = Inr bs"
  shows "unpack_salt_row_prefix bs m = Inr (row\<lparr>sl_planes := take m (sl_planes row)\<rparr>)
    \<and> packed_salt_row_len (bs @ rest) = Inr (length bs)"
  using assms pack_salt_row_reads pack_progressive_reads by blast

lemma uniform_plane:
  assumes "drop_bit 0 b AND 3 \<noteq> 3" "drop_bit 2 b AND 3 \<noteq> 3" "drop_bit 4 b AND 3 \<noteq> 3" "drop_bit 6 b AND 3 \<noteq> 3"
  shows "validate_dense_plane (replicate 66 b) 66 = Inr ()"
  using assms by (simp add: validate_dense_plane_def block_consts window_def list_ex_iff)

definition two_planes :: SaltRow where
  "two_planes = \<lparr>sl_k = 256, sl_planes = [replicate 66 0, replicate 66 0x55]\<rparr>"

lemma two_planes_pack: "\<exists>bs. pack_salt_row two_planes = Inr bs"
proof -
  have "validate_dense_plane (replicate 66 0) 66 = Inr ()" "validate_dense_plane (replicate 66 0x55) 66 = Inr ()"
    by (rule uniform_plane; simp)+
  then have "validate_salt_row two_planes = Inr 66"
    by (simp add: validate_salt_row_ok two_planes_def num_blocks_def div_ceil_def u32_MAX_def)
  then show ?thesis by (simp add: pack_salt_row_def)
qed

theorem salt_row_roundtrip_witness:
  "\<exists>bs. pack_salt_row two_planes = Inr bs
    \<and> unpack_salt_row_prefix bs 1 = Inr \<lparr>sl_k = 256, sl_planes = [replicate 66 0]\<rparr>
    \<and> packed_salt_row_len (bs @ [7, 7]) = Inr (length bs)"
proof -
  obtain bs where bs: "pack_salt_row two_planes = Inr bs" using two_planes_pack by blast
  then show ?thesis using salt_row_roundtrip [of two_planes bs f32_one 1 "[7, 7]"] by (simp add: two_planes_def)
qed

theorem salt_reader_safe_witness:
  "\<exists>bs r. unpack_packed_salt_row_prefix bs 2 = Inr r \<and> ps_k r = 256 \<and> packed_salt_row_new 256 (ps_planes r) = Inr r"
proof -
  obtain bs where bs: "pack_salt_row two_planes = Inr bs" using two_planes_pack by blast
  then have "unpack_salt_row_prefix bs 2 = Inr two_planes" using pack_salt_row_reads(1) [OF bs, of 2] by (simp add: two_planes_def)
  then obtain r where r: "unpack_packed_salt_row_prefix bs 2 = Inr r" "into_dense r = Inr two_planes"
    by (auto simp: unpack_salt_row_prefix_def rbind_eq_Inr)
  then have "ps_k r = 256" by (auto simp: into_dense_def rbind_eq_Inr two_planes_def)
  then show ?thesis using r(1) salt_reader_safe [of bs 2] by metis
qed

end
