(* ===== verification/JointCode.thy ===== *)
theory JointCode
  imports Prelude "HOL-Library.Product_Lexorder" "HOL-Library.Multiset"
begin

unbundle bit_operations_syntax

text \<open>
  The canonical Huffman code over joint symbols (\<open>tritium-format/src/salt_joint_code.rs\<close>): the folding of planes into symbols, the
  code rebuilt from its lengths with its decoding table, the bit stream with its block index, and the round trip.  Code
  lengths and code words are natural numbers (the code keeps them below 16 and \<open>2 ^ 15\<close>); the accumulator of the encoder is a 64-bit
  word, whose high bits are shifted out.
\<close>

section \<open>Symbols\<close>

definition MAX_CODE_LEN :: nat where "MAX_CODE_LEN = 15"
definition MAX_JOINT_PLANES :: nat where "MAX_JOINT_PLANES = 9"

datatype JointCodeError =
    UnsupportedPlanes nat
  | AlphabetSize nat nat
  | SymbolOutOfRange u16 nat
  | BadTrit i8
  | PlaneShape
  | UncodedSymbol u16
  | CorruptStream
  | BadBlock
  | TooManySymbols nat nat

definition alphabet :: "nat \<Rightarrow> JointCodeError + nat" where
  "alphabet t = (if t = 0 \<or> MAX_JOINT_PLANES < t then Inl (UnsupportedPlanes t) else Inr (3 ^ t))"

definition fold_trit :: "nat \<Rightarrow> i8 list \<Rightarrow> nat \<Rightarrow> JointCodeError + nat" where
  "fold_trit i plane s =
    (let trit = plane ! i in
     if \<not> (-1 \<le> trit \<and> trit \<le> 1) then Inl (BadTrit trit) else Inr (s * 3 + nat (trit + 1)))"

definition joint_symbols :: "i8 list list \<Rightarrow> JointCodeError + u16 list" where
  "joint_symbols planes =
    rbind (alphabet (length planes)) (\<lambda>_.
    case planes of [] \<Rightarrow> Inl PlaneShape | first # _ \<Rightarrow>
      let n = length first in
      if list_ex (\<lambda>p. length p \<noteq> n) planes then Inl PlaneShape
      else mapR (\<lambda>i. rbind (foldR (fold_trit i) planes 0) (\<lambda>s. Inr (of_nat s))) [0..<n])"

text \<open>The digits of a symbol, most significant first.\<close>
fun unfold_trits :: "nat \<Rightarrow> nat \<Rightarrow> i8 list" where
  "unfold_trits 0 s = []"
| "unfold_trits (Suc t) s = unfold_trits t (s div 3) @ [int (s mod 3) - 1]"

definition planes_from_symbols :: "u16 list \<Rightarrow> nat \<Rightarrow> JointCodeError + i8 list list" where
  "planes_from_symbols symbols t =
    rbind (alphabet t) (\<lambda>a.
    rbind (mapR (\<lambda>symbol. if a \<le> unat symbol then Inl (SymbolOutOfRange symbol a) else Inr (unfold_trits t (unat symbol))) symbols) (\<lambda>digits.
    Inr (map (\<lambda>p. map (\<lambda>d. d ! p) digits) [0..<t])))"

section \<open>The code\<close>

record JointCode =
  jc_t :: nat
  jc_lengths :: "nat list"
  jc_codes :: "nat list"
  jc_table_bits :: nat
  jc_table :: "(u16 \<times> nat) list"

definition cost_bits :: "JointCode \<Rightarrow> u64 list \<Rightarrow> u64" where
  "cost_bits c freq = sum_list (map (\<lambda>(f, l). f * of_nat l) (zip freq (jc_lengths c)))"

definition kraft_sum :: "nat \<Rightarrow> nat list \<Rightarrow> nat" where
  "kraft_sum m lengths = sum_list (map (\<lambda>l. 2 ^ (m - l)) (filter (\<lambda>l. 0 < l) lengths))"

text \<open>The loop that gives code words in canonical order: the last code word, its length (zero before the first) and the words so far.\<close>
fun assign_codes :: "nat list \<Rightarrow> nat list \<Rightarrow> nat \<Rightarrow> nat \<Rightarrow> nat list \<Rightarrow> nat list" where
  "assign_codes lengths [] code prev_len codes = codes"
| "assign_codes lengths (s # order) code prev_len codes =
    (let l = lengths ! s;
         code' = (if prev_len \<noteq> 0 then (code + 1) * 2 ^ (l - prev_len) else code)
     in assign_codes lengths order code' l (codes[s := code']))"

text \<open>Writing through an iterator that skips \<open>first\<close> entries and takes \<open>n\<close>.\<close>
definition fill :: "nat \<Rightarrow> nat \<Rightarrow> 'a \<Rightarrow> 'a list \<Rightarrow> 'a list" where
  "fill first n e table = take first table @ replicate (min n (length table - first)) e @ drop (first + n) table"

definition fill_symbol :: "nat list \<Rightarrow> nat list \<Rightarrow> nat \<Rightarrow> nat \<Rightarrow> (u16 \<times> nat) list \<Rightarrow> (u16 \<times> nat) list" where
  "fill_symbol lengths codes table_bits s table =
    (let l = lengths ! s; shift = table_bits - l; first = codes ! s * 2 ^ shift in
     fill first (2 ^ shift) (of_nat s, l) table)"

definition canonical_order :: "nat list \<Rightarrow> nat list" where
  "canonical_order lengths = sort_key (\<lambda>s. (lengths ! s, s)) (filter (\<lambda>s. 0 < lengths ! s) [0..<length lengths])"

definition from_lengths :: "nat list \<Rightarrow> nat \<Rightarrow> JointCodeError + JointCode" where
  "from_lengths lengths t =
    rbind (alphabet t) (\<lambda>a.
    if length lengths \<noteq> a then Inl (AlphabetSize a (length lengths))
    else let m = fold max lengths 0 in
      if MAX_CODE_LEN < m then Inl CorruptStream
      else if 0 < m \<and> 2 ^ m < kraft_sum m lengths then Inl CorruptStream
      else
       (let order = canonical_order lengths;
            codes = assign_codes lengths order 0 0 (replicate a 0);
            table = fold (fill_symbol lengths codes m) order (replicate (2 ^ m) (0, 0))
        in Inr \<lparr>jc_t = t, jc_lengths = lengths, jc_codes = codes, jc_table_bits = m, jc_table = table\<rparr>))"

section \<open>The stream\<close>

record JointStream =
  js_bits :: bytes
  js_block_offsets :: "nat list"
  js_block :: nat
  js_symbols :: nat

definition chargeable_bits :: "JointStream \<Rightarrow> nat" where
  "chargeable_bits s = length (js_bits s) * 8 + length (js_block_offsets s) * 64"

record encoder =
  en_bits :: bytes
  en_acc :: u64
  en_n_acc :: nat
  en_total :: nat
  en_offsets :: "nat list"

function drain :: "u64 \<Rightarrow> nat \<Rightarrow> bytes \<Rightarrow> bytes \<times> nat" where
  "drain acc n_acc bits = (if 8 \<le> n_acc then drain acc (n_acc - 8) (bits @ [ucast (drop_bit (n_acc - 8) acc)]) else (bits, n_acc))"
  by pat_completeness auto
termination by (relation "measure (\<lambda>(_, n, _). n)") auto

declare drain.simps [simp del]

definition encode_step :: "JointCode \<Rightarrow> nat \<Rightarrow> nat \<times> u16 \<Rightarrow> encoder \<Rightarrow> JointCodeError + encoder" where
  "encode_step code block isym st = (case isym of (i, symbol) \<Rightarrow>
    let a = length (jc_lengths code);
        offsets = (if i mod block = 0 then en_offsets st @ [en_total st] else en_offsets st);
        s = unat symbol in
    if a \<le> s then Inl (SymbolOutOfRange symbol a)
    else let l = jc_lengths code ! s in
      if l = 0 then Inl (UncodedSymbol symbol)
      else
       (let acc = push_bit l (en_acc st) OR of_nat (jc_codes code ! s) in
        case drain acc (en_n_acc st + l) (en_bits st) of (bits, n_acc) \<Rightarrow>
        Inr \<lparr>en_bits = bits, en_acc = acc, en_n_acc = n_acc, en_total = en_total st + l, en_offsets = offsets\<rparr>))"

definition encode :: "JointCode \<Rightarrow> u16 list \<Rightarrow> nat \<Rightarrow> JointCodeError + JointStream" where
  "encode code symbols block =
    (if block = 0 then Inl BadBlock
     else
      rbind (foldR (encode_step code block) (List.enumerate 0 symbols)
        \<lparr>en_bits = [], en_acc = 0, en_n_acc = 0, en_total = 0, en_offsets = []\<rparr>) (\<lambda>st.
      let bits = (if 0 < en_n_acc st then en_bits st @ [ucast (push_bit (8 - en_n_acc st) (en_acc st))] else en_bits st) in
      Inr \<lparr>js_bits = bits, js_block_offsets = en_offsets st, js_block = block, js_symbols = length symbols\<rparr>))"

definition peek_bit :: "bytes \<Rightarrow> nat \<Rightarrow> nat" where
  "peek_bit bits pos = (if pos div 8 < length bits then unat (drop_bit (7 - pos mod 8) (bits ! (pos div 8)) AND 1) else 0)"

definition peek :: "bytes \<Rightarrow> nat \<Rightarrow> nat \<Rightarrow> nat" where
  "peek bits b width = fold (\<lambda>k v. 2 * v + peek_bit bits (b + k)) [0..<width] 0"

fun decode_run :: "JointCode \<Rightarrow> bytes \<Rightarrow> nat \<Rightarrow> nat \<Rightarrow> JointCodeError + u16 list" where
  "decode_run code bits b 0 = Inr []"
| "decode_run code bits b (Suc n) =
    (case jc_table code ! peek bits b (jc_table_bits code) of (symbol, len) \<Rightarrow>
      if len = 0 \<or> length bits * 8 < b + len then Inl CorruptStream
      else rbind (decode_run code bits (b + len) n) (\<lambda>out. Inr (symbol # out)))"

definition decode :: "JointCode \<Rightarrow> JointStream \<Rightarrow> JointCodeError + u16 list" where
  "decode code stream = decode_run code (js_bits stream) 0 (js_symbols stream)"

text \<open>The length of the last block is a subtraction that panics when the stream names fewer symbols than its index.\<close>
definition decode_block :: "JointCode \<Rightarrow> JointStream \<Rightarrow> nat \<Rightarrow> JointCodeError fault + u16 list" where
  "decode_block code stream index =
    (if length (js_block_offsets stream) \<le> index then Inl (Fail BadBlock)
     else let start = js_block_offsets stream ! index; first = index * js_block stream in
       if js_symbols stream < first then Inl Panic
       else map_err Fail (decode_run code (js_bits stream) start (min (js_block stream) (js_symbols stream - first))))"

section \<open>Bits, most significant first\<close>

definition msb_bits :: "nat \<Rightarrow> 'a::semiring_bit_operations \<Rightarrow> bool list" where
  "msb_bits n v = rev (map (bit v) [0..<n])"

definition stream_bits :: "bytes \<Rightarrow> bool list" where
  "stream_bits bs = concat (map (msb_bits 8) bs)"

definition bits_val :: "bool list \<Rightarrow> nat" where
  "bits_val bs = fold (\<lambda>b v. 2 * v + of_bool b) bs 0"

lemma length_msb_bits [simp]: "length (msb_bits n v) = n"
  by (simp add: msb_bits_def)

lemma msb_bits_0 [simp]: "msb_bits 0 v = []"
  by (simp add: msb_bits_def)

lemma nth_msb_bits: "k < n \<Longrightarrow> msb_bits n v ! k = bit v (n - 1 - k)"
  by (simp add: msb_bits_def rev_nth)

lemma msb_bits_append: "msb_bits (m + n) v = msb_bits m (drop_bit n v) @ msb_bits n v"
  by (rule nth_equalityI) (auto simp: nth_msb_bits nth_append bit_drop_bit_eq add.commute)

lemma msb_bits_cong: "(\<And>i. i < n \<Longrightarrow> bit v i = bit w i) \<Longrightarrow> msb_bits n v = msb_bits n w"
  by (simp add: msb_bits_def)

lemma bits_val_fold: "fold (\<lambda>b v. 2 * v + of_bool b) ys (a :: nat) = a * 2 ^ length ys + bits_val ys"
proof (induction ys arbitrary: a)
  case (Cons y ys)
  have "bits_val (y # ys) = of_bool y * 2 ^ length ys + bits_val ys" using Cons.IH [of "of_bool y"] unfolding bits_val_def by simp
  then show ?case using Cons.IH [of "2 * a + of_bool y"] by (simp add: algebra_simps)
qed (simp add: bits_val_def)

lemma bits_val_append: "bits_val (xs @ ys) = bits_val xs * 2 ^ length ys + bits_val ys"
  using bits_val_fold [of ys "bits_val xs"] by (simp add: bits_val_def)

lemma bits_val_less: "bits_val bs < 2 ^ length bs"
proof (induction bs rule: rev_induct)
  case (snoc b bs)
  have "bits_val (bs @ [b]) \<le> 2 * bits_val bs + 1" by (simp add: bits_val_append bits_val_def)
  then show ?case using snoc by simp
qed (simp add: bits_val_def)

lemma bits_val_msb: "(v :: nat) < 2 ^ n \<Longrightarrow> bits_val (msb_bits n v) = v"
proof (induction n arbitrary: v)
  case (Suc n)
  have "msb_bits (Suc n) v = msb_bits n (drop_bit 1 v) @ msb_bits 1 v" using msb_bits_append [of n 1 v] by simp
  moreover have "bits_val (msb_bits n (drop_bit 1 v)) = v div 2" using Suc.IH [of "v div 2"] Suc.prems by (simp add: drop_bit_Suc)
  moreover have "bits_val (msb_bits 1 v) = v mod 2" by (simp add: msb_bits_def bits_val_def bit_0 odd_iff_mod_2_eq_one)
  ultimately show ?case by (simp add: bits_val_append)
qed (simp add: bits_val_def)

section \<open>The encoder writes the code words\<close>

lemma msb_bits_push:
  assumes "n + l \<le> 64" "c < 2 ^ l"
  shows "msb_bits (n + l) (push_bit l (acc :: u64) OR of_nat c) = msb_bits n acc @ msb_bits l c"
proof -
  have hi: "\<not> bit c i" if "l \<le> i" for i
  proof -
    have "c < 2 ^ i" using assms(2) power_increasing [OF that, of "2 :: nat"] by (rule order_less_le_trans) simp
    then show ?thesis by (simp add: bit_iff_odd)
  qed
  have "msb_bits n (drop_bit l (push_bit l acc OR of_nat c)) = msb_bits n acc"
    using assms(1) hi by (intro msb_bits_cong) (auto simp: bit_drop_bit_eq bit_or_iff bit_push_bit_iff bit_of_nat_iff possible_bit_word)
  moreover have "msb_bits l (push_bit l acc OR of_nat c) = msb_bits l c"
    using assms(1) by (auto simp: msb_bits_def bit_or_iff bit_push_bit_iff bit_of_nat_iff possible_bit_word)
  ultimately show ?thesis by (simp add: msb_bits_append)
qed

lemma msb_byte: "n \<le> 64 \<Longrightarrow> 8 \<le> n \<Longrightarrow>
    msb_bits n (acc :: u64) = msb_bits 8 (ucast (drop_bit (n - 8) acc) :: u8) @ msb_bits (n - 8) acc"
proof -
  assume n: "n \<le> 64" "8 \<le> n"
  then have "msb_bits n acc = msb_bits 8 (drop_bit (n - 8) acc) @ msb_bits (n - 8) acc"
    using msb_bits_append [of 8 "n - 8" acc] by simp
  moreover have "msb_bits 8 (drop_bit (n - 8) acc) = msb_bits 8 (ucast (drop_bit (n - 8) acc) :: u8)"
    by (auto simp: msb_bits_def bit_ucast_iff)
  ultimately show ?thesis by simp
qed

lemma drain_bits:
  assumes "n \<le> 64" "drain acc n bs = (bs', n')"
  shows "stream_bits bs' @ msb_bits n' acc = stream_bits bs @ msb_bits n acc \<and> n' < 8"
  using assms
proof (induction acc n bs rule: drain.induct)
  case (1 acc n bs)
  show ?case
  proof (cases "8 \<le> n")
    case True
    then show ?thesis using 1 msb_byte [of n acc] by (simp add: drain.simps [of acc n bs] stream_bits_def)
  qed (use 1 in \<open>simp add: drain.simps [of acc n bs]\<close>)
qed

lemma last_byte: "0 < n \<Longrightarrow> n < 8 \<Longrightarrow>
    msb_bits 8 (ucast (push_bit (8 - n) (acc :: u64)) :: u8) = msb_bits n acc @ replicate (8 - n) False"
  by (rule nth_equalityI) (auto simp: nth_msb_bits nth_append bit_ucast_iff bit_push_bit_iff)

text \<open>The code word of a symbol, and the symbols that have one.\<close>
definition cw :: "JointCode \<Rightarrow> u16 \<Rightarrow> bool list" where
  "cw c symbol = msb_bits (jc_lengths c ! unat symbol) (jc_codes c ! unat symbol)"

definition coded :: "JointCode \<Rightarrow> u16 \<Rightarrow> bool" where
  "coded c symbol \<longleftrightarrow> unat symbol < length (jc_lengths c) \<and> 0 < jc_lengths c ! unat symbol"

text \<open>Code words fit their lengths, and every table entry under a code word names its symbol.\<close>
definition code_ok :: "JointCode \<Rightarrow> bool" where
  "code_ok c \<longleftrightarrow> jc_table_bits c \<le> 15 \<and> (\<forall>symbol. coded c symbol \<longrightarrow>
     (let l = jc_lengths c ! unat symbol; w = jc_codes c ! unat symbol; shift = jc_table_bits c - l in
      l \<le> jc_table_bits c \<and> w < 2 ^ l \<and> (\<forall>r < 2 ^ shift. jc_table c ! (w * 2 ^ shift + r) = (symbol, l))))"

lemma code_ok_facts:
  assumes "code_ok c" "coded c symbol"
  shows "jc_lengths c ! unat symbol \<le> 15" "jc_codes c ! unat symbol < 2 ^ (jc_lengths c ! unat symbol)" "length (cw c symbol) = jc_lengths c ! unat symbol"
  using assms by (auto simp: code_ok_def Let_def cw_def dest: order_trans)

lemma encode_step_ok:
  assumes c: "code_ok c" "coded c symbol" and n: "en_n_acc st < 8"
  obtains st' where "encode_step c block (i, symbol) st = Inr st'" "en_n_acc st' < 8"
    "stream_bits (en_bits st') @ msb_bits (en_n_acc st') (en_acc st') = stream_bits (en_bits st) @ msb_bits (en_n_acc st) (en_acc st) @ cw c symbol"
    "en_total st' = en_total st + length (cw c symbol)"
    "en_offsets st' = en_offsets st @ (if i mod block = 0 then [en_total st] else [])"
proof -
  let ?l = "jc_lengths c ! unat symbol" and ?w = "jc_codes c ! unat symbol"
  let ?acc = "push_bit ?l (en_acc st) OR of_nat ?w"
  note f = code_ok_facts [OF c]
  obtain bits n' where d: "drain ?acc (en_n_acc st + ?l) (en_bits st) = (bits, n')" by (cases "drain ?acc (en_n_acc st + ?l) (en_bits st)")
  have "msb_bits (en_n_acc st + ?l) ?acc = msb_bits (en_n_acc st) (en_acc st) @ cw c symbol"
    unfolding cw_def using n f by (intro msb_bits_push) simp_all
  then have "stream_bits bits @ msb_bits n' ?acc = stream_bits (en_bits st) @ msb_bits (en_n_acc st) (en_acc st) @ cw c symbol \<and> n' < 8"
    using drain_bits [OF _ d] n f(1) by simp
  then show ?thesis using that c(2) d f(3) by (auto simp: encode_step_def coded_def Let_def)
qed

lemma encode_loop:
  assumes c: "code_ok c" and cd: "\<forall>s\<in>set symbols. coded c s" and n: "en_n_acc st < 8"
  shows "\<exists>st'. foldR (encode_step c block) (List.enumerate i symbols) st = Inr st' \<and> en_n_acc st' < 8
    \<and> stream_bits (en_bits st') @ msb_bits (en_n_acc st') (en_acc st')
      = stream_bits (en_bits st) @ msb_bits (en_n_acc st) (en_acc st) @ concat (map (cw c) symbols)
    \<and> en_offsets st' = en_offsets st
      @ map (\<lambda>j. en_total st + length (concat (map (cw c) (take (j - i) symbols)))) (filter (\<lambda>j. j mod block = 0) [i..<i + length symbols])"
  using cd n
proof (induction symbols arbitrary: i st)
  case (Cons s symbols)
  obtain st1 where st1: "encode_step c block (i, s) st = Inr st1" "en_n_acc st1 < 8"
    "stream_bits (en_bits st1) @ msb_bits (en_n_acc st1) (en_acc st1) = stream_bits (en_bits st) @ msb_bits (en_n_acc st) (en_acc st) @ cw c s"
    "en_total st1 = en_total st + length (cw c s)" "en_offsets st1 = en_offsets st @ (if i mod block = 0 then [en_total st] else [])"
    using encode_step_ok [OF c _ Cons.prems(2), of s block i] Cons.prems(1) by auto
  obtain st' where st': "foldR (encode_step c block) (List.enumerate (Suc i) symbols) st1 = Inr st'" "en_n_acc st' < 8"
    "stream_bits (en_bits st') @ msb_bits (en_n_acc st') (en_acc st')
      = stream_bits (en_bits st1) @ msb_bits (en_n_acc st1) (en_acc st1) @ concat (map (cw c) symbols)"
    "en_offsets st' = en_offsets st1
      @ map (\<lambda>j. en_total st1 + length (concat (map (cw c) (take (j - Suc i) symbols)))) (filter (\<lambda>j. j mod block = 0) [Suc i..<Suc i + length symbols])"
    using Cons.IH [of st1 "Suc i"] Cons.prems(1) st1(2) by auto
  let ?f = "\<lambda>j. en_total st + length (concat (map (cw c) (take (j - i) (s # symbols))))"
  have up: "[i..<i + length (s # symbols)] = i # [Suc i..<Suc i + length symbols]" by (simp add: upt_conv_Cons del: upt_Suc)
  have "map ?f (filter (\<lambda>j. j mod block = 0) [Suc i..<Suc i + length symbols])
      = map (\<lambda>j. en_total st1 + length (concat (map (cw c) (take (j - Suc i) symbols)))) (filter (\<lambda>j. j mod block = 0) [Suc i..<Suc i + length symbols])"
    using st1(4) by (intro map_cong) (auto simp: take_Cons' Suc_diff_Suc)
  then have "en_offsets st' = en_offsets st @ map ?f (filter (\<lambda>j. j mod block = 0) [i..<i + length (s # symbols)])"
    using st'(4) st1(5) unfolding up by (simp del: upt_Suc)
  moreover have "stream_bits (en_bits st') @ msb_bits (en_n_acc st') (en_acc st')
      = stream_bits (en_bits st) @ msb_bits (en_n_acc st) (en_acc st) @ concat (map (cw c) (s # symbols))"
    using st'(3) st1(3) by simp
  ultimately show ?case using st1(1) st'(1,2) by simp
qed simp

lemma multiples_upt:
  assumes b: "0 < b"
  shows "filter (\<lambda>j. j mod b = 0) [0..<n] = map (\<lambda>j. j * b) [0..<div_ceil n b]"
proof (rule sorted_distinct_set_unique)
  show "sorted (filter (\<lambda>j. j mod b = 0) [0..<n])" by (simp add: sorted_wrt_filter)
  show "sorted (map (\<lambda>j. j * b) [0..<div_ceil n b])" by (simp add: sorted_wrt_map sorted_wrt_iff_nth_less)
  show "distinct (map (\<lambda>j. j * b) [0..<div_ceil n b])" using b by (simp add: distinct_map inj_on_def)
  show "set (filter (\<lambda>j. j mod b = 0) [0..<n]) = set (map (\<lambda>j. j * b) [0..<div_ceil n b])"
  proof (intro set_eqI iffI)
    fix x assume "x \<in> set (filter (\<lambda>j. j mod b = 0) [0..<n])"
    then have "x = x div b * b" "x < n" by auto
    then show "x \<in> set (map (\<lambda>j. j * b) [0..<div_ceil n b])" using div_ceil_less [OF b, of "x div b" n] by (auto intro!: image_eqI)
  next
    fix x assume "x \<in> set (map (\<lambda>j. j * b) [0..<div_ceil n b])"
    then show "x \<in> set (filter (\<lambda>j. j mod b = 0) [0..<n])" using div_ceil_less [OF b] by auto
  qed
qed simp

lemma length_stream_bits [simp]: "length (stream_bits bs) = length bs * 8"
  by (induction bs) (simp_all add: stream_bits_def)

lemma nth_stream_bits: "pos < length bs * 8 \<Longrightarrow> stream_bits bs ! pos = bit (bs ! (pos div 8)) (7 - pos mod 8)"
proof -
  assume pos: "pos < length bs * 8"
  have w: "\<And>x. x \<in> set (map (msb_bits 8) bs) \<Longrightarrow> length x = 8" by auto
  have i: "pos div 8 < length bs" using pos by auto
  have W: "window (pos div 8 * 8) 8 (stream_bits bs) = msb_bits 8 (bs ! (pos div 8))"
    using window_concat_const [of "map (msb_bits 8) bs" 8 "pos div 8", OF w] i by (simp add: stream_bits_def)
  have "pos div 8 * 8 + 8 \<le> length (stream_bits bs)" using i mult_le_mono1 [of "Suc (pos div 8)" "length bs" 8] by simp
  then have "stream_bits bs ! pos = window (pos div 8 * 8) 8 (stream_bits bs) ! (pos mod 8)"
    by (subst nth_window) (simp_all add: div_mult_mod_eq)
  then show ?thesis unfolding W by (simp add: nth_msb_bits)
qed

lemma peek_bit_eq: "peek_bit bs pos = of_bool (pos < length bs * 8 \<and> stream_bits bs ! pos)"
proof (cases "pos < length bs * 8")
  case True
  moreover have "pos div 8 < length bs" using True by auto
  ultimately show ?thesis
    by (simp add: peek_bit_def nth_stream_bits and_one_eq odd_iff_mod_2_eq_one bit_iff_odd_drop_bit mod2_eq_if)
next
  case False
  then have "\<not> pos div 8 < length bs" by auto
  then show ?thesis using False by (simp add: peek_bit_def)
qed

lemma peek_val: "peek bs b width = bits_val (map (\<lambda>k. b + k < length bs * 8 \<and> stream_bits bs ! (b + k)) [0..<width])"
  unfolding peek_def bits_val_def peek_bit_eq by (simp add: fold_map comp_def)

lemma peek_prefix:
  assumes d: "drop b (stream_bits bs) = w @ rest" and l: "length w \<le> width"
  obtains r where "r < 2 ^ (width - length w)" "peek bs b width = bits_val w * 2 ^ (width - length w) + r"
proof -
  let ?g = "\<lambda>k. b + k < length bs * 8 \<and> stream_bits bs ! (b + k)"
  have len: "b + length w \<le> length bs * 8 \<or> w = []"
    using arg_cong [OF d, of length] by (cases w) auto
  have "map ?g [0..<length w] = w"
  proof (rule nth_equalityI)
    fix k assume "k < length (map ?g [0..<length w])"
    then have k: "k < length w" by simp
    then have "b + k < length bs * 8" using len by auto
    moreover have "stream_bits bs ! (b + k) = w ! k" using arg_cong [OF d, of "\<lambda>xs. xs ! k"] k calculation by (simp add: nth_append)
    ultimately show "map ?g [0..<length w] ! k = w ! k" using k by simp
  qed simp
  moreover have "[0..<width] = [0..<length w] @ [length w..<width]" using l by (metis le_add_diff_inverse upt_add_eq_append zero_le)
  ultimately have "peek bs b width = bits_val (w @ map ?g [length w..<width])" by (simp add: peek_val)
  then show ?thesis using that [of "bits_val (map ?g [length w..<width])"] bits_val_less [of "map ?g [length w..<width]"]
    by (simp add: bits_val_append)
qed

lemma decode_run_ok:
  assumes c: "code_ok c"
  shows "\<forall>s\<in>set symbols. coded c s \<Longrightarrow> drop b (stream_bits bs) = concat (map (cw c) symbols) @ rest \<Longrightarrow>
    decode_run c bs b (length symbols) = Inr symbols"
proof (induction symbols arbitrary: b)
  case (Cons s symbols)
  let ?l = "jc_lengths c ! unat s" and ?w = "jc_codes c ! unat s" and ?tb = "jc_table_bits c"
  have s: "coded c s" using Cons.prems(1) by simp
  note f = code_ok_facts [OF c s]
  have l: "?l \<le> ?tb" "0 < ?l" and tab: "\<And>r. r < 2 ^ (?tb - ?l) \<Longrightarrow> jc_table c ! (?w * 2 ^ (?tb - ?l) + r) = (s, ?l)"
    using c s by (auto simp: code_ok_def Let_def coded_def)
  have d: "drop b (stream_bits bs) = cw c s @ (concat (map (cw c) symbols) @ rest)" using Cons.prems(2) by simp
  obtain r where "r < 2 ^ (?tb - ?l)" "peek bs b ?tb = ?w * 2 ^ (?tb - ?l) + r"
    using peek_prefix [OF d, of ?tb] l(1) f(3) bits_val_msb [OF f(2)] by (metis cw_def)
  then have "jc_table c ! peek bs b ?tb = (s, ?l)" using tab by simp
  moreover have "b + ?l \<le> length bs * 8" using arg_cong [OF d, of length] f(3) l(2) by auto
  moreover have "drop (b + ?l) (stream_bits bs) = concat (map (cw c) symbols) @ rest"
    using arg_cong [OF d, of "drop ?l"] f(3) by (simp add: add.commute)
  ultimately show ?case using Cons.IH [of "b + ?l"] Cons.prems(1) l(2) by simp
qed simp

section \<open>The canonical code\<close>

abbreviation slots :: "nat \<Rightarrow> nat list \<Rightarrow> nat list \<Rightarrow> nat" where
  "slots m L os \<equiv> sum_list (map (\<lambda>s. 2 ^ (m - L ! s)) os)"

lemma fold_max: "fold max (xs :: nat list) a \<ge> a" "x \<in> set xs \<Longrightarrow> x \<le> fold max xs a"
proof -
  show *: "fold max xs a \<ge> a" for a by (induction xs arbitrary: a) (auto intro: order_trans [OF max.cobounded2])
  show "x \<in> set xs \<Longrightarrow> x \<le> fold max xs a"
  proof (induction xs arbitrary: a)
    case (Cons y xs)
    have "max y a \<le> fold max xs (max y a)" for y a by (induction xs arbitrary: y a) (auto intro: order_trans [OF max.cobounded2])
    then show ?case using Cons by (auto intro: order_trans [OF max.cobounded1])
  qed simp
qed

lemma assign_codes_outside: "s \<notin> set os \<Longrightarrow> assign_codes L os code prev codes ! s = codes ! s"
  by (induction os arbitrary: code prev codes) (auto simp: Let_def)

text \<open>In canonical order a code word, padded to the width of the table, starts where the entries of its predecessors end.\<close>
lemma assign_codes_start:
  assumes "distinct os" "\<And>s. s \<in> set os \<Longrightarrow> s < length codes \<and> prev \<le> L ! s \<and> L ! s \<le> m" "sorted (map (\<lambda>s. L ! s) os)"
    "if prev = 0 then code = 0 \<and> start = 0 else (code + 1) * 2 ^ (m - prev) = start" "i < length os"
    "\<And>s. s \<in> set os \<Longrightarrow> 0 < L ! s"
  shows "assign_codes L os code prev codes ! (os ! i) * 2 ^ (m - L ! (os ! i)) = start + slots m L (take i os)"
  using assms
proof (induction os arbitrary: code prev codes start i)
  case (Cons s os)
  let ?l = "L ! s"
  define code' where "code' = (if prev \<noteq> 0 then (code + 1) * 2 ^ (?l - prev) else code)"
  have l: "prev \<le> ?l" "?l \<le> m" "0 < ?l" "s < length codes" using Cons.prems(2,6) by auto
  have c: "code' * 2 ^ (m - ?l) = start"
  proof (cases "prev = 0")
    case False
    have "(2 :: nat) ^ (?l - prev) * 2 ^ (m - ?l) = 2 ^ (m - prev)" using l by (simp flip: power_add)
    then have "(code + 1) * 2 ^ (?l - prev) * 2 ^ (m - ?l) = (code + 1) * 2 ^ (m - prev)" by (metis mult.assoc)
    then show ?thesis using False Cons.prems(4) by (simp add: code'_def)
  qed (use Cons.prems(4) in \<open>simp add: code'_def\<close>)
  have step: "assign_codes L (s # os) code prev codes = assign_codes L os code' ?l (codes[s := code'])" by (simp add: Let_def code'_def)
  show ?case unfolding step
  proof (cases i)
    case 0
    then show "assign_codes L os code' ?l (codes[s := code']) ! ((s # os) ! i) * 2 ^ (m - L ! ((s # os) ! i)) = start + slots m L (take i (s # os))"
      using c l Cons.prems(1) assign_codes_outside [of s os] by simp
  next
    case (Suc j)
    have "assign_codes L os code' ?l (codes[s := code']) ! (os ! j) * 2 ^ (m - L ! (os ! j)) = (start + 2 ^ (m - ?l)) + slots m L (take j os)"
      using Cons.prems c l Suc by (intro Cons.IH) auto
    then show "assign_codes L os code' ?l (codes[s := code']) ! ((s # os) ! i) * 2 ^ (m - L ! ((s # os) ! i)) = start + slots m L (take i (s # os))"
      using Suc by simp
  qed
qed simp

lemma fill_next: "length pre = first \<Longrightarrow> n \<le> k \<Longrightarrow> fill first n e (pre @ replicate k z) = (pre @ replicate n e) @ replicate (k - n) z"
  by (simp add: fill_def)

lemma fill_table:
  assumes "\<And>i. i < length os \<Longrightarrow> codes ! (os ! i) * 2 ^ (m - L ! (os ! i)) = length pre + slots m L (take i os)" "slots m L os \<le> k"
  shows "fold (fill_symbol L codes m) os (pre @ replicate k (0, 0))
    = pre @ concat (map (\<lambda>s. replicate (2 ^ (m - L ! s)) (of_nat s, L ! s)) os) @ replicate (k - slots m L os) (0, 0)"
  using assms
proof (induction os arbitrary: pre k)
  case (Cons s os)
  let ?n = "2 ^ (m - L ! s) :: nat" and ?e = "(of_nat s, L ! s)"
  have "fill_symbol L codes m s (pre @ replicate k (0, 0)) = (pre @ replicate ?n ?e) @ replicate (k - ?n) (0, 0)"
    using Cons.prems(1) [of 0] Cons.prems(2) by (simp add: fill_symbol_def Let_def fill_next)
  moreover have "codes ! (os ! i) * 2 ^ (m - L ! (os ! i)) = length (pre @ replicate ?n ?e) + slots m L (take i os)" if "i < length os" for i
    using Cons.prems(1) [of "Suc i"] that by simp
  ultimately show ?case using Cons.IH [of "pre @ replicate ?n ?e" "k - ?n"] Cons.prems(2) by simp
qed simp

lemma concat_replicate_nth:
  assumes "i < length os" "r < n (os ! i)"
  shows "concat (map (\<lambda>s. replicate (n s) (g s)) os) ! (sum_list (map n (take i os)) + r) = g (os ! i)"
  using assms
proof (induction os arbitrary: i)
  case (Cons s os)
  then show ?case by (cases i) (simp_all add: nth_append)
qed simp

lemma slots_bound: "i < length os \<Longrightarrow> r < 2 ^ (m - L ! (os ! i)) \<Longrightarrow> slots m L (take i os) + r < slots m L os"
proof (induction os arbitrary: i)
  case (Cons s os)
  then show ?case by (cases i) auto
qed simp

lemma canonical_order_facts:
  shows "distinct (canonical_order L)" "set (canonical_order L) = {s. s < length L \<and> 0 < L ! s}" "sorted (map (\<lambda>s. L ! s) (canonical_order L))"
    "slots m L (canonical_order L) = kraft_sum m L"
proof -
  let ?xs = "filter (\<lambda>s. 0 < L ! s) [0..<length L]"
  show "distinct (canonical_order L)" "set (canonical_order L) = {s. s < length L \<and> 0 < L ! s}" by (auto simp: canonical_order_def)
  have "sorted (map (\<lambda>s. (L ! s, s)) (canonical_order L))" unfolding canonical_order_def by (rule sorted_sort_key)
  then show "sorted (map (\<lambda>s. L ! s) (canonical_order L))"
    unfolding sorted_wrt_map by (rule sorted_wrt_mono_rel [rotated]) (auto simp: less_eq_prod_simp)
  have "slots m L (canonical_order L) = sum_mset (image_mset (\<lambda>s. 2 ^ (m - L ! s)) (mset (canonical_order L)))"
    by (simp flip: sum_mset_sum_list)
  also have "\<dots> = slots m L ?xs" by (simp add: canonical_order_def flip: sum_mset_sum_list)
  also have "map (\<lambda>s. 2 ^ (m - L ! s)) ?xs = map (\<lambda>l. 2 ^ (m - l)) (filter (\<lambda>l. 0 < l) (map ((!) L) [0..<length L]))"
    by (simp add: filter_map comp_def)
  finally show "slots m L (canonical_order L) = kraft_sum m L" unfolding kraft_sum_def map_nth .
qed

lemma alphabet_ok: "alphabet t = Inr a \<longleftrightarrow> 0 < t \<and> t \<le> 9 \<and> a = 3 ^ t"
  by (auto simp: alphabet_def MAX_JOINT_PLANES_def)

lemma pow3_bound: "t \<le> 9 \<Longrightarrow> (3 :: nat) ^ t \<le> 19683"
  using power_increasing [of t 9 "3 :: nat"] by simp

lemma from_lengths_parts:
  assumes "from_lengths L t = Inr c"
  obtains m where "m = fold max L 0" "m \<le> 15" "length L = 3 ^ t" "t \<le> 9" "0 < t" "kraft_sum m L \<le> 2 ^ m" "jc_t c = t" "jc_lengths c = L" "jc_table_bits c = m"
    "jc_codes c = assign_codes L (canonical_order L) 0 0 (replicate (3 ^ t) 0)"
    "jc_table c = fold (fill_symbol L (jc_codes c) m) (canonical_order L) (replicate (2 ^ m) (0, 0))"
proof -
  let ?m = "fold max L 0"
  have "kraft_sum 0 L \<le> 2 ^ 0" if "?m = 0"
  proof -
    have "filter (\<lambda>l. 0 < l) L = []" using fold_max(2) [of _ L 0] that by (auto simp: filter_empty_conv)
    then show ?thesis by (simp add: kraft_sum_def)
  qed
  then show ?thesis using assms that [of ?m]
    by (auto simp: from_lengths_def rbind_eq_Inr alphabet_ok Let_def MAX_CODE_LEN_def not_less split: if_splits)
qed

text \<open>Each code word starts where the slots of the words before it end, so the table is the words' slots in canonical order.\<close>
lemma from_lengths_table:
  assumes "from_lengths L t = Inr c"
  obtains m where "m \<le> 15" "jc_lengths c = L" "jc_table_bits c = m" "\<forall>s<length L. L ! s \<le> m" "slots m L (canonical_order L) \<le> 2 ^ m"
    "\<forall>i<length (canonical_order L).
      jc_codes c ! (canonical_order L ! i) * 2 ^ (m - L ! (canonical_order L ! i)) = slots m L (take i (canonical_order L))"
    "jc_table c = concat (map (\<lambda>s. replicate (2 ^ (m - L ! s)) (of_nat s, L ! s)) (canonical_order L)) @ replicate (2 ^ m - slots m L (canonical_order L)) (0, 0)"
proof -
  obtain m where m: "m = fold max L 0" "m \<le> 15" "length L = 3 ^ t" "t \<le> 9" "kraft_sum m L \<le> 2 ^ m" "jc_lengths c = L" "jc_table_bits c = m"
    and codes: "jc_codes c = assign_codes L (canonical_order L) 0 0 (replicate (3 ^ t) 0)"
    and table: "jc_table c = fold (fill_symbol L (jc_codes c) m) (canonical_order L) (replicate (2 ^ m) (0, 0))"
    using from_lengths_parts [OF assms] by metis
  let ?os = "canonical_order L"
  note o = canonical_order_facts(1-3) [of L] canonical_order_facts(4) [of m L]
  have le: "L ! s \<le> m" if "s < length L" for s unfolding m(1) using that by (intro fold_max(2)) simp
  have start: "jc_codes c ! (?os ! i) * 2 ^ (m - L ! (?os ! i)) = slots m L (take i ?os)" if "i < length ?os" for i
  proof -
    have "assign_codes L ?os 0 0 (replicate (3 ^ t) 0) ! (?os ! i) * 2 ^ (m - L ! (?os ! i)) = 0 + slots m L (take i ?os)"
    proof (rule assign_codes_start [OF o(1) _ o(3) _ that])
      show "s < length (replicate (3 ^ t) (0 :: nat)) \<and> 0 \<le> L ! s \<and> L ! s \<le> m" if "s \<in> set ?os" for s
        using that o(2) le [of s] m(3) by simp
      show "0 < L ! s" if "s \<in> set ?os" for s using that o(2) by simp
    qed simp
    then show ?thesis unfolding codes by simp
  qed
  have "jc_table c = concat (map (\<lambda>s. replicate (2 ^ (m - L ! s)) (of_nat s, L ! s)) ?os) @ replicate (2 ^ m - slots m L ?os) (0, 0)"
    unfolding table using fill_table [where os = ?os and codes = "jc_codes c" and m = m and L = L and pre = "[]" and k = "2 ^ m"] start o(4) m(5) by simp
  then show ?thesis using le start o(4) m(5) by (intro that [OF m(2,6,7)]) simp_all
qed

lemma table_length:
  assumes "from_lengths L t = Inr c"
  shows "length (jc_table c) = 2 ^ jc_table_bits c"
proof -
  let ?os = "canonical_order L"
  obtain m where "m \<le> 15" "jc_lengths c = L" "jc_table_bits c = m" "\<forall>s<length L. L ! s \<le> m" "slots m L ?os \<le> 2 ^ m"
    "\<forall>i<length ?os. jc_codes c ! (?os ! i) * 2 ^ (m - L ! (?os ! i)) = slots m L (take i ?os)"
    "jc_table c = concat (map (\<lambda>s. replicate (2 ^ (m - L ! s)) (of_nat s, L ! s)) ?os) @ replicate (2 ^ m - slots m L ?os) (0, 0)"
    by (rule from_lengths_table [OF assms])
  then show ?thesis by (simp add: length_concat comp_def)
qed

lemma peek_less: "peek bits b width < 2 ^ width"
  using bits_val_less [of "map (\<lambda>k. b + k < length bits * 8 \<and> stream_bits bits ! (b + k)) [0..<width]"] by (simp add: peek_val)

lemma from_lengths_ok:
  assumes "from_lengths L t = Inr c"
  shows "code_ok c"
proof -
  let ?os = "canonical_order L"
  obtain m where m: "m \<le> 15" "jc_lengths c = L" "jc_table_bits c = m" and le: "\<forall>s<length L. L ! s \<le> m" and sl: "slots m L ?os \<le> 2 ^ m"
    and start: "\<forall>i<length ?os. jc_codes c ! (?os ! i) * 2 ^ (m - L ! (?os ! i)) = slots m L (take i ?os)"
    and tab: "jc_table c = concat (map (\<lambda>s. replicate (2 ^ (m - L ! s)) (of_nat s, L ! s)) ?os) @ replicate (2 ^ m - slots m L ?os) (0, 0)"
    by (rule from_lengths_table [OF assms])
  have "l \<le> m \<and> w < 2 ^ l \<and> (\<forall>r < 2 ^ (m - l). jc_table c ! (w * 2 ^ (m - l) + r) = (symbol, l))"
    if s: "coded c symbol" and lw: "l = L ! unat symbol" "w = jc_codes c ! unat symbol" for symbol l w
  proof -
    have "unat symbol \<in> set ?os" using s m(2) canonical_order_facts(2) [of L] by (simp add: coded_def)
    then obtain i where i: "i < length ?os" "?os ! i = unat symbol" by (auto simp: in_set_conv_nth)
    have lm: "l \<le> m" using le s m(2) lw by (simp add: coded_def)
    have W: "w * 2 ^ (m - l) = slots m L (take i ?os)" using start [rule_format, OF i(1)] i(2) lw by simp
    have bound: "slots m L (take i ?os) + r < slots m L ?os" if "r < 2 ^ (m - l)" for r
      using slots_bound [OF i(1), where r = r and m = m and L = L] that i(2) lw by simp
    have "w * 2 ^ (m - l) < 2 ^ l * 2 ^ (m - l)" using bound [of 0] W sl lm by (simp flip: power_add)
    moreover have "jc_table c ! (w * 2 ^ (m - l) + r) = (symbol, l)" if r: "r < 2 ^ (m - l)" for r
    proof -
      have "length (concat (map (\<lambda>s. replicate (2 ^ (m - L ! s)) (of_nat s :: u16, L ! s)) ?os)) = slots m L ?os"
        by (simp add: length_concat comp_def)
      then have "jc_table c ! (w * 2 ^ (m - l) + r) = (of_nat (?os ! i), L ! (?os ! i))"
        unfolding tab W using concat_replicate_nth [OF i(1), of r "\<lambda>s. 2 ^ (m - L ! s)" "\<lambda>s. (of_nat s :: u16, L ! s)"] r i(2) lw bound [OF r]
        by (simp add: nth_append)
      then show ?thesis using i(2) lw by simp
    qed
    ultimately show ?thesis using lm by simp
  qed
  then show ?thesis using m by (simp add: code_ok_def Let_def)
qed

section \<open>Round trips\<close>

lemma encode_ok:
  assumes c: "code_ok c" and cd: "\<forall>s\<in>set symbols. coded c s" and b: "0 < block"
  obtains stream pad where "encode c symbols block = Inr stream" "js_symbols stream = length symbols" "js_block stream = block"
    "stream_bits (js_bits stream) = concat (map (cw c) symbols) @ pad"
    "js_block_offsets stream = map (\<lambda>j. length (concat (map (cw c) (take (j * block) symbols)))) [0..<div_ceil (length symbols) block]"
    "length pad < 8"
proof -
  let ?st = "\<lparr>en_bits = [], en_acc = 0, en_n_acc = 0, en_total = 0, en_offsets = []\<rparr>"
  obtain st where st: "foldR (encode_step c block) (List.enumerate 0 symbols) ?st = Inr st" "en_n_acc st < 8"
    "stream_bits (en_bits st) @ msb_bits (en_n_acc st) (en_acc st) = concat (map (cw c) symbols)"
    "en_offsets st = map (\<lambda>j. length (concat (map (cw c) (take j symbols)))) (filter (\<lambda>j. j mod block = 0) [0..<length symbols])"
    using encode_loop [OF c cd, of ?st block 0] by (auto simp: stream_bits_def)
  let ?bits = "if 0 < en_n_acc st then en_bits st @ [ucast (push_bit (8 - en_n_acc st) (en_acc st))] else en_bits st"
  have "\<exists>pad. stream_bits ?bits = concat (map (cw c) symbols) @ pad \<and> length pad < 8"
  proof (cases "0 < en_n_acc st")
    case True
    then have "stream_bits ?bits = (stream_bits (en_bits st) @ msb_bits (en_n_acc st) (en_acc st)) @ replicate (8 - en_n_acc st) False"
      using last_byte [of "en_n_acc st" "en_acc st"] st(2) by (simp add: stream_bits_def)
    then show ?thesis unfolding st(3) using True by (intro exI [of _ "replicate (8 - en_n_acc st) False"]) simp
  qed (use st(3) in simp)
  then show ?thesis using that st(1,4) b multiples_upt [OF b, of "length symbols"] by (auto simp: encode_def comp_def)
qed

lemma encode_loop_coded:
  "foldR (encode_step c block) (List.enumerate i symbols) st = Inr st' \<Longrightarrow> \<forall>s\<in>set symbols. coded c s"
proof (induction symbols arbitrary: i st)
  case (Cons s symbols)
  then show ?case by (auto simp: encode_step_def coded_def Let_def split: sum.splits if_splits prod.splits)
qed simp

lemma encode_coded:
  assumes "encode c symbols block = Inr stream"
  shows "\<forall>s\<in>set symbols. coded c s" "0 < block"
proof -
  show b: "0 < block" using assms by (auto simp: encode_def split: if_splits)
  show "\<forall>s\<in>set symbols. coded c s"
  proof (cases "foldR (encode_step c block) (List.enumerate 0 symbols)
      \<lparr>en_bits = [], en_acc = 0, en_n_acc = 0, en_total = 0, en_offsets = []\<rparr>")
    case (Inl e)
    then show ?thesis using assms b by (simp add: encode_def)
  qed (rule encode_loop_coded)
qed

text \<open>Decoding a stream gives back the symbols, and each block decodes alone to its share of them.\<close>
lemma stream_roundtrip:
  assumes c: "code_ok c" and en: "encode c symbols block = Inr stream"
  shows "decode c stream = Inr symbols"
    and "i < div_ceil (length symbols) block \<Longrightarrow> decode_block c stream i = Inr (take block (drop (i * block) symbols))"
    and "\<not> i < div_ceil (length symbols) block \<Longrightarrow> decode_block c stream i = Inl (Fail BadBlock)"
proof -
  note cd = encode_coded [OF en]
  obtain stream' pad where st': "encode c symbols block = Inr stream'" "js_symbols stream' = length symbols" "js_block stream' = block"
    "stream_bits (js_bits stream') = concat (map (cw c) symbols) @ pad"
    "js_block_offsets stream' = map (\<lambda>j. length (concat (map (cw c) (take (j * block) symbols)))) [0..<div_ceil (length symbols) block]"
    using encode_ok [OF c cd] by blast
  have "stream' = stream" using st'(1) en by simp
  note st = st'(2,3) [unfolded this] and bits = st'(4) [unfolded this] and offs = st'(5) [unfolded this]
  show "decode c stream = Inr symbols" unfolding decode_def st(1) using cd(1) bits by (intro decode_run_ok [OF c]) simp_all
  show "\<not> i < div_ceil (length symbols) block \<Longrightarrow> decode_block c stream i = Inl (Fail BadBlock)" by (simp add: decode_block_def offs)
  assume i: "i < div_ceil (length symbols) block"
  then have lt: "i * block < length symbols" using div_ceil_less [OF cd(2)] by simp
  let ?mid = "take block (drop (i * block) symbols)"
  have split: "symbols = take (i * block) symbols @ ?mid @ drop block (drop (i * block) symbols)" by (metis append_take_drop_id)
  have "drop (length (concat (map (cw c) (take (i * block) symbols)))) (stream_bits (js_bits stream))
      = concat (map (cw c) ?mid) @ concat (map (cw c) (drop block (drop (i * block) symbols))) @ pad"
    unfolding bits by (subst (2) split) simp
  then have "decode_run c (js_bits stream) (js_block_offsets stream ! i) (length ?mid) = Inr ?mid"
    using cd(1) i offs by (intro decode_run_ok [OF c]) (auto dest: in_set_takeD in_set_dropD)
  moreover have "length ?mid = min block (length symbols - i * block)" by simp
  ultimately show "decode_block c stream i = Inr ?mid" using lt i by (simp add: decode_block_def offs st min.commute)
qed

section \<open>Folding planes\<close>

abbreviation digit_val :: "i8 list \<Rightarrow> nat" where
  "digit_val ds \<equiv> foldl (\<lambda>s d. s * 3 + nat (d + 1)) 0 ds"

lemma fold_trits: "foldR (fold_trit i) planes a = Inr s \<Longrightarrow>
    s = foldl (\<lambda>s d. s * 3 + nat (d + 1)) a (map (\<lambda>p. p ! i) planes) \<and> (\<forall>p\<in>set planes. -1 \<le> p ! i \<and> p ! i \<le> 1)"
proof (induction planes arbitrary: a)
  case (Cons p planes)
  have e: "fold_trit i p a = (if -1 \<le> p ! i \<and> p ! i \<le> 1 then Inr (a * 3 + nat (p ! i + 1)) else Inl (BadTrit (p ! i)))"
    by (simp add: fold_trit_def Let_def)
  have d: "-1 \<le> p ! i \<and> p ! i \<le> 1" and r: "foldR (fold_trit i) planes (a * 3 + nat (p ! i + 1)) = Inr s"
    using Cons.prems unfolding foldR.simps e by (simp_all split: if_splits)
  show ?case using Cons.IH [OF r] d by simp
qed simp

lemma unfold_digit_val: "\<forall>d\<in>set ds. -1 \<le> d \<and> d \<le> 1 \<Longrightarrow> unfold_trits (length ds) (digit_val ds) = ds \<and> digit_val ds < 3 ^ length ds"
proof (induction ds rule: rev_induct)
  case (snoc d ds)
  have d: "nat (d + 1) < 3" using snoc.prems by auto
  have "(digit_val ds * 3 + nat (d + 1)) div 3 = digit_val ds" "(digit_val ds * 3 + nat (d + 1)) mod 3 = nat (d + 1)" using d by auto
  then show ?case using snoc d by auto
qed simp

text \<open>Folding planes into symbols loses nothing.\<close>
lemma joint_symbols_roundtrip:
  assumes "joint_symbols planes = Inr symbols"
  shows "planes_from_symbols symbols (length planes) = Inr planes" "\<forall>s\<in>set symbols. unat s < 3 ^ length planes"
    "length symbols = length (hd planes)" "0 < length planes" "length planes \<le> 9"
proof -
  let ?t = "length planes" and ?n = "length (hd planes)"
  have t: "0 < ?t" "?t \<le> 9" and ne: "planes \<noteq> []" and len: "\<And>p. p \<in> set planes \<Longrightarrow> length p = ?n"
    and m: "mapR (\<lambda>i. rbind (foldR (fold_trit i) planes 0) (\<lambda>s. Inr (of_nat s))) [0..<?n] = Inr symbols"
    using assms by (auto simp: joint_symbols_def rbind_eq_Inr alphabet_ok Let_def list_ex_iff split: list.splits if_splits)
  show "0 < ?t" "?t \<le> 9" by (fact t)+
  have sl: "length symbols = ?n" using mapR_length [OF m] by simp
  then show "length symbols = ?n" .
  have sym: "unfold_trits ?t (unat (symbols ! i)) = map (\<lambda>p. p ! i) planes \<and> unat (symbols ! i) < 3 ^ ?t" if i: "i < ?n" for i
  proof -
    have "rbind (foldR (fold_trit i) planes 0) (\<lambda>s. Inr (of_nat s)) = Inr (symbols ! i)"
      using m i sl by (auto simp: mapR_eq_Inr list_all2_conv_all_nth)
    then obtain s where s: "foldR (fold_trit i) planes 0 = Inr s" "symbols ! i = of_nat s" by (auto simp: rbind_eq_Inr)
    note f = fold_trits [OF s(1)]
    have "unfold_trits ?t s = map (\<lambda>p. p ! i) planes \<and> s < 3 ^ ?t" using unfold_digit_val [of "map (\<lambda>p. p ! i) planes"] f by simp
    moreover have "(3 :: nat) ^ ?t \<le> 19683" using t(2) by (rule pow3_bound)
    ultimately show ?thesis using s(2) by (simp add: unat_of_nat)
  qed
  then show "\<forall>s\<in>set symbols. unat s < 3 ^ ?t" using sl by (auto simp: in_set_conv_nth)
  let ?ds = "map (\<lambda>i. map (\<lambda>p. p ! i) planes) [0..<?n]"
  have "mapR (\<lambda>symbol. if 3 ^ ?t \<le> unat symbol then Inl (SymbolOutOfRange symbol (3 ^ ?t)) else Inr (unfold_trits ?t (unat symbol))) symbols = Inr ?ds"
    unfolding mapR_eq_Inr using sym sl by (simp add: list_all2_conv_all_nth linorder_not_le [symmetric])
  moreover have "map (\<lambda>p. map (\<lambda>d. d ! p) ?ds) [0..<?t] = planes"
  proof (rule nth_equalityI)
    fix p assume "p < length (map (\<lambda>p. map (\<lambda>d. d ! p) ?ds) [0..<?t])"
    then have p: "p < ?t" by simp
    then show "map (\<lambda>p. map (\<lambda>d. d ! p) ?ds) [0..<?t] ! p = planes ! p" using len [of "planes ! p"] by (auto intro!: nth_equalityI)
  qed simp
  ultimately show "planes_from_symbols symbols ?t = Inr planes" using t by (simp add: planes_from_symbols_def alphabet_def MAX_JOINT_PLANES_def)
qed

end
