(* ===== verification/JointBuild.thy ===== *)
theory JointBuild
  imports JointCode
begin

text \<open>
  Building the joint code (\<open>tritium-format/src/salt_joint_code.rs\<close>): Huffman code lengths with a binary heap and a parent vector, and the
  repair that limits them to fifteen bits.  Weights are 64-bit words that wrap; nothing below depends on their values.
  The climb from a leaf to the root is a loop over the parent vector, here an option-valued partial function.
\<close>

section \<open>Lengths\<close>

text \<open>The heap is the collection of its elements; \<open>pop\<close> takes the least by weight, then by node.\<close>
definition pop_min :: "(u64 \<times> nat) list \<Rightarrow> (u64 \<times> nat) \<times> (u64 \<times> nat) list" where
  "pop_min heap = (let m = fold min (tl heap) (hd heap) in (m, remove1 m heap))"

lemma fold_min_in: "fold min xs a \<in> set (a # (xs :: 'a::linorder list))"
  by (induction xs arbitrary: a) (auto simp: min_def)

lemma pop_min_in: "heap \<noteq> [] \<Longrightarrow> pop_min heap = (m, h) \<Longrightarrow> m \<in> set heap \<and> h = remove1 m heap"
  using fold_min_in [of "tl heap" "hd heap"] by (cases heap) (auto simp: pop_min_def Let_def)

lemma pop_min_length: "heap \<noteq> [] \<Longrightarrow> length (snd (pop_min heap)) = length heap - 1"
  using pop_min_in [of heap] by (cases "pop_min heap") (simp add: length_remove1)

function merge_loop :: "(u64 \<times> nat) list \<Rightarrow> u64 list \<Rightarrow> nat option list \<Rightarrow> nat option list" where
  "merge_loop heap weight parent =
    (if 1 < length heap then
      (case pop_min heap of ((w1, n1), h1) \<Rightarrow>
       case pop_min h1 of ((w2, n2), h2) \<Rightarrow>
       let node = length weight in
       merge_loop (h2 @ [(w1 + w2, node)]) (weight @ [w1 + w2]) ((parent @ [None])[n1 := Some node, n2 := Some node]))
     else parent)"
  by pat_completeness auto
termination
proof (relation "measure (\<lambda>(heap, _, _). length heap)", simp)
  fix heap :: "(u64 \<times> nat) list" and weight :: "u64 list" and parent :: "nat option list" and m1 h1 w1 n1 m2 h2 w2 n2 node
  assume len: "1 < length heap" and m: "(m1, h1) = pop_min heap" "(w1, n1) = m1" "(m2, h2) = pop_min h1" "(w2, n2) = m2"
  have "heap \<noteq> []" using len by auto
  then have h1: "length h1 = length heap - 1" using pop_min_length [of heap] m(1) by (metis snd_conv)
  then have "h1 \<noteq> []" using len by auto
  then have "length h2 = length h1 - 1" using pop_min_length [of h1] m(3) by (metis snd_conv)
  then show "((h2 @ [(w1 + w2, node)], weight @ [w1 + w2], (parent @ [None])[n1 := Some node, n2 := Some node]), heap, weight, parent)
      \<in> measure (\<lambda>(heap, _, _). length heap)" using h1 len by simp
qed

declare merge_loop.simps [simp del]

partial_function (option) node_depth :: "nat option list \<Rightarrow> nat \<Rightarrow> nat \<Rightarrow> nat option" where
  "node_depth parent n depth = (case parent ! n of None \<Rightarrow> Some depth | Some p \<Rightarrow> node_depth parent p (depth + 1))"

fun set_depths :: "nat option list \<Rightarrow> nat list \<Rightarrow> nat list \<Rightarrow> nat list option" where
  "set_depths parent [] lengths = Some lengths"
| "set_depths parent (s # live) lengths = Option.bind (node_depth parent s 0) (\<lambda>depth. set_depths parent live (lengths[s := min depth 255]))"

definition huffman_lengths :: "u64 list \<Rightarrow> nat list option" where
  "huffman_lengths freq =
    (let a = length freq; live = filter (\<lambda>s. 0 < freq ! s) [0..<a]; lengths = replicate a 0 in
     case live of
       [] \<Rightarrow> Some lengths
     | [s] \<Rightarrow> Some (lengths[s := 1])
     | _ \<Rightarrow>
        (let parent = merge_loop (map (\<lambda>s. (freq ! s, s)) live) freq (replicate a None) in
         set_depths parent live lengths))"

function limit_loop :: "nat \<Rightarrow> nat list \<Rightarrow> nat list \<Rightarrow> nat \<Rightarrow> nat list" where
  "limit_loop max_len order lengths kraft =
    (if 2 ^ max_len < kraft then
      (case List.find (\<lambda>s. lengths ! s < max_len) order of
         None \<Rightarrow> lengths
       | Some s \<Rightarrow> limit_loop max_len order (lengths[s := lengths ! s + 1]) (kraft - 2 ^ (max_len - lengths ! s - 1)))
     else lengths)"
  by pat_completeness auto
termination by (relation "measure (\<lambda>(_, _, _, kraft). kraft)") auto

declare limit_loop.simps [simp del]

definition limit_lengths :: "nat list \<Rightarrow> u64 list \<Rightarrow> nat \<Rightarrow> nat list" where
  "limit_lengths lengths freq max_len =
    (if list_all (\<lambda>l. l \<le> max_len) lengths then lengths
     else
      (let lengths = map (\<lambda>l. if max_len < l then max_len else l) lengths;
           order = sort_key (\<lambda>s. freq ! s) (filter (\<lambda>s. 0 < lengths ! s) [0..<length lengths])
       in limit_loop max_len order lengths (kraft_sum max_len lengths)))"

definition build :: "u64 list \<Rightarrow> nat \<Rightarrow> (JointCodeError + JointCode) option" where
  "build freq t =
    (case alphabet t of Inl e \<Rightarrow> Some (Inl e)
     | Inr a \<Rightarrow>
       if length freq \<noteq> a then Some (Inl (AlphabetSize a (length freq)))
       else let live = length (filter (\<lambda>f. 0 < f) freq); capacity = 2 ^ MAX_CODE_LEN in
         if capacity < live then Some (Inl (TooManySymbols live capacity))
         else Option.bind (huffman_lengths freq) (\<lambda>lengths.
           Some (from_lengths (limit_lengths lengths freq MAX_CODE_LEN) t)))"

section \<open>The parent vector is a tree\<close>

definition climbs :: "nat option list \<Rightarrow> bool" where
  "climbs parent \<longleftrightarrow> (\<forall>n p. n < length parent \<longrightarrow> parent ! n = Some p \<longrightarrow> n < p \<and> p < length parent)"

definition depth_of :: "nat option list \<Rightarrow> nat \<Rightarrow> nat" where
  "depth_of parent n = the (node_depth parent n 0)"

text \<open>Parents have larger numbers, so the climb ends.\<close>
lemma node_depth_returns: "climbs parent \<Longrightarrow> n < length parent \<Longrightarrow> \<exists>d. \<forall>k. node_depth parent n k = Some (k + d)"
proof (induction "length parent - n" arbitrary: n rule: less_induct)
  case less
  show ?case
  proof (cases "parent ! n")
    case None
    then show ?thesis by (intro exI [of _ 0]) (simp add: node_depth.simps [of parent n])
  next
    case (Some p)
    then have p: "n < p" "p < length parent" using less.prems unfolding climbs_def by blast+
    then have "length parent - p < length parent - n" by simp
    then obtain d where "\<forall>k. node_depth parent p k = Some (k + d)" using less.hyps less.prems(1) p(2) by blast
    then show ?thesis using Some by (intro exI [of _ "Suc d"]) (simp add: node_depth.simps [of parent n])
  qed
qed

lemma depth_of_eq:
  assumes "climbs parent" "n < length parent"
  shows "node_depth parent n 0 = Some (depth_of parent n)"
    "depth_of parent n = (case parent ! n of None \<Rightarrow> 0 | Some p \<Rightarrow> Suc (depth_of parent p))"
proof -
  obtain d where d: "\<And>k. node_depth parent n k = Some (k + d)" using node_depth_returns [OF assms] by blast
  then show "node_depth parent n 0 = Some (depth_of parent n)" by (simp add: depth_of_def)
  show "depth_of parent n = (case parent ! n of None \<Rightarrow> 0 | Some p \<Rightarrow> Suc (depth_of parent p))"
  proof (cases "parent ! n")
    case None
    then show ?thesis by (simp add: depth_of_def node_depth.simps [of parent n])
  next
    case (Some p)
    then have "p < length parent" using assms unfolding climbs_def by blast
    then obtain e where e: "\<And>k. node_depth parent p k = Some (k + e)" using node_depth_returns [OF assms(1)] by blast
    then show ?thesis using Some by (simp add: depth_of_def node_depth.simps [of parent n])
  qed
qed

definition forest :: "(u64 \<times> nat) list \<Rightarrow> u64 list \<Rightarrow> nat option list \<Rightarrow> bool" where
  "forest heap weight parent \<longleftrightarrow> length weight = length parent \<and> climbs parent \<and> distinct (map snd heap)
    \<and> (\<forall>x\<in>set heap. snd x < length parent \<and> parent ! snd x = None)"

lemma two_pops:
  assumes "1 < length heap" "pop_min heap = (m1, h1)" "pop_min h1 = (m2, h2)"
  shows "mset heap = add_mset m1 (add_mset m2 (mset h2))"
proof -
  have "heap \<noteq> []" using assms(1) by auto
  then have m1: "m1 \<in> set heap" "h1 = remove1 m1 heap" using pop_min_in assms(2) by blast+
  then have "length h1 = length heap - 1" by (simp add: length_remove1)
  then have "h1 \<noteq> []" using assms(1) by auto
  then have "m2 \<in> set h1" "h2 = remove1 m2 h1" using pop_min_in assms(3) by blast+
  then have "mset h1 = add_mset m2 (mset h2)" by simp
  moreover have "mset heap = add_mset m1 (mset h1)" using m1 by simp
  ultimately show ?thesis by simp
qed

text \<open>One round of the loop.\<close>
lemma forest_merge:
  assumes f: "forest heap weight parent" and h: "mset heap = add_mset (w1, n1) (add_mset (w2, n2) (mset h2))"
  defines "parent' \<equiv> (parent @ [None])[n1 := Some (length weight), n2 := Some (length weight)]"
  shows "forest (h2 @ [(w1 + w2, length weight)]) (weight @ [w1 + w2]) parent'"
    and "parent' ! n1 = Some (length weight)" "parent' ! n2 = Some (length weight)" "n1 < length parent" "n2 < length parent"
    and "\<And>n. n < length parent \<Longrightarrow> parent ! n \<noteq> None \<Longrightarrow> parent' ! n = parent ! n"
proof -
  have sh: "set heap = insert (w1, n1) (insert (w2, n2) (set h2))" using arg_cong [OF h, of set_mset] by simp
  have "mset (map snd heap) = mset (n1 # n2 # map snd h2)" using arg_cong [OF h, of "image_mset snd"] by simp
  then have d: "distinct (n1 # n2 # map snd h2)" using f mset_eq_imp_distinct_iff by (fastforce simp: forest_def)
  have hp: "\<And>x. x \<in> set heap \<Longrightarrow> snd x < length parent \<and> parent ! snd x = None" and len: "length weight = length parent"
    and cl: "climbs parent" using f by (auto simp: forest_def)
  show n: "n1 < length parent" "n2 < length parent" using hp [of "(w1, n1)"] hp [of "(w2, n2)"] sh by simp_all
  have r: "parent ! n1 = None" "parent ! n2 = None" using hp [of "(w1, n1)"] hp [of "(w2, n2)"] sh by simp_all
  show "parent' ! n1 = Some (length weight)" "parent' ! n2 = Some (length weight)" using n d by (auto simp: parent'_def nth_list_update)
  have old: "parent' ! n = parent ! n" if "n < length parent" "n \<noteq> n1" "n \<noteq> n2" for n
    using that by (simp add: parent'_def nth_append)
  show "parent' ! n = parent ! n" if "n < length parent" "parent ! n \<noteq> None" for n
    using that r by (intro old) auto
  have "climbs parent'" unfolding climbs_def
  proof (intro allI impI)
    fix m p assume m: "m < length parent'" "parent' ! m = Some p"
    consider "m = n1 \<or> m = n2" | "m < length parent" "m \<noteq> n1" "m \<noteq> n2" | "m = length parent" "m \<noteq> n1" "m \<noteq> n2"
      using m(1) by (fastforce simp: parent'_def)
    then show "m < p \<and> p < length parent'"
    proof cases
      case 1
      then have "p = length weight" using m(2) n by (auto simp: parent'_def nth_list_update split: if_splits)
      then show ?thesis using 1 n len by (auto simp: parent'_def)
    next
      case 2
      then have "m < p" "p < length parent" using old [of m] m(2) cl unfolding climbs_def by metis+
      then show ?thesis by (simp add: parent'_def)
    next
      case 3
      then show ?thesis using m(2) by (simp add: parent'_def)
    qed
  qed
  moreover have "snd x < length parent' \<and> parent' ! snd x = None" if "x \<in> set (h2 @ [(w1 + w2, length weight)])" for x
  proof (cases "x \<in> set h2")
    case True
    then have "snd x \<noteq> n1" "snd x \<noteq> n2" using d by auto
    moreover have "snd x < length parent" "parent ! snd x = None" using hp [of x] True sh by auto
    ultimately show ?thesis using old [of "snd x"] by (simp add: parent'_def)
  next
    case False
    then have "snd x = length parent" using that len by auto
    then show ?thesis using n by (simp add: parent'_def)
  qed
  moreover have "distinct (map snd (h2 @ [(w1 + w2, length weight)]))"
  proof -
    have "length weight \<notin> set (map snd h2)"
    proof
      assume "length weight \<in> set (map snd h2)"
      then obtain x where "x \<in> set h2" "snd x = length weight" by auto
      then show False using hp [of x] sh len by simp
    qed
    then show ?thesis using d by simp
  qed
  ultimately show "forest (h2 @ [(w1 + w2, length weight)]) (weight @ [w1 + w2]) parent'"
    using len by (simp add: forest_def parent'_def)
qed

text \<open>The subtrees of the heap share the unit of code space: each node gets half of the share of its parent.\<close>
definition shares :: "(u64 \<times> nat) list \<Rightarrow> nat option list \<Rightarrow> nat option list \<Rightarrow> bool" where
  "shares heap parent tree \<longleftrightarrow> climbs tree \<and> length parent \<le> length tree
    \<and> (\<forall>n<length parent. parent ! n \<noteq> None \<longrightarrow> tree ! n = parent ! n)
    \<and> (\<forall>D. (\<forall>n<length tree. depth_of tree n \<le> D) \<longrightarrow> (\<Sum>x\<leftarrow>heap. 2 ^ (D - depth_of tree (snd x))) = (2 :: nat) ^ D)"

lemma shares_merge:
  assumes f: "forest heap weight parent" and h: "mset heap = add_mset (w1, n1) (add_mset (w2, n2) (mset h2))"
    and s: "shares (h2 @ [(w1 + w2, length weight)]) ((parent @ [None])[n1 := Some (length weight), n2 := Some (length weight)]) tree"
  shows "shares heap parent tree"
proof -
  let ?parent = "(parent @ [None])[n1 := Some (length weight), n2 := Some (length weight)]" and ?node = "length weight"
  note m = forest_merge [OF f h]
  have cl: "climbs tree" and len: "length parent < length tree" and keep: "\<And>n. n < length ?parent \<Longrightarrow> ?parent ! n \<noteq> None \<Longrightarrow> tree ! n = ?parent ! n"
    and sum: "\<And>D. (\<forall>n<length tree. depth_of tree n \<le> D) \<Longrightarrow> (\<Sum>x\<leftarrow>h2 @ [(w1 + w2, ?node)]. 2 ^ (D - depth_of tree (snd x))) = (2 :: nat) ^ D"
    using s by (auto simp: shares_def)
  have t: "tree ! n1 = Some ?node" "tree ! n2 = Some ?node" using keep [of n1] keep [of n2] m(2-5) by simp_all
  have d: "depth_of tree n1 = Suc (depth_of tree ?node)" "depth_of tree n2 = Suc (depth_of tree ?node)"
    using depth_of_eq(2) [OF cl, of n1] depth_of_eq(2) [OF cl, of n2] t m(4,5) len by simp_all
  have "(\<Sum>x\<leftarrow>heap. 2 ^ (D - depth_of tree (snd x))) = (2 :: nat) ^ D" if D: "\<forall>n<length tree. depth_of tree n \<le> D" for D
  proof -
    let ?g = "\<lambda>x :: u64 \<times> nat. (2 :: nat) ^ (D - depth_of tree (snd x))"
    have "(\<Sum>x\<leftarrow>heap. ?g x) = sum_mset (image_mset ?g (mset heap))" by (simp flip: sum_mset_sum_list)
    also have "\<dots> = ?g (w1, n1) + ?g (w2, n2) + (\<Sum>x\<leftarrow>h2. ?g x)" unfolding h by (simp add: add.assoc flip: sum_mset_sum_list)
    also have "?g (w1, n1) + ?g (w2, n2) = ?g (w1 + w2, ?node)"
    proof -
      have "depth_of tree n1 \<le> D" using D m(4) len by simp
      then have "D - depth_of tree ?node = Suc (D - depth_of tree n1)" using d(1) by simp
      then show ?thesis using d by simp
    qed
    finally show ?thesis using sum [OF D] by (simp add: add.commute)
  qed
  moreover have "tree ! n = parent ! n" if "n < length parent" "parent ! n \<noteq> None" for n using keep [of n] m(6) [OF that] that by simp
  ultimately show ?thesis using cl len by (simp add: shares_def)
qed

lemma merge_loop_shares: "forest heap weight parent \<Longrightarrow> heap \<noteq> [] \<Longrightarrow> shares heap parent (merge_loop heap weight parent)"
proof (induction heap weight parent rule: merge_loop.induct)
  case (1 heap weight parent)
  show ?case
  proof (cases "1 < length heap")
    case True
    obtain w1 n1 h1 where p1: "pop_min heap = ((w1, n1), h1)" by (metis surj_pair)
    obtain w2 n2 h2 where p2: "pop_min h1 = ((w2, n2), h2)" by (metis surj_pair)
    note h = two_pops [OF True p1 p2]
    have "shares (h2 @ [(w1 + w2, length weight)]) ((parent @ [None])[n1 := Some (length weight), n2 := Some (length weight)])
        (merge_loop (h2 @ [(w1 + w2, length weight)]) (weight @ [w1 + w2]) ((parent @ [None])[n1 := Some (length weight), n2 := Some (length weight)]))"
      by (rule 1(1) [OF True p1 [symmetric] refl p2 [symmetric] refl refl forest_merge(1) [OF 1(2) h]]) simp
    then show ?thesis using shares_merge [OF 1(2) h] True p1 p2 by (simp add: merge_loop.simps [of heap weight parent] Let_def)
  next
    case False
    then obtain x where x: "heap = [x]" using 1(3) by (cases heap) auto
    then have "snd x < length parent" "parent ! snd x = None" "climbs parent" using 1(2) by (auto simp: forest_def)
    then have "depth_of parent (snd x) = 0" using depth_of_eq(2) [of parent "snd x"] by simp
    then show ?thesis using x \<open>climbs parent\<close> by (simp add: merge_loop.simps [of "[x]" weight parent] shares_def)
  qed
qed

section \<open>Kraft sums\<close>

lemma kraft_sum_alt: "kraft_sum m L = (\<Sum>s<length L. if 0 < L ! s then 2 ^ (m - L ! s) else 0)"
proof -
  have "kraft_sum m L = (\<Sum>l\<leftarrow>L. if 0 < l then 2 ^ (m - l) else 0)"
    unfolding kraft_sum_def by (induction L) auto
  then show ?thesis by (simp add: sum_list_sum_nth atLeast0LessThan)
qed

lemma kraft_sum_longer:
  assumes s: "s < length L" "0 < L ! s" "L ! s < m"
  shows "kraft_sum m (L[s := L ! s + 1]) + 2 ^ (m - L ! s - 1) = kraft_sum m L"
proof -
  let ?g = "\<lambda>L s. if 0 < L ! s then 2 ^ (m - L ! s) else 0 :: nat"
  have e: "kraft_sum m L = ?g L s + (\<Sum>i\<in>{..<length L} - {s}. ?g L i)" if "s < length L" for L :: "nat list"
    using that unfolding kraft_sum_alt by (intro sum.remove) auto
  have "(\<Sum>i\<in>{..<length L} - {s}. ?g (L[s := L ! s + 1]) i) = (\<Sum>i\<in>{..<length L} - {s}. ?g L i)" by (intro sum.cong) auto
  moreover have "(2 :: nat) ^ (m - L ! s) = 2 ^ (m - L ! s - 1) + 2 ^ (m - L ! s - 1)"
    using s(3) by (cases "m - L ! s") auto
  moreover have "?g (L[s := L ! s + 1]) s = 2 ^ (m - L ! s - 1)" using s(1) by simp
  ultimately show ?thesis using e [of L] e [of "L[s := L ! s + 1]"] s by simp
qed

lemma kraft_sum_full:
  assumes "\<And>s. s < length L \<Longrightarrow> 0 < L ! s \<Longrightarrow> m \<le> L ! s"
  shows "kraft_sum m L \<le> length L"
proof -
  have "kraft_sum m L \<le> (\<Sum>s<length L. 1)" unfolding kraft_sum_alt using assms by (intro sum_mono) auto
  then show ?thesis by simp
qed

text \<open>The repair ends with lengths that form a prefix code, for the same symbols.\<close>
lemma limit_loop_ok:
  assumes "set order = {s. s < length L \<and> 0 < L ! s}" "\<And>s. s < length L \<Longrightarrow> L ! s \<le> m" "kraft = kraft_sum m L" "length L \<le> 2 ^ m"
  defines "R \<equiv> limit_loop m order L kraft"
  shows "length R = length L \<and> (\<forall>s<length L. R ! s \<le> m \<and> (0 < R ! s \<longleftrightarrow> 0 < L ! s)) \<and> kraft_sum m R \<le> 2 ^ m"
  using assms(1-4) unfolding R_def
proof (induction m order L kraft rule: limit_loop.induct)
  case (1 m order L kraft)
  show ?case
  proof (cases "2 ^ m < kraft")
    case False
    then have "limit_loop m order L kraft = L" by (simp add: limit_loop.simps [of m order L kraft])
    then show ?thesis using False 1(3,4) by simp
  next
    case True
    show ?thesis
    proof (cases "List.find (\<lambda>s. L ! s < m) order")
      case None
      have "m \<le> L ! s" if "s < length L" "0 < L ! s" for s
      proof -
        have "s \<in> set order" using that 1(2) by simp
        then show ?thesis using None [unfolded find_None_iff] by (meson not_less)
      qed
      then have "kraft_sum m L \<le> 2 ^ m" using kraft_sum_full [of L m] 1(5) by simp
      then show ?thesis using True 1(4) by simp
    next
      case (Some s)
      then have s: "s < length L" "0 < L ! s" "L ! s < m" using 1(2) by (auto simp: find_Some_iff)
      let ?L = "L[s := L ! s + 1]"
      have "length (limit_loop m order ?L (kraft - 2 ^ (m - L ! s - 1))) = length ?L \<and>
          (\<forall>i<length ?L. limit_loop m order ?L (kraft - 2 ^ (m - L ! s - 1)) ! i \<le> m \<and>
             (0 < limit_loop m order ?L (kraft - 2 ^ (m - L ! s - 1)) ! i \<longleftrightarrow> 0 < ?L ! i)) \<and>
          kraft_sum m (limit_loop m order ?L (kraft - 2 ^ (m - L ! s - 1))) \<le> 2 ^ m"
      proof (rule 1(1) [OF True Some])
        show "set order = {i. i < length ?L \<and> 0 < ?L ! i}" using 1(2) s by (auto simp: nth_list_update)
        show "?L ! i \<le> m" if "i < length ?L" for i using that 1(3) s by (auto simp: nth_list_update)
        show "kraft - 2 ^ (m - L ! s - 1) = kraft_sum m ?L" using kraft_sum_longer [OF s] 1(4) by linarith
        show "length ?L \<le> 2 ^ m" using 1(5) by simp
      qed
      moreover have "0 < ?L ! i \<longleftrightarrow> 0 < L ! i" if "i < length L" for i using that s by (auto simp: nth_list_update)
      moreover have "limit_loop m order L kraft = limit_loop m order ?L (kraft - 2 ^ (m - L ! s - 1))"
        using True Some by (simp add: limit_loop.simps [of m order L kraft])
      ultimately show ?thesis by simp
    qed
  qed
qed

lemma limit_lengths_ok:
  fixes freq
  assumes "length L \<le> 2 ^ m" "0 < m" "(\<And>s. s < length L \<Longrightarrow> L ! s \<le> m) \<Longrightarrow> kraft_sum m L \<le> 2 ^ m"
  defines "R \<equiv> limit_lengths L freq m"
  shows "length R = length L \<and> (\<forall>s<length L. R ! s \<le> m \<and> (0 < R ! s \<longleftrightarrow> 0 < L ! s)) \<and> kraft_sum m R \<le> 2 ^ m"
proof (cases "list_all (\<lambda>l. l \<le> m) L")
  case True
  then show ?thesis using assms(3) by (simp add: R_def limit_lengths_def list_all_length)
next
  case False
  let ?L = "map (\<lambda>l. if m < l then m else l) L"
  let ?order = "sort_key (\<lambda>s. freq ! s) (filter (\<lambda>s. 0 < ?L ! s) [0..<length ?L])"
  have "R = limit_loop m ?order ?L (kraft_sum m ?L)" using False by (simp add: R_def limit_lengths_def Let_def)
  moreover have "length (limit_loop m ?order ?L (kraft_sum m ?L)) = length ?L \<and>
      (\<forall>s<length ?L. limit_loop m ?order ?L (kraft_sum m ?L) ! s \<le> m \<and> (0 < limit_loop m ?order ?L (kraft_sum m ?L) ! s \<longleftrightarrow> 0 < ?L ! s)) \<and>
      kraft_sum m (limit_loop m ?order ?L (kraft_sum m ?L)) \<le> 2 ^ m"
    using assms(1) by (intro limit_loop_ok) auto
  ultimately show ?thesis using assms(2) by auto
qed

section \<open>Huffman lengths\<close>

lemma set_depths_ok:
  assumes "climbs tree" "distinct live" "\<And>s. s \<in> set live \<Longrightarrow> s < length tree \<and> s < length L"
  shows "\<exists>R. set_depths tree live L = Some R \<and> length R = length L
    \<and> (\<forall>s<length L. R ! s = (if s \<in> set live then min (depth_of tree s) 255 else L ! s))"
  using assms
proof (induction live arbitrary: L)
  case (Cons s live)
  have "node_depth tree s 0 = Some (depth_of tree s)" using Cons.prems by (intro depth_of_eq(1)) auto
  moreover obtain R where "set_depths tree live (L[s := min (depth_of tree s) 255]) = Some R" "length R = length L"
    "\<forall>i<length L. R ! i = (if i \<in> set live then min (depth_of tree i) 255 else L[s := min (depth_of tree s) 255] ! i)"
    using Cons.IH [of "L[s := min (depth_of tree s) 255]"] Cons.prems by auto
  ultimately show ?case using Cons.prems by (auto simp: nth_list_update)
qed simp

lemma live_sum: "live = filter (\<lambda>s. P s) [0..<n] \<Longrightarrow> (\<Sum>s\<leftarrow>live. g s) = (\<Sum>s<n. if P s then g s else 0 :: nat)"
proof -
  assume l: "live = filter (\<lambda>s. P s) [0..<n]"
  have "(\<Sum>s\<leftarrow>filter P xs. g s) = (\<Sum>s\<leftarrow>xs. if P s then g s else 0)" for xs by (induction xs) auto
  then show ?thesis unfolding l by (simp add: interv_sum_list_conv_sum_set_nat atLeast0LessThan)
qed

lemma shares_lengths:
  assumes sh: "shares heap parent tree" and live: "map snd heap = live" "2 \<le> length live" "\<And>s. s \<in> set live \<Longrightarrow> s < length tree"
  shows "\<And>s. s \<in> set live \<Longrightarrow> 0 < depth_of tree s"
    "(\<And>s. s \<in> set live \<Longrightarrow> depth_of tree s \<le> m) \<Longrightarrow> (\<Sum>s\<leftarrow>live. 2 ^ (m - depth_of tree s)) = (2 :: nat) ^ m"
proof -
  define D where "D = m + (\<Sum>n<length tree. depth_of tree n)"
  have D: "depth_of tree n \<le> D" if "n < length tree" for n
  proof -
    have "depth_of tree n \<le> (\<Sum>n<length tree. depth_of tree n)" using that by (intro member_le_sum) auto
    then show ?thesis by (simp add: D_def)
  qed
  then have "(\<Sum>x\<leftarrow>heap. 2 ^ (D - depth_of tree (snd x))) = (2 :: nat) ^ D" using sh by (simp add: shares_def)
  then have sum: "(\<Sum>s\<leftarrow>live. 2 ^ (D - depth_of tree s)) = (2 :: nat) ^ D" using live(1) by (simp add: comp_def flip: live(1))
  show "0 < depth_of tree s" if s: "s \<in> set live" for s
  proof (rule ccontr)
    assume z: "\<not> 0 < depth_of tree s"
    have r: "(2 :: nat) ^ D = 2 ^ (D - depth_of tree s) + (\<Sum>i\<leftarrow>remove1 s live. 2 ^ (D - depth_of tree i))"
      using sum_list_map_remove1 [OF s, of "\<lambda>i. (2 :: nat) ^ (D - depth_of tree i)"] sum by simp
    have "length (remove1 s live) \<noteq> 0" using s live(2) by (simp add: length_remove1)
    then obtain i rest where "remove1 s live = i # rest" by (cases "remove1 s live") auto
    then show False using r z by simp
  qed
  assume m: "\<And>s. s \<in> set live \<Longrightarrow> depth_of tree s \<le> m"
  have "(2 :: nat) ^ (D - depth_of tree s) = 2 ^ (D - m) * 2 ^ (m - depth_of tree s)" if "s \<in> set live" for s
    using m [OF that] by (simp add: D_def flip: power_add)
  then have "(\<Sum>s\<leftarrow>live. (2 :: nat) ^ (D - depth_of tree s)) = (\<Sum>s\<leftarrow>live. 2 ^ (D - m) * 2 ^ (m - depth_of tree s))" by (simp cong: map_cong)
  then have "2 ^ (D - m) * (\<Sum>s\<leftarrow>live. (2 :: nat) ^ (m - depth_of tree s)) = 2 ^ D"
    using sum by (simp only: sum_list_const_mult)
  moreover have "(2 :: nat) ^ D = 2 ^ (D - m) * 2 ^ m" by (simp add: D_def flip: power_add)
  ultimately have "2 ^ (D - m) * (\<Sum>s\<leftarrow>live. (2 :: nat) ^ (m - depth_of tree s)) = 2 ^ (D - m) * 2 ^ m" by simp
  then show "(\<Sum>s\<leftarrow>live. 2 ^ (m - depth_of tree s)) = (2 :: nat) ^ m" by simp
qed

text \<open>Huffman lengths exist, give every live symbol a code word and no other, and share out the code space.\<close>
lemma huffman_lengths_ok:
  obtains L where "huffman_lengths freq = Some L" "length L = length freq" "\<And>s. s < length freq \<Longrightarrow> 0 < L ! s \<longleftrightarrow> 0 < freq ! s"
    "\<And>m. 0 < m \<Longrightarrow> m \<le> 254 \<Longrightarrow> (\<And>s. s < length L \<Longrightarrow> L ! s \<le> m) \<Longrightarrow> kraft_sum m L \<le> 2 ^ m"
proof -
  let ?a = "length freq"
  define live where "live = filter (\<lambda>s. 0 < freq ! s) [0..<?a]"
  have sl: "distinct live" and mem: "\<And>s. s \<in> set live \<longleftrightarrow> s < ?a \<and> 0 < freq ! s" by (auto simp: live_def)
  have hl: "huffman_lengths freq = (case live of [] \<Rightarrow> Some (replicate ?a 0) | [s] \<Rightarrow> Some ((replicate ?a 0)[s := 1])
      | _ \<Rightarrow> set_depths (merge_loop (map (\<lambda>s. (freq ! s, s)) live) freq (replicate ?a None)) live (replicate ?a 0))"
    unfolding huffman_lengths_def live_def Let_def by (rule refl)
  consider (none) "live = []" | (one) s where "live = [s]" | (many) "2 \<le> length live"
    by (cases live; cases "tl live") auto
  then show ?thesis
  proof cases
    case none
    then have "\<And>s. s < ?a \<Longrightarrow> \<not> 0 < freq ! s" using mem by simp
    moreover have "kraft_sum m (replicate ?a 0) = 0" for m by (simp add: kraft_sum_def)
    moreover have "huffman_lengths freq = Some (replicate ?a 0)" unfolding hl none by simp
    ultimately show ?thesis using that [of "replicate ?a 0"] by simp
  next
    case (one x)
    let ?L = "(replicate ?a 0)[x := 1 :: nat]"
    have x: "x < ?a" "0 < freq ! x" "\<And>s. s < ?a \<Longrightarrow> 0 < freq ! s \<Longrightarrow> s = x" using one mem [of x] mem by simp_all
    have L: "?L ! s = (if s = x then 1 else 0)" if "s < ?a" for s using that by (simp add: nth_list_update)
    have k: "kraft_sum m ?L \<le> 2 ^ m" for m
    proof -
      have "kraft_sum m ?L = (\<Sum>s<?a. if s = x then 2 ^ (m - 1) else 0)" unfolding kraft_sum_alt using L by (intro sum.cong) auto
      then show ?thesis using x(1) by (simp add: power_increasing)
    qed
    have lv: "0 < ?L ! s \<longleftrightarrow> 0 < freq ! s" if "s < ?a" for s
    proof (cases "s = x")
      case False
      then have "\<not> 0 < freq ! s" using x(3) [OF that] by blast
      then show ?thesis using L [OF that] False by simp
    qed (use x(1,2) in simp)
    have h: "huffman_lengths freq = Some ?L" unfolding hl one by simp
    show ?thesis by (rule that [OF h _ lv k]) simp_all
  next
    case many
    let ?heap = "map (\<lambda>s. (freq ! s, s)) live"
    define tree where "tree = merge_loop ?heap freq (replicate ?a None)"
    have "forest ?heap freq (replicate ?a None)" using sl mem by (simp add: forest_def climbs_def comp_def)
    moreover have "?heap \<noteq> []" using many by auto
    ultimately have sh: "shares ?heap (replicate ?a None) tree" unfolding tree_def by (rule merge_loop_shares)
    then have cl: "climbs tree" and tl: "?a \<le> length tree" by (simp_all add: shares_def)
    have lt: "\<And>s. s \<in> set live \<Longrightarrow> s < length tree" using mem tl by fastforce
    have ms: "map snd ?heap = live" by (simp add: comp_def)
    obtain L where L: "set_depths tree live (replicate ?a 0) = Some L" "length L = ?a"
      "\<And>s. s < ?a \<Longrightarrow> L ! s = (if s \<in> set live then min (depth_of tree s) 255 else 0)"
      using set_depths_ok [OF cl sl, of "replicate ?a 0"] mem lt by auto
    have "huffman_lengths freq = Some L" unfolding hl
      using many L(1) unfolding tree_def by (auto split: list.splits)
    moreover have "0 < L ! s \<longleftrightarrow> 0 < freq ! s" if "s < ?a" for s
      using L(3) [OF that] shares_lengths(1) [OF sh ms many lt, of s] mem [of s] that by auto
    moreover have "kraft_sum m L \<le> 2 ^ m" if m: "0 < m" "m \<le> 254" and le: "\<And>s. s < length L \<Longrightarrow> L ! s \<le> m" for m
    proof -
      have d: "depth_of tree s \<le> m \<and> L ! s = depth_of tree s" if "s \<in> set live" for s
        using L(3) [of s] le [of s] that mem [of s] m(2) L(2) by (auto simp: min_def split: if_splits)
      have "kraft_sum m L = (\<Sum>s<?a. if 0 < freq ! s then 2 ^ (m - depth_of tree s) else 0)"
        unfolding kraft_sum_alt L(2) using L(3) d mem calculation(2) by (intro sum.cong) auto
      also have "\<dots> = (\<Sum>s\<leftarrow>live. 2 ^ (m - depth_of tree s))" by (rule live_sum [symmetric]) (rule live_def)
      also have "\<dots> = 2 ^ m" using shares_lengths(2) [OF sh ms many lt] d by blast
      finally show ?thesis by simp
    qed
    ultimately show ?thesis using that L(2) by blast
  qed
qed

section \<open>The code is total and lossless\<close>

lemma kraft_scale:
  assumes "\<And>s. s < length L \<Longrightarrow> L ! s \<le> m" "m \<le> n" "kraft_sum n L \<le> 2 ^ n"
  shows "kraft_sum m L \<le> 2 ^ m"
proof -
  have e: "(2 :: nat) ^ n = 2 ^ (n - m) * 2 ^ m" using assms(2) by (simp flip: power_add)
  have "kraft_sum n L = 2 ^ (n - m) * kraft_sum m L"
    unfolding kraft_sum_alt sum_distrib_left
  proof (rule sum.cong)
    fix s assume "s \<in> {..<length L}"
    then have "n - L ! s = (n - m) + (m - L ! s)" using assms(1) [of s] assms(2) by simp
    then show "(if 0 < L ! s then 2 ^ (n - L ! s) else 0) = (2 :: nat) ^ (n - m) * (if 0 < L ! s then 2 ^ (m - L ! s) else 0)"
      by (simp add: power_add)
  qed simp
  then show ?thesis using assms(3) unfolding e by simp
qed

lemma from_lengths_accepts:
  assumes t: "0 < t" "t \<le> 9" and L: "length L = 3 ^ t" "\<And>s. s < length L \<Longrightarrow> L ! s \<le> 15" "kraft_sum 15 L \<le> 2 ^ 15"
  obtains c where "from_lengths L t = Inr c" "jc_lengths c = L"
proof -
  let ?m = "fold max L 0"
  have "?m \<in> insert 0 (set L)"
  proof -
    have "fold max xs a \<in> insert a (set xs)" for xs and a :: nat by (induction xs arbitrary: a) (auto simp: max_def split: if_splits)
    then show ?thesis .
  qed
  then have m: "?m \<le> 15" using L(2) by (metis in_set_conv_nth insertE le0)
  have "kraft_sum ?m L \<le> 2 ^ ?m" using fold_max(2) [of _ L 0] m L(3) by (intro kraft_scale [of L ?m 15]) simp_all
  then show ?thesis using that t L(1) m by (simp add: from_lengths_def alphabet_def MAX_JOINT_PLANES_def MAX_CODE_LEN_def Let_def)
qed

lemma build_ok:
  assumes t: "0 < t" "t \<le> 9" and f: "length freq = 3 ^ t"
  obtains c where "build freq t = Some (Inr c)" "code_ok c" "length (jc_lengths c) = 3 ^ t" "\<And>s. s < 3 ^ t \<Longrightarrow> 0 < jc_lengths c ! s \<longleftrightarrow> 0 < freq ! s"
proof -
  have cap: "length freq \<le> 2 ^ 15" using f pow3_bound [OF t(2)] by simp
  then have live: "\<not> 2 ^ MAX_CODE_LEN < length (filter (\<lambda>f. 0 < f) freq)"
    using length_filter_le [of "\<lambda>f. 0 < f" freq] by (simp add: MAX_CODE_LEN_def del: length_filter_le)
  obtain L where L: "huffman_lengths freq = Some L" "length L = length freq" "\<And>s. s < length freq \<Longrightarrow> 0 < L ! s \<longleftrightarrow> 0 < freq ! s"
    "\<And>m. 0 < m \<Longrightarrow> m \<le> 254 \<Longrightarrow> (\<And>s. s < length L \<Longrightarrow> L ! s \<le> m) \<Longrightarrow> kraft_sum m L \<le> 2 ^ m"
    using huffman_lengths_ok [of freq] by blast
  let ?R = "limit_lengths L freq 15"
  have R: "length ?R = length L \<and> (\<forall>s<length L. ?R ! s \<le> 15 \<and> (0 < ?R ! s \<longleftrightarrow> 0 < L ! s)) \<and> kraft_sum 15 ?R \<le> 2 ^ 15"
    using L(2) cap L(4) [of 15] by (intro limit_lengths_ok) simp_all
  then obtain c where c: "from_lengths ?R t = Inr c" "jc_lengths c = ?R"
    using from_lengths_accepts [OF t, of ?R] L(2) f by auto
  have "build freq t = Some (Inr c)"
    using t f live L(1) c(1) by (simp add: build_def alphabet_def MAX_JOINT_PLANES_def MAX_CODE_LEN_def Let_def)
  then show ?thesis using that [of c] from_lengths_ok [OF c(1)] c(2) R L(2,3) f by simp
qed

text \<open>C12: the joint code is total and lossless.  For every frequency table of up to nine planes the code is built (the Huffman loop, the climbs
  and the length repair all end, with no capacity or Kraft error).  It carries exactly the symbols that occur: with any block size, a sequence of symbols
  encodes if and only if each of them is in the alphabet and has a positive frequency, and only those symbols have a length in the stored table.  What it
  encodes decodes to the sequence, each block of it alone.\<close>
theorem joint_code_lossless:
  assumes "0 < t" "t \<le> 9" "length freq = 3 ^ t" "0 < block"
  shows "\<exists>c. build freq t = Some (Inr c) \<and> length (jc_lengths c) = 3 ^ t \<and> (\<forall>s<3 ^ t. 0 < jc_lengths c ! s \<longleftrightarrow> 0 < freq ! s)
    \<and> (\<forall>symbols. (is_ok (encode c symbols block) \<longleftrightarrow> (\<forall>s\<in>set symbols. unat s < 3 ^ t \<and> 0 < freq ! unat s))
      \<and> (\<forall>stream. encode c symbols block = Inr stream \<longrightarrow> decode c stream = Inr symbols
        \<and> (\<forall>i < div_ceil (length symbols) block. decode_block c stream i = Inr (take block (drop (i * block) symbols)))))"
proof -
  obtain c where c: "build freq t = Some (Inr c)" "code_ok c" "length (jc_lengths c) = 3 ^ t"
    "\<And>s. s < 3 ^ t \<Longrightarrow> 0 < jc_lengths c ! s \<longleftrightarrow> 0 < freq ! s" using build_ok [OF assms(1-3)] by blast
  have cd: "coded c s \<longleftrightarrow> unat s < 3 ^ t \<and> 0 < freq ! unat s" for s using c(3,4) by (auto simp: coded_def)
  have "is_ok (encode c symbols block) \<longleftrightarrow> (\<forall>s\<in>set symbols. unat s < 3 ^ t \<and> 0 < freq ! unat s)" for symbols
  proof
    assume "is_ok (encode c symbols block)"
    then obtain stream where "encode c symbols block = Inr stream" by (auto simp: is_ok_iff)
    from encode_coded(1) [OF this] show "\<forall>s\<in>set symbols. unat s < 3 ^ t \<and> 0 < freq ! unat s" by (simp add: cd)
  next
    assume "\<forall>s\<in>set symbols. unat s < 3 ^ t \<and> 0 < freq ! unat s"
    then have "\<forall>s\<in>set symbols. coded c s" by (simp add: cd)
    then obtain stream where "encode c symbols block = Inr stream" using encode_ok [OF c(2) _ assms(4)] by blast
    then show "is_ok (encode c symbols block)" by simp
  qed
  then show ?thesis using c(1,3,4) stream_roundtrip [OF c(2)] by (intro exI [of _ c]) blast
qed

theorem joint_code_lossless_witness:
  "\<exists>c stream. build [5, 0, 9] 1 = Some (Inr c) \<and> encode c [2, 0, 2, 2, 0] 2 = Inr stream \<and> decode c stream = Inr [2, 0, 2, 2, 0]
    \<and> decode_block c stream 1 = Inr [2, 2] \<and> \<not> is_ok (encode c [2, 1] 2) \<and> jc_lengths c ! 1 = 0"
proof -
  obtain c where c: "build [5, 0, 9] 1 = Some (Inr c)" "\<forall>s<3. 0 < jc_lengths c ! s \<longleftrightarrow> 0 < [5, 0, 9 :: u64] ! s"
    and e: "\<And>symbols. is_ok (encode c symbols 2) \<longleftrightarrow> (\<forall>s\<in>set symbols. unat s < 3 \<and> 0 < [5, 0, 9 :: u64] ! unat s)"
    and d: "\<And>symbols stream. encode c symbols 2 = Inr stream \<Longrightarrow> decode c stream = Inr symbols
      \<and> (\<forall>i < div_ceil (length symbols) 2. decode_block c stream i = Inr (take 2 (drop (i * 2) symbols)))"
    using joint_code_lossless [of 1 "[5, 0, 9]" 2] by auto
  obtain stream where s: "encode c [2, 0, 2, 2, 0] 2 = Inr stream" using e [of "[2, 0, 2, 2, 0]"] by (auto simp: is_ok_iff)
  have "jc_lengths c ! 1 = 0" using c(2) [rule_format, of 1] by simp
  then show ?thesis using c(1) s d [OF s] e [of "[2, 1]"] by (intro exI [of _ c] exI [of _ stream]) (auto simp: div_ceil_def)
qed

text \<open>C16: any code a reader accepts decodes what it encodes.  Whatever code lengths a file stores, if \<open>from_lengths\<close> accepts them then every
  sequence of symbols the code can encode decodes back, as a whole and block by block, and an index past the last block is refused.\<close>
theorem stored_code_roundtrip:
  assumes "from_lengths lengths t = Inr c" "encode c symbols block = Inr stream"
  shows "decode c stream = Inr symbols \<and> (\<forall>i. decode_block c stream i =
    (if i < div_ceil (length symbols) block then Inr (take block (drop (i * block) symbols)) else Inl (Fail BadBlock)))"
  using stream_roundtrip [OF from_lengths_ok [OF assms(1)] assms(2)] by simp

theorem stored_code_roundtrip_witness:
  "\<exists>c stream. from_lengths [2, 1, 2] 1 = Inr c \<and> encode c [1, 2] 1 = Inr stream \<and> decode c stream = Inr [1, 2]
    \<and> decode_block c stream 1 = Inr [2] \<and> decode_block c stream 2 = Inl (Fail BadBlock)"
proof -
  obtain c where c: "from_lengths [2, 1, 2] 1 = Inr c" "jc_lengths c = [2, 1, 2]"
    by (rule from_lengths_accepts [of 1 "[2, 1, 2]"]) (auto simp: kraft_sum_def less_Suc_eq numeral_3_eq_3)
  have "\<forall>s\<in>set [1, 2]. coded c s" using c(2) by (simp add: coded_def)
  then obtain stream where "encode c [1, 2] 1 = Inr stream" using encode_ok [OF from_lengths_ok [OF c(1)]] by (metis zero_less_one)
  then show ?thesis using stored_code_roundtrip [OF c(1), of "[1, 2]" 1 stream] c(1) by (auto simp: div_ceil_def)
qed

end
