(* ===== verification/JointBundle.thy ===== *)
theory JointBundle
  imports Salt JointBuild Cursor
begin

text \<open>
  The joint-coded bundle (\<open>tritium-format/src/salt_joint_bundle.rs\<close>): tensors of residual rows stored as one Huffman code word per
  weight with their raw scales, and the reader that rebuilds the rows.  The source of the reader is a byte string with a
  position; reading past its end is the error \<open>Io\<close>.  Slices and indexes that would panic are the fault \<open>Panic\<close>.
\<close>

section \<open>Writer\<close>

definition SALT_JOINT_BUNDLE_MAGIC :: bytes where "SALT_JOINT_BUNDLE_MAGIC = [0x54, 0x53, 0x4C, 0x4A]"
definition SALT_JOINT_BUNDLE_VERSION :: u8 where "SALT_JOINT_BUNDLE_VERSION = 1"
definition HEADER_BYTES :: nat where "HEADER_BYTES = 12"
definition DIR_FIXED_BYTES :: nat where "DIR_FIXED_BYTES = 2 + 4 + 4 + 8 + 8 + 8"
definition MAX_TENSORS :: nat where "MAX_TENSORS = 2 ^ 20"

datatype JointBundleError =
    BadMagic
  | UnsupportedVersion u8
  | Malformed string
  | MixedPlanes rstring
  | NonZeroPadding rstring nat
  | NotFound rstring
  | Code JointCodeError
  | Format FormatError
  | Io

record Extracted =
  ex_symbols :: "u16 list"
  ex_scales :: bytes

definition extract_block :: "rstring \<Rightarrow> nat \<Rightarrow> nat \<Rightarrow> bytes \<Rightarrow> nat \<Rightarrow> JointBundleError + i8 list \<times> bytes" where
  "extract_block name r k plane b =
    (let blk = window (b * TQ2_0_BLOCK_BYTES) TQ2_0_BLOCK_BYTES plane; start = b * QK_K in
     rbind (map_err Format (unpack_tq2_0_block blk QK_K)) (\<lambda>(trits, scale).
     if list_ex (\<lambda>t. t \<noteq> ZERO) (drop (k - start) trits) then Inl (NonZeroPadding name r)
     else Inr (map get (take (k - start) trits), drop (TQ2_0_BLOCK_BYTES - 2) blk)))"

definition extract_plane :: "rstring \<Rightarrow> nat \<Rightarrow> nat \<Rightarrow> bytes \<Rightarrow> JointBundleError + i8 list \<times> bytes" where
  "extract_plane name r k plane =
    (let blocks = div_ceil k QK_K in
     if length plane \<noteq> blocks * TQ2_0_BLOCK_BYTES then Inl (Malformed ''plane length does not match k'')
     else rbind (mapR (extract_block name r k plane) [0..<blocks]) (\<lambda>bs. Inr (concat (map fst bs), concat (map snd bs))))"

definition extract_row :: "rstring \<Rightarrow> nat \<Rightarrow> nat \<times> SaltRow \<Rightarrow> JointBundleError + u16 list \<times> bytes" where
  "extract_row name planes rrow = (case rrow of (r, row) \<Rightarrow>
    if length (sl_planes row) \<noteq> planes then Inl (MixedPlanes name)
    else
     rbind (mapR (extract_plane name r (sl_k row)) (sl_planes row)) (\<lambda>ds.
     rbind (map_err Code (joint_symbols (map fst ds))) (\<lambda>symbols.
     Inr (symbols, concat (map snd ds)))))"

definition extract_tensor :: "nat \<Rightarrow> rstring \<times> SaltRow list \<Rightarrow> JointBundleError + Extracted" where
  "extract_tensor planes tensor = (case tensor of (name, rows) \<Rightarrow>
    rbind (mapR (extract_row name planes) (List.enumerate 0 rows)) (\<lambda>xs.
    Inr \<lparr>ex_symbols = concat (map fst xs), ex_scales = concat (map snd xs)\<rparr>))"

fun first_row :: "(rstring \<times> SaltRow list) list \<Rightarrow> SaltRow option" where
  "first_row [] = None"
| "first_row ((name, rows) # tensors) = (case rows of row # _ \<Rightarrow> Some row | [] \<Rightarrow> first_row tensors)"

definition count_symbols :: "nat \<Rightarrow> Extracted list \<Rightarrow> u64 list" where
  "count_symbols a es = fold (\<lambda>e freq. fold (\<lambda>s freq. freq[unat s := freq ! unat s + 1]) (ex_symbols e) freq) es (replicate a 0)"

definition row_k :: "SaltRow list \<Rightarrow> nat" where
  "row_k rows = (case rows of [] \<Rightarrow> 0 | row # _ \<Rightarrow> sl_k row)"

definition dir_entry :: "rstring \<Rightarrow> nat \<Rightarrow> nat \<Rightarrow> nat \<Rightarrow> nat \<Rightarrow> nat \<Rightarrow> bytes" where
  "dir_entry name rows k offset scales bits = le16 (of_nat (length name)) @ name @ le32 (of_nat rows) @ le32 (of_nat k)
    @ le64 (of_nat offset) @ le64 (of_nat scales) @ le64 (of_nat bits)"

definition write_entry :: "(rstring \<times> SaltRow list) \<times> Extracted \<times> JointStream \<Rightarrow> bytes \<times> nat \<Rightarrow> JointBundleError + bytes \<times> nat" where
  "write_entry tes st = (case tes of ((name, rows), e, s) \<Rightarrow> case st of (out, offset) \<Rightarrow>
    if 65535 < length name then Inl (Malformed ''name too long'')
    else let k = row_k rows in
      if list_ex (\<lambda>r. sl_k r \<noteq> k) rows then Inl (Malformed ''rows of one tensor disagree on k'')
      else Inr (out @ dir_entry name (length rows) k offset (length (ex_scales e)) (length (js_bits s)),
                offset + (length (ex_scales e) + length (js_bits s))))"

definition write_body :: "(rstring \<times> SaltRow list) list \<Rightarrow> u16 option \<Rightarrow> nat \<Rightarrow> Extracted list \<Rightarrow> JointCode \<Rightarrow> JointBundleError + bytes" where
  "write_body tensors rotation_group planes extracted code =
    rbind (mapR (\<lambda>e. map_err Code (encode code (ex_symbols e) (max (length (ex_symbols e)) 1))) extracted) (\<lambda>streams.
    let dir_bytes = sum_list (map (\<lambda>(name, _). DIR_FIXED_BYTES + length name) tensors);
        header = SALT_JOINT_BUNDLE_MAGIC @ [SALT_JOINT_BUNDLE_VERSION] @ [of_nat planes]
          @ le16 (case rotation_group of None \<Rightarrow> 0 | Some g \<Rightarrow> g) @ le32 (of_nat (length tensors)) @ map of_nat (jc_lengths code) in
    rbind (foldR write_entry (zip tensors (zip extracted streams)) (header, HEADER_BYTES + 3 ^ planes + dir_bytes)) (\<lambda>(out, offset).
    Inr (out @ concat (map (\<lambda>(e, s). ex_scales e @ js_bits s) (zip extracted streams)))))"

definition write_joint_salt_bundle :: "(rstring \<times> SaltRow list) list \<Rightarrow> u16 option \<Rightarrow> (JointBundleError + bytes) option" where
  "write_joint_salt_bundle tensors rotation_group =
    (case first_row tensors of None \<Rightarrow> Some (Inl (Malformed ''bundle has no rows''))
     | Some row \<Rightarrow>
       let planes = length (sl_planes row) in
       if MAX_TENSORS < length tensors then Some (Inl (Malformed ''too many tensors''))
       else (case mapR (extract_tensor planes) tensors of Inl e \<Rightarrow> Some (Inl e)
        | Inr extracted \<Rightarrow>
          Option.bind (build (count_symbols (3 ^ planes) extracted) planes) (\<lambda>code.
            Some (rbind (map_err Code code) (write_body tensors rotation_group planes extracted)))))"

section \<open>Reader\<close>

record Source =
  so_bytes :: bytes
  so_pos :: nat

definition read_exact :: "nat \<Rightarrow> Source \<Rightarrow> JointBundleError + bytes \<times> Source" where
  "read_exact n s = (if so_pos s + n \<le> length (so_bytes s) then Inr (window (so_pos s) n (so_bytes s), s\<lparr>so_pos := so_pos s + n\<rparr>) else Inl Io)"

definition read_u8 :: "Source \<Rightarrow> JointBundleError + u8 \<times> Source" where
  "read_u8 s = rbind (read_exact 1 s) (\<lambda>(b, s). Inr (b ! 0, s))"

definition read_u16 :: "Source \<Rightarrow> JointBundleError + u16 \<times> Source" where
  "read_u16 s = rbind (read_exact 2 s) (\<lambda>(b, s). Inr (un_le16 b, s))"

definition read_u32 :: "Source \<Rightarrow> JointBundleError + u32 \<times> Source" where
  "read_u32 s = rbind (read_exact 4 s) (\<lambda>(b, s). Inr (un_le32 b, s))"

definition read_u64 :: "Source \<Rightarrow> JointBundleError + u64 \<times> Source" where
  "read_u64 s = rbind (read_exact 8 s) (\<lambda>(b, s). Inr (un_le64 b, s))"

record JointTensorInfo =
  ji_name :: rstring
  ji_rows :: nat
  ji_k :: nat
  ji_payload_offset :: nat
  ji_scale_bytes :: nat
  ji_stream_bytes :: nat

record JointSaltBundleReader =
  jr_source :: bytes
  jr_planes :: nat
  jr_rotation_group :: "u16 option"
  jr_code :: JointCode
  jr_entries :: "JointTensorInfo list"
  jr_by_name :: "rstring \<rightharpoonup> nat"

definition check_info :: "nat \<Rightarrow> nat \<Rightarrow> JointTensorInfo \<Rightarrow> JointBundleError + unit" where
  "check_info planes file_len i =
    rbind (ok_or (Option.bind (checked_mul (ji_rows i) (div_ceil (ji_k i) QK_K)) (\<lambda>v. checked_mul v (planes * 2)))
             (Malformed ''scale size overflows'')) (\<lambda>expected_scales.
    rbind (ensure (ji_scale_bytes i = expected_scales) (Malformed ''scale byte count disagrees with rows, k and planes'')) (\<lambda>_.
    rbind (ok_or (Option.bind (checked_add (ji_payload_offset i) (ji_scale_bytes i)) (\<lambda>v. checked_add v (ji_stream_bytes i)))
             (Malformed ''payload size overflows'')) (\<lambda>fin.
    ensure (fin \<le> file_len) (Malformed ''payload runs past end of file''))))"

definition read_info :: "nat \<Rightarrow> nat \<Rightarrow> nat \<Rightarrow> Source \<Rightarrow> JointBundleError + (nat \<times> JointTensorInfo) \<times> Source" where
  "read_info planes file_len pos s =
    rbind (read_u16 s) (\<lambda>(name_len, s).
    let pos = pos + (DIR_FIXED_BYTES + unat name_len) in
    rbind (ensure (pos \<le> file_len) (Malformed ''directory runs past end of file'')) (\<lambda>_.
    rbind (read_exact (unat name_len) s) (\<lambda>(name, s).
    rbind (ensure (utf8_ok name) (Malformed ''tensor name is not UTF-8'')) (\<lambda>_.
    rbind (read_u32 s) (\<lambda>(rows, s).
    rbind (read_u32 s) (\<lambda>(k, s).
    rbind (read_u64 s) (\<lambda>(payload_offset, s).
    rbind (read_u64 s) (\<lambda>(scale_bytes, s).
    rbind (read_u64 s) (\<lambda>(stream_bytes, s).
    let i = \<lparr>ji_name = name, ji_rows = unat rows, ji_k = unat k, ji_payload_offset = unat payload_offset,
             ji_scale_bytes = unat scale_bytes, ji_stream_bytes = unat stream_bytes\<rparr> in
    rbind (check_info planes file_len i) (\<lambda>_. Inr ((pos, i), s)))))))))))"

fun read_dir :: "nat \<Rightarrow> nat \<Rightarrow> nat \<Rightarrow> nat \<Rightarrow> JointTensorInfo list \<Rightarrow> (rstring \<rightharpoonup> nat) \<Rightarrow> Source \<Rightarrow>
    JointBundleError + nat \<times> JointTensorInfo list \<times> (rstring \<rightharpoonup> nat)" where
  "read_dir planes file_len 0 pos entries by_name s = Inr (pos, entries, by_name)"
| "read_dir planes file_len (Suc n) pos entries by_name s =
    rbind (read_info planes file_len pos s) (\<lambda>((pos, i), s).
    if by_name (ji_name i) \<noteq> None then Inl (Malformed ''duplicate tensor name'')
    else read_dir planes file_len n pos (entries @ [i]) (by_name(ji_name i \<mapsto> length entries)) s)"

definition check_contiguous :: "JointTensorInfo \<Rightarrow> nat \<Rightarrow> JointBundleError + nat" where
  "check_contiguous entry at =
    (if ji_payload_offset entry \<noteq> at then Inl (Malformed ''payloads are not contiguous in directory order'')
     else Inr (at + (ji_scale_bytes entry + ji_stream_bytes entry)))"

definition new_strict :: "bytes \<Rightarrow> JointBundleError + JointSaltBundleReader" where
  "new_strict source =
    (let file_len = length source in
    rbind (read_exact 4 \<lparr>so_bytes = source, so_pos = 0\<rparr>) (\<lambda>(magic, s).
    rbind (ensure (magic = SALT_JOINT_BUNDLE_MAGIC) BadMagic) (\<lambda>_.
    rbind (read_u8 s) (\<lambda>(version, s).
    rbind (ensure (version = SALT_JOINT_BUNDLE_VERSION) (UnsupportedVersion version)) (\<lambda>_.
    rbind (read_u8 s) (\<lambda>(planes8, s).
    let planes = unat planes8 in
    rbind (ensure (\<not> (planes = 0 \<or> MAX_JOINT_PLANES < planes)) (Malformed ''plane count out of range'')) (\<lambda>_.
    rbind (read_u16 s) (\<lambda>(rotation, s).
    let rotation_group = (if rotation \<noteq> 0 then Some rotation else None) in
    rbind (read_u32 s) (\<lambda>(n, s).
    rbind (ensure (unat n \<le> MAX_TENSORS) (Malformed ''tensor count exceeds limit'')) (\<lambda>_.
    rbind (read_exact (3 ^ planes) s) (\<lambda>(lengths, s).
    rbind (map_err Code (from_lengths (map unat lengths) planes)) (\<lambda>code.
    rbind (read_dir planes file_len (unat n) (HEADER_BYTES + 3 ^ planes) [] Map.empty s) (\<lambda>(pos, entries, by_name).
    rbind (foldR check_contiguous entries pos) (\<lambda>expected_end.
    rbind (ensure (expected_end = file_len) (Malformed ''payloads do not end at the end of the file'')) (\<lambda>_.
    Inr \<lparr>jr_source = source, jr_planes = planes, jr_rotation_group = rotation_group, jr_code = code, jr_entries = entries,
         jr_by_name = by_name\<rparr>)))))))))))))))"

definition tensor_info :: "JointSaltBundleReader \<Rightarrow> rstring \<Rightarrow> JointTensorInfo option" where
  "tensor_info rd name = map_option (\<lambda>i. jr_entries rd ! i) (jr_by_name rd name)"

definition digit_trit :: "i8 list \<Rightarrow> nat \<Rightarrow> JointBundleError fault + trit" where
  "digit_trit digits i =
    (if i < length digits then map_err (\<lambda>e. Fail (Format (from_TritError e))) (from_i8 (digits ! i)) else Inr ZERO)"

definition read_block :: "bytes \<Rightarrow> i8 list \<Rightarrow> nat \<Rightarrow> bytes \<times> nat \<Rightarrow> JointBundleError fault + bytes \<times> nat" where
  "read_block scales digits b st = (case st of (plane, scale_at) \<Rightarrow>
    rbind (mapR (\<lambda>i. digit_trit digits (b * QK_K + i)) [0..<QK_K]) (\<lambda>trits.
    if length scales < scale_at + 2 then Inl Panic
    else
     rbind (map_err (\<lambda>e. Fail (Format e)) (pack_tq2_0_block trits (un_le16 (window scale_at 2 scales)) TQ2_0_BLOCK_BYTES)) (\<lambda>blk.
     Inr (plane @ blk, scale_at + 2))))"

definition read_plane :: "bytes \<Rightarrow> nat \<Rightarrow> i8 list \<Rightarrow> bytes list \<times> nat \<Rightarrow> JointBundleError fault + bytes list \<times> nat" where
  "read_plane scales blocks digits st = (case st of (planes_out, scale_at) \<Rightarrow>
    rbind (foldR (read_block scales digits) [0..<blocks] ([], scale_at)) (\<lambda>(plane, scale_at).
    Inr (planes_out @ [plane], scale_at)))"

definition read_row :: "u16 list \<Rightarrow> bytes \<Rightarrow> nat \<Rightarrow> nat \<Rightarrow> nat \<Rightarrow> SaltRow list \<times> nat \<Rightarrow> JointBundleError fault + SaltRow list \<times> nat" where
  "read_row symbols scales planes k r st = (case st of (out, scale_at) \<Rightarrow>
    if length symbols < (r + 1) * k then Inl Panic
    else
     rbind (map_err (\<lambda>e. Fail (Code e)) (planes_from_symbols (window (r * k) k symbols) planes)) (\<lambda>digits.
     rbind (foldR (read_plane scales (div_ceil k QK_K)) digits ([], scale_at)) (\<lambda>(planes_out, scale_at).
     Inr (out @ [\<lparr>sl_k = k, sl_planes = planes_out\<rparr>], scale_at))))"

definition read_tensor :: "JointSaltBundleReader \<Rightarrow> rstring \<Rightarrow> JointBundleError fault + SaltRow list" where
  "read_tensor rd name =
    rbind (ok_or (tensor_info rd name) (Fail (NotFound name))) (\<lambda>info.
    rbind (map_err Fail (read_exact (ji_scale_bytes info) \<lparr>so_bytes = jr_source rd, so_pos = ji_payload_offset info\<rparr>)) (\<lambda>(scales, s).
    rbind (map_err Fail (read_exact (ji_stream_bytes info) s)) (\<lambda>(bits, s).
    rbind (ok_or (checked_mul (ji_rows info) (ji_k info)) (Fail (Malformed ''symbol count overflows''))) (\<lambda>n.
    rbind (map_err (\<lambda>e. Fail (Code e)) (decode (jr_code rd) \<lparr>js_bits = bits, js_block_offsets = [0], js_block = max n 1, js_symbols = n\<rparr>)) (\<lambda>symbols.
    rbind (foldR (read_row symbols scales (jr_planes rd) (ji_k info)) [0..<ji_rows info] ([], 0)) (\<lambda>(out, scale_at).
    Inr out))))))"

section \<open>Planes are rebuilt byte for byte\<close>

abbreviation tq2_pack :: "trit list \<Rightarrow> f16 list \<Rightarrow> FormatError + bytes" where
  "tq2_pack \<equiv> pack_blocks pack_tq2_0_block QK_K TQ2_0_BLOCK_BYTES"

lemma extract_plane_ok:
  assumes e: "extract_plane name r k plane = Inr (ds, sc)"
  obtains ts ss where "ds = map get ts" "sc = concat (map le16 ss)" "length ts = k" "length ss = div_ceil k QK_K" "tq2_pack ts ss = Inr plane"
proof -
  let ?nb = "div_ceil k QK_K" and ?w = "\<lambda>i. window (i * TQ2_0_BLOCK_BYTES) TQ2_0_BLOCK_BYTES plane"
  obtain bs where len: "length plane = ?nb * TQ2_0_BLOCK_BYTES" and bs: "mapR (extract_block name r k plane) [0..<?nb] = Inr bs"
    and ds: "ds = concat (map fst bs)" and sc: "sc = concat (map snd bs)"
    using e by (auto simp: extract_plane_def Let_def rbind_eq_Inr split: if_splits)
  have lbs: "length bs = ?nb" using mapR_length [OF bs] by simp
  define dec where "dec i = projr (unpack_tq2_0_block (?w i) QK_K)" for i
  have blk: "unpack_tq2_0_block (?w i) QK_K = Inr (dec i) \<and> bs ! i = (map get (take (k - i * QK_K) (fst (dec i))), drop 64 (?w i))
      \<and> \<not> list_ex (\<lambda>t. t \<noteq> ZERO) (drop (k - i * QK_K) (fst (dec i)))" if "i < ?nb" for i
  proof -
    have "extract_block name r k plane i = Inr (bs ! i)" using bs that lbs by (auto simp: mapR_eq_Inr list_all2_conv_all_nth)
    then show ?thesis by (auto simp: extract_block_def Let_def rbind_eq_Inr dec_def block_consts split: if_splits prod.splits)
  qed
  have l256: "length (fst (dec i)) = QK_K" if "i < ?nb" for i
    using blk [OF that] unpack_tq2_0_block_length [of "?w i" QK_K "fst (dec i)" "snd (dec i)"] by simp
  let ?rs = "map (\<lambda>i. (take (k - i * QK_K) (fst (dec i)), snd (dec i))) [0..<?nb]"
  let ?ts = "concat (map fst ?rs)" and ?ss = "map snd ?rs"
  have "unpack_blocks unpack_tq2_0_block QK_K TQ2_0_BLOCK_BYTES plane k ?nb = Inr (?ts, ?ss)"
  proof -
    have tk: "take (min (i * QK_K + QK_K) k - i * QK_K) (fst (dec i)) = take (k - i * QK_K) (fst (dec i))" if "i < ?nb" for i
      using l256 [OF that] by (simp add: min_def)
    have "mapR (\<lambda>i. rbind (unpack_tq2_0_block (?w i) QK_K) (\<lambda>(block, scale).
         let start = i * QK_K; e = min (start + QK_K) k in Inr (take (e - start) block, scale))) [0..<?nb] = Inr ?rs"
    proof (rule mapR_map)
      fix i assume "i \<in> set [0..<?nb]"
      then show "rbind (unpack_tq2_0_block (?w i) QK_K) (\<lambda>(block, scale).
         let start = i * QK_K; e = min (start + QK_K) k in Inr (take (e - start) block, scale)) = Inr (take (k - i * QK_K) (fst (dec i)), snd (dec i))"
        using blk [of i] tk [of i] by (cases "dec i") simp
    qed
    then show ?thesis by (simp add: unpack_blocks_def)
  qed
  moreover have "drop (k - i * QK_K) b = replicate (i * QK_K + QK_K - k) ZERO"
    if i: "i < ?nb" "unpack_tq2_0_block (?w i) QK_K = Inr (b, s)" "k < i * QK_K + QK_K" for i b s
  proof -
    have b: "b = fst (dec i)" using i(2) by (simp add: dec_def)
    have "i * QK_K \<le> k" using i(1) div_ceil_less [of QK_K i k] by (simp add: block_consts)
    then have "length (drop (k - i * QK_K) b) = i * QK_K + QK_K - k" using l256 [OF i(1)] b i(3) by simp
    then show ?thesis using blk [OF i(1)] b by (intro replicate_eqI) (auto simp: list_ex_iff)
  qed
  ultimately have "tq2_pack ?ts ?ss = Inr plane" using tq2x.repack_row [OF len refl] by blast
  moreover have "length ?ts = k" using tq2.unpack_blocks_length [of plane k ?ts ?ss] \<open>unpack_blocks _ _ _ _ _ _ = _\<close> by auto
  moreover have "ds = map get ?ts" unfolding ds map_concat using blk lbs by (intro arg_cong [where f = concat] nth_equalityI) auto
  moreover have "sc = concat (map le16 ?ss)"
  proof -
    have "snd (bs ! i) = le16 (snd (dec i))" if "i < ?nb" for i
    proof -
      have "length (?w i) = 66" using blk [OF that] by (auto simp: unpack_tq2_0_block_def block_consts split: if_splits)
      moreover have "snd (dec i) = read_scale (?w i)"
        using blk [OF that] by (auto simp: unpack_tq2_0_block_def Let_def rbind_eq_Inr split: if_splits dest!: sym [of _ "dec i"])
      ultimately show ?thesis using blk [OF that] by (simp add: read_scale_def le16_un_le16)
    qed
    then show ?thesis unfolding sc using lbs by (intro arg_cong [where f = concat] nth_equalityI) auto
  qed
  moreover have "length ?ss = ?nb" by simp
  ultimately show ?thesis using that [of ?ts ?ss] by blast
qed

lemma digit_chunk: "mapR (\<lambda>i. digit_trit (map get ts) (b * QK_K + i)) [0..<QK_K] = Inr (tq2.chunk ts b)"
proof -
  have "mapR (\<lambda>i. digit_trit (map get ts) (b * QK_K + i)) [0..<QK_K]
      = Inr (map (\<lambda>i. if b * QK_K + i < length ts then ts ! (b * QK_K + i) else ZERO) [0..<QK_K])"
    by (rule mapR_map) (simp add: digit_trit_def)
  also have "map (\<lambda>i. if b * QK_K + i < length ts then ts ! (b * QK_K + i) else ZERO) [0..<QK_K] = tq2.chunk ts b"
    unfolding tq2.chunk_def by (rule nth_equalityI) (auto simp: pad_to_def nth_append)
  finally show ?thesis .
qed

lemma read_blocks_ok:
  assumes d: "drop at scales = concat (map le16 ss) @ rest" and n: "n \<le> length ss"
  shows "foldR (read_block scales (map get ts)) [0..<n] ([], at)
    = Inr (concat (map (\<lambda>i. tq2.packed (tq2.chunk ts i) (ss ! i)) [0..<n]), at + 2 * n)"
  using n
proof (induction n)
  case (Suc n)
  let ?out = "concat (map (\<lambda>i. tq2.packed (tq2.chunk ts i) (ss ! i)) [0..<n])"
  have w: "\<And>x. x \<in> set (map le16 ss) \<Longrightarrow> length x = 2" by auto
  have ls: "length (concat (map le16 ss)) = 2 * length ss" using length_concat_const [of "map le16 ss" 2, OF w] by simp
  have "n * 2 + 2 \<le> length (concat (map le16 ss))" using Suc.prems ls by simp
  then have "window (at + 2 * n) 2 scales = window (n * 2) 2 (concat (map le16 ss))"
    using d by (simp add: window_def mult.commute add.commute [of at] flip: drop_drop)
  also have "\<dots> = le16 (ss ! n)" using window_concat_const [of "map le16 ss" 2 n, OF w] Suc.prems by simp
  finally have sc: "window (at + 2 * n) 2 scales = le16 (ss ! n)" .
  have long: "at + 2 * n + 2 \<le> length scales" using arg_cong [OF d, of length] ls Suc.prems by simp
  have "pack_tq2_0_block (tq2.chunk ts n) (ss ! n) TQ2_0_BLOCK_BYTES = Inr (tq2.packed (tq2.chunk ts n) (ss ! n))"
    by (rule tq2.packed_ok(1)) (rule tq2.length_chunk)
  then have "read_block scales (map get ts) n (?out, at + 2 * n) = Inr (?out @ tq2.packed (tq2.chunk ts n) (ss ! n), at + 2 * n + 2)"
    using long sc by (simp only: read_block_def prod.case digit_chunk rbind_Inr not_less [symmetric] if_False map_err_simps un_le16_le16 if_not_P)
  then show ?case using Suc by (simp add: foldR_append)
qed simp

lemma read_planes_ok:
  assumes "drop at scales = concat (map (\<lambda>(ts, ss). concat (map le16 ss)) items) @ rest"
    "\<And>ts ss. (ts, ss) \<in> set items \<Longrightarrow> length ts = k \<and> length ss = div_ceil k QK_K"
    "list_all2 (\<lambda>(ts, ss) plane. tq2_pack ts ss = Inr plane) items planes"
  shows "foldR (read_plane scales (div_ceil k QK_K)) (map (\<lambda>(ts, ss). map get ts) items) (out, at)
    = Inr (out @ planes, at + length (concat (map (\<lambda>(ts, ss). concat (map le16 ss)) items)))"
  using assms
proof (induction items arbitrary: at out planes)
  case (Cons it items)
  obtain ts ss where it: "it = (ts, ss)" by (cases it)
  obtain plane planes' where pl: "planes = plane # planes'" "tq2_pack ts ss = Inr plane"
    "list_all2 (\<lambda>(ts, ss) plane. tq2_pack ts ss = Inr plane) items planes'" using Cons.prems(3) it by (cases planes) auto
  let ?sc = "concat (map le16 ss)" and ?rest = "concat (map (\<lambda>(ts, ss). concat (map le16 ss)) items)"
  have len: "length ts = k" "length ss = div_ceil k QK_K" using Cons.prems(2) [of ts ss] it by simp_all
  have w: "\<And>x. x \<in> set (map le16 ss) \<Longrightarrow> length x = 2" by auto
  have ls: "length ?sc = 2 * length ss" using length_concat_const [of "map le16 ss" 2, OF w] by simp
  have d: "drop at scales = ?sc @ (?rest @ rest)" using Cons.prems(1) it by simp
  have "plane = concat (map (\<lambda>i. tq2.packed (tq2.chunk ts i) (ss ! i)) [0..<length ss])"
    using pl(2) tq2.pack_blocks_ok [of ts ss] by (simp only: sum.inject)
  then have rp: "read_plane scales (div_ceil k QK_K) (map get ts) (out, at) = Inr (out @ [plane], at + length ?sc)"
    using read_blocks_ok [OF d order_refl, of ts] len(2) ls unfolding read_plane_def by (simp only: prod.case rbind_Inr)
  have "drop (at + length ?sc) scales = ?rest @ rest" using arg_cong [OF d, of "drop (length ?sc)"] by (simp add: add.commute)
  then have "foldR (read_plane scales (div_ceil k QK_K)) (map (\<lambda>(ts, ss). map get ts) items) (out @ [plane], at + length ?sc)
      = Inr ((out @ [plane]) @ planes', (at + length ?sc) + length ?rest)"
    using Cons.prems(2) pl(3) by (intro Cons.IH) auto
  then show ?case using rp it pl(1) by simp
qed simp

lemma extract_row_items:
  assumes "extract_row name planes (i, row) = Inr (symbols, sc)"
  obtains items where "length items = planes" "joint_symbols (map (\<lambda>(ts, ss). map get ts) items) = Inr symbols"
    "sc = concat (map (\<lambda>(ts, ss). concat (map le16 ss)) items)"
    "\<forall>(ts, ss)\<in>set items. length ts = sl_k row \<and> length ss = div_ceil (sl_k row) QK_K"
    "list_all2 (\<lambda>(ts, ss) plane. tq2_pack ts ss = Inr plane) items (sl_planes row)"
proof -
  let ?k = "sl_k row" and ?ps = "sl_planes row"
  obtain ds where np: "length ?ps = planes" and ds: "mapR (extract_plane name i ?k) ?ps = Inr ds"
    and sy: "joint_symbols (map fst ds) = Inr symbols" and sc: "sc = concat (map snd ds)"
    using assms by (auto simp: extract_row_def rbind_eq_Inr split: if_splits)
  have ld: "length ds = planes" using mapR_length [OF ds] np by simp
  have "\<exists>it. fst (ds ! p) = map get (fst it) \<and> snd (ds ! p) = concat (map le16 (snd it)) \<and> length (fst it) = ?k
      \<and> length (snd it) = div_ceil ?k QK_K \<and> tq2_pack (fst it) (snd it) = Inr (?ps ! p)" if "p < planes" for p
  proof -
    have "extract_plane name i ?k (?ps ! p) = Inr (fst (ds ! p), snd (ds ! p))"
      using ds ld np that by (auto simp: mapR_eq_Inr list_all2_conv_all_nth)
    then show ?thesis by (rule extract_plane_ok) auto
  qed
  then obtain it where it: "\<And>p. p < planes \<Longrightarrow> fst (ds ! p) = map get (fst (it p)) \<and> snd (ds ! p) = concat (map le16 (snd (it p)))
      \<and> length (fst (it p)) = ?k \<and> length (snd (it p)) = div_ceil ?k QK_K \<and> tq2_pack (fst (it p)) (snd (it p)) = Inr (?ps ! p)" by metis
  let ?its = "map it [0..<planes]"
  have dg: "map fst ds = map (\<lambda>(ts, ss). map get ts) ?its" using it ld by (intro nth_equalityI) (auto simp: case_prod_unfold)
  have ss: "map snd ds = map (\<lambda>(ts, ss). concat (map le16 ss)) ?its" using it ld by (intro nth_equalityI) (auto simp: case_prod_unfold)
  have "length ts = ?k \<and> length ss = div_ceil ?k QK_K" if m: "(ts, ss) \<in> set ?its" for ts ss
  proof -
    obtain p where "p < planes" "it p = (ts, ss)" using m by auto
    then show ?thesis using it [of p] by simp
  qed
  then show ?thesis using it np sy sc by (intro that [of ?its]) (auto simp: dg ss list_all2_conv_all_nth case_prod_unfold)
qed

text \<open>What extraction gives for a row, the reader turns back into the row.\<close>
lemma extract_row_ok:
  assumes e: "extract_row name planes (i, row) = Inr (symbols, sc)"
  shows "length symbols = sl_k row" "0 < planes" "planes \<le> 9" "\<forall>s\<in>set symbols. unat s < 3 ^ planes"
    "length sc = planes * (div_ceil (sl_k row) QK_K * 2)"
    "drop at scales = sc @ rest \<Longrightarrow> window (r * sl_k row) (sl_k row) all = symbols \<Longrightarrow> (r + 1) * sl_k row \<le> length all \<Longrightarrow>
     read_row all scales planes (sl_k row) r (out, at) = Inr (out @ [row], at + length sc)"
proof -
  let ?k = "sl_k row"
  obtain items where li: "length items = planes" and sy: "joint_symbols (map (\<lambda>(ts, ss). map get ts) items) = Inr symbols"
    and sc: "sc = concat (map (\<lambda>(ts, ss). concat (map le16 ss)) items)"
    and len: "\<forall>(ts, ss)\<in>set items. length ts = ?k \<and> length ss = div_ceil ?k QK_K"
    and pk: "list_all2 (\<lambda>(ts, ss) plane. tq2_pack ts ss = Inr plane) items (sl_planes row)"
    by (rule extract_row_items [OF e])
  note js = joint_symbols_roundtrip [OF sy]
  show "0 < planes" "planes \<le> 9" using js(4,5) li by simp_all
  show "\<forall>s\<in>set symbols. unat s < 3 ^ planes" using js(2) li by simp
  have "items \<noteq> []" using \<open>0 < planes\<close> li by auto
  then show "length symbols = ?k" using js(3) len by (cases items) (auto split: prod.splits)
  have w: "\<And>x. x \<in> set (map (\<lambda>(ts, ss). concat (map le16 ss)) items) \<Longrightarrow> length x = div_ceil ?k QK_K * 2"
    using len by (force simp: length_concat_le)
  show "length sc = planes * (div_ceil ?k QK_K * 2)" unfolding sc using length_concat_const [of "map (\<lambda>(ts, ss). concat (map le16 ss)) items", OF w] li by simp
  assume a: "drop at scales = sc @ rest" "window (r * ?k) ?k all = symbols" "(r + 1) * ?k \<le> length all"
  have "foldR (read_plane scales (div_ceil ?k QK_K)) (map (\<lambda>(ts, ss). map get ts) items) ([], at) = Inr ([] @ sl_planes row, at + length sc)"
    using a(1) len pk unfolding sc by (intro read_planes_ok) auto
  then show "read_row all scales planes ?k r (out, at) = Inr (out @ [row], at + length sc)"
    using js(1) a(2,3) li by (simp add: read_row_def)
qed

lemma extract_tensor_ok:
  assumes e: "extract_tensor planes (name, rows) = Inr ex" and k: "\<forall>row\<in>set rows. sl_k row = k"
  shows "length (ex_symbols ex) = length rows * k" "\<forall>s\<in>set (ex_symbols ex). unat s < 3 ^ planes"
    "length (ex_scales ex) = length rows * (planes * (div_ceil k QK_K * 2))"
    "foldR (read_row (ex_symbols ex) (ex_scales ex) planes k) [0..<length rows] ([], 0) = Inr (rows, length (ex_scales ex))"
proof -
  obtain xs where xs: "mapR (extract_row name planes) (List.enumerate 0 rows) = Inr xs"
    and ex: "ex = \<lparr>ex_symbols = concat (map fst xs), ex_scales = concat (map snd xs)\<rparr>"
    using e by (auto simp: extract_tensor_def rbind_eq_Inr)
  have lx: "length xs = length rows" using mapR_length [OF xs] by (simp add: length_enumerate)
  have x: "extract_row name planes (i, rows ! i) = Inr (fst (xs ! i), snd (xs ! i))" and ki: "sl_k (rows ! i) = k" if "i < length rows" for i
    using xs that lx k by (auto simp: mapR_eq_Inr list_all2_conv_all_nth nth_enumerate_eq length_enumerate)
  have w: "\<forall>y\<in>set xs. length (fst y) = k \<and> length (snd y) = planes * (div_ceil k QK_K * 2) \<and> (\<forall>s\<in>set (fst y). unat s < 3 ^ planes)"
  proof
    fix y assume "y \<in> set xs"
    then obtain i where i: "i < length rows" "y = xs ! i" using lx by (auto simp: in_set_conv_nth)
    show "length (fst y) = k \<and> length (snd y) = planes * (div_ceil k QK_K * 2) \<and> (\<forall>s\<in>set (fst y). unat s < 3 ^ planes)"
      unfolding i(2) using extract_row_ok(1,4,5) [OF x [OF i(1)]] ki [OF i(1)] by simp
  qed
  then have w1: "\<And>y. y \<in> set (map fst xs) \<Longrightarrow> length y = k" and w2: "\<And>y. y \<in> set (map snd xs) \<Longrightarrow> length y = planes * (div_ceil k QK_K * 2)"
    by auto
  show l1: "length (ex_symbols ex) = length rows * k" using length_concat_const [of "map fst xs", OF w1] lx ex by simp
  show "length (ex_scales ex) = length rows * (planes * (div_ceil k QK_K * 2))" using length_concat_const [of "map snd xs", OF w2] lx ex by simp
  show "\<forall>s\<in>set (ex_symbols ex). unat s < 3 ^ planes" using w ex by auto
  have "foldR (read_row (ex_symbols ex) (ex_scales ex) planes k) [0..<n] ([], 0) = Inr (take n rows, length (concat (take n (map snd xs))))"
    if "n \<le> length rows" for n using that
  proof (induction n)
    case (Suc n)
    then have n: "n < length rows" by simp
    have "drop (length (concat (take n (map snd xs)))) (ex_scales ex) = snd (xs ! n) @ concat (drop (Suc n) (map snd xs))"
      using concat_split [of n "map snd xs"] n lx ex by simp
    moreover have "window (n * k) k (ex_symbols ex) = fst (xs ! n)" using window_concat_const [of "map fst xs" k n, OF w1] n lx ex by simp
    moreover have "(n + 1) * k \<le> length (ex_symbols ex)" unfolding l1 using n by (intro mult_le_mono1) simp
    ultimately have "read_row (ex_symbols ex) (ex_scales ex) planes k n (take n rows, length (concat (take n (map snd xs))))
        = Inr (take n rows @ [rows ! n], length (concat (take n (map snd xs))) + length (snd (xs ! n)))"
      using extract_row_ok(6) [OF x [OF n]] ki [OF n] by simp
    then show ?case using Suc n lx by (simp add: foldR_append take_Suc_conv_app_nth)
  qed simp
  from this [of "length rows"] show "foldR (read_row (ex_symbols ex) (ex_scales ex) planes k) [0..<length rows] ([], 0) = Inr (rows, length (ex_scales ex))"
    using lx ex by simp
qed

section \<open>The directory is read back\<close>

definition so_inv :: "Source \<Rightarrow> bool" where
  "so_inv s \<longleftrightarrow> so_pos s \<le> length (so_bytes s)"

definition so_rest :: "Source \<Rightarrow> bytes" where
  "so_rest s = drop (so_pos s) (so_bytes s)"

definition so_adv :: "nat \<Rightarrow> Source \<Rightarrow> Source" where
  "so_adv n s = s\<lparr>so_pos := so_pos s + n\<rparr>"

interpretation so: byte_reader read_exact so_inv so_rest so_adv "\<lambda>n s. Io"
  by unfold_locales (auto simp: so_inv_def so_rest_def so_adv_def read_exact_def window_def add.commute)

lemma read_u8_reads: "so.reads read_u8 [x] x"
  using so.reads_map [OF so.tk_reads [of "[x]"], where f = "\<lambda>s. s ! 0"] by (simp add: read_u8_def [abs_def])

lemma read_u16_reads: "so.reads read_u16 (le16 x) x"
  using so.reads_map [OF so.tk_reads [of "le16 x"], where f = un_le16] by (simp add: read_u16_def [abs_def])

lemma read_u32_reads: "so.reads read_u32 (le32 x) x"
  using so.reads_map [OF so.tk_reads [of "le32 x"], where f = un_le32] by (simp add: read_u32_def [abs_def])

lemma read_u64_reads: "so.reads read_u64 (le64 x) x"
  using so.reads_map [OF so.tk_reads [of "le64 x"], where f = un_le64] by (simp add: read_u64_def [abs_def])

lemma read_info_reads:
  assumes "length name \<le> 65535" "utf8_ok name" "rows < 2 ^ 32" "k < 2 ^ 32" "offset < 2 ^ 64" "scales < 2 ^ 64" "bits < 2 ^ 64"
    "pos + (DIR_FIXED_BYTES + length name) \<le> file_len"
    "check_info planes file_len \<lparr>ji_name = name, ji_rows = rows, ji_k = k, ji_payload_offset = offset, ji_scale_bytes = scales, ji_stream_bytes = bits\<rparr> = Inr ()"
  shows "so.reads (read_info planes file_len pos) (dir_entry name rows k offset scales bits)
    (pos + (DIR_FIXED_BYTES + length name),
     \<lparr>ji_name = name, ji_rows = rows, ji_k = k, ji_payload_offset = offset, ji_scale_bytes = scales, ji_stream_bytes = bits\<rparr>)"
proof -
  have n: "unat (of_nat (length name) :: u16) = length name" "unat (of_nat rows :: u32) = rows" "unat (of_nat k :: u32) = k"
    "unat (of_nat offset :: u64) = offset" "unat (of_nat scales :: u64) = scales" "unat (of_nat bits :: u64) = bits"
    using assms by (simp_all add: unsigned_of_nat take_bit_eq_mod)
  have e: "dir_entry name rows k offset scales bits = le16 (of_nat (length name)) @ name @ le32 (of_nat rows) @ le32 (of_nat k)
    @ le64 (of_nat offset) @ le64 (of_nat scales) @ le64 (of_nat bits) @ []" by (simp add: dir_entry_def)
  show ?thesis unfolding read_info_def [abs_def] e Let_def
    by (intro so.reads_bind [OF read_u16_reads] so.reads_ensure so.reads_bind [OF so.tk_reads_n] so.reads_bind [OF read_u32_reads]
        so.reads_bind [OF read_u64_reads]) (simp_all add: n assms so.reads_pure)
qed

text \<open>The directory the writer lays out, and what it takes in the file.\<close>
fun layout :: "nat \<Rightarrow> ((rstring \<times> SaltRow list) \<times> Extracted \<times> JointStream) list \<Rightarrow> JointTensorInfo list" where
  "layout offset [] = []"
| "layout offset (((name, rows), e, s) # xs) =
    \<lparr>ji_name = name, ji_rows = length rows, ji_k = row_k rows, ji_payload_offset = offset, ji_scale_bytes = length (ex_scales e),
     ji_stream_bytes = length (js_bits s)\<rparr> # layout (offset + (length (ex_scales e) + length (js_bits s))) xs"

definition payload :: "(rstring \<times> SaltRow list) \<times> Extracted \<times> JointStream \<Rightarrow> bytes" where
  "payload x = ex_scales (fst (snd x)) @ js_bits (snd (snd x))"

definition info_bytes :: "JointTensorInfo \<Rightarrow> bytes" where
  "info_bytes i = dir_entry (ji_name i) (ji_rows i) (ji_k i) (ji_payload_offset i) (ji_scale_bytes i) (ji_stream_bytes i)"

lemma length_info_bytes: "length (info_bytes i) = DIR_FIXED_BYTES + length (ji_name i)"
  by (simp add: info_bytes_def dir_entry_def DIR_FIXED_BYTES_def)

lemma layout_nth:
  "i < length xs \<Longrightarrow> layout offset xs ! i = \<lparr>ji_name = fst (fst (xs ! i)), ji_rows = length (snd (fst (xs ! i))), ji_k = row_k (snd (fst (xs ! i))),
     ji_payload_offset = offset + length (concat (map payload (take i xs))), ji_scale_bytes = length (ex_scales (fst (snd (xs ! i)))),
     ji_stream_bytes = length (js_bits (snd (snd (xs ! i))))\<rparr>"
proof (induction offset xs arbitrary: i rule: layout.induct)
  case (2 offset name rows e s xs)
  then show ?case by (cases i) (auto simp: payload_def)
qed simp

lemma length_layout [simp]: "length (layout offset xs) = length xs"
  by (induction offset xs rule: layout.induct) simp_all

lemma map_name_layout: "map ji_name (layout offset xs) = map (\<lambda>x. fst (fst x)) xs"
  by (induction offset xs rule: layout.induct) simp_all

lemma layout_contiguous: "foldR check_contiguous (layout offset xs) offset = Inr (offset + length (concat (map payload xs)))"
  by (induction offset xs rule: layout.induct) (simp_all add: check_contiguous_def payload_def)

lemma write_entries_ok:
  assumes "foldR write_entry xs (out, offset) = Inr (out', offset')"
  shows "out' = out @ concat (map info_bytes (layout offset xs))"
    "\<forall>x\<in>set xs. length (fst (fst x)) \<le> 65535 \<and> (\<forall>row\<in>set (snd (fst x)). sl_k row = row_k (snd (fst x)))"
proof -
  have "out' = out @ concat (map info_bytes (layout offset xs)) \<and>
    (\<forall>x\<in>set xs. length (fst (fst x)) \<le> 65535 \<and> (\<forall>row\<in>set (snd (fst x)). sl_k row = row_k (snd (fst x))))" using assms
  proof (induction offset xs arbitrary: out rule: layout.induct)
    case (2 offset name rows e s xs)
    from "2.prems" have w: "\<not> 65535 < length name" "\<not> list_ex (\<lambda>r. sl_k r \<noteq> row_k rows) rows"
      and r: "foldR write_entry xs (out @ dir_entry name (length rows) (row_k rows) offset (length (ex_scales e)) (length (js_bits s)),
        offset + (length (ex_scales e) + length (js_bits s))) = Inr (out', offset')"
      by (auto simp: write_entry_def [of "((name, rows), e, s)"] Let_def split: if_splits)
    show ?case using "2.IH" [OF r] w by (auto simp: info_bytes_def list_ex_iff)
  qed simp
  then show "out' = out @ concat (map info_bytes (layout offset xs))"
    "\<forall>x\<in>set xs. length (fst (fst x)) \<le> 65535 \<and> (\<forall>row\<in>set (snd (fst x)). sl_k row = row_k (snd (fst x)))" by blast+
qed

text \<open>An entry whose fields fit their widths and that passes the reader's checks.\<close>
definition info_ok :: "nat \<Rightarrow> nat \<Rightarrow> JointTensorInfo \<Rightarrow> bool" where
  "info_ok planes file_len i \<longleftrightarrow> length (ji_name i) \<le> 65535 \<and> utf8_ok (ji_name i) \<and> ji_rows i < 2 ^ 32 \<and> ji_k i < 2 ^ 32 \<and>
     ji_payload_offset i < 2 ^ 64 \<and> ji_scale_bytes i < 2 ^ 64 \<and> ji_stream_bytes i < 2 ^ 64 \<and> check_info planes file_len i = Inr ()"

lemma read_dir_ok:
  assumes "so_inv s" "so_rest s = concat (map info_bytes infos) @ ts" "\<forall>i\<in>set infos. info_ok planes file_len i"
    "distinct (map ji_name infos)" "\<forall>i\<in>set infos. m (ji_name i) = None" "pos + length (concat (map info_bytes infos)) \<le> file_len"
  shows "\<exists>m'. read_dir planes file_len (length infos) pos entries m s = Inr (pos + length (concat (map info_bytes infos)), entries @ infos, m')
    \<and> (\<forall>j<length infos. m' (ji_name (infos ! j)) = Some (length entries + j)) \<and> (\<forall>n. n \<notin> ji_name ` set infos \<longrightarrow> m' n = m n)"
  using assms
proof (induction infos arbitrary: s pos entries m)
  case (Cons i infos)
  let ?n = "length (info_bytes i)" and ?s = "so_adv (length (info_bytes i)) s" and ?rest = "concat (map info_bytes infos) @ ts"
  have "so.reads (read_info planes file_len pos) (info_bytes i) (pos + ?n, i)"
  proof -
    have i: "\<lparr>ji_name = ji_name i, ji_rows = ji_rows i, ji_k = ji_k i, ji_payload_offset = ji_payload_offset i,
      ji_scale_bytes = ji_scale_bytes i, ji_stream_bytes = ji_stream_bytes i\<rparr> = i" by (cases i) simp
    have "pos + (DIR_FIXED_BYTES + length (ji_name i)) \<le> file_len" using Cons.prems(6) length_info_bytes [of i] by simp
    then show ?thesis unfolding length_info_bytes unfolding info_bytes_def
      using Cons.prems(3) read_info_reads [of "ji_name i" "ji_rows i" "ji_k i" "ji_payload_offset i" "ji_scale_bytes i" "ji_stream_bytes i" pos file_len planes, unfolded i]
      by (simp add: info_ok_def)
  qed
  then have r: "read_info planes file_len pos s = Inr ((pos + ?n, i), ?s)"
    using so.readsD [OF _ Cons.prems(1), of _ "info_bytes i" _ ?rest] Cons.prems(2) by simp
  have st: "so_inv ?s" "so_rest ?s = ?rest" using so.adv_state [of s "info_bytes i" ?rest] Cons.prems(1,2) by simp_all
  have none: "\<forall>j\<in>set infos. (m(ji_name i \<mapsto> length entries)) (ji_name j) = None" using Cons.prems(4,5) by (fastforce simp: image_iff)
  have "\<exists>m'. read_dir planes file_len (length infos) (pos + ?n) (entries @ [i]) (m(ji_name i \<mapsto> length entries)) ?s
      = Inr (pos + ?n + length (concat (map info_bytes infos)), (entries @ [i]) @ infos, m')
    \<and> (\<forall>j<length infos. m' (ji_name (infos ! j)) = Some (length (entries @ [i]) + j))
    \<and> (\<forall>n. n \<notin> ji_name ` set infos \<longrightarrow> m' n = (m(ji_name i \<mapsto> length entries)) n)"
    using Cons.prems(3,4,6) by (intro Cons.IH [OF st _ _ none]) auto
  then obtain m' where m': "read_dir planes file_len (length infos) (pos + ?n) (entries @ [i]) (m(ji_name i \<mapsto> length entries)) ?s
      = Inr (pos + ?n + length (concat (map info_bytes infos)), (entries @ [i]) @ infos, m')"
    "\<forall>j<length infos. m' (ji_name (infos ! j)) = Some (length (entries @ [i]) + j)"
    "\<forall>n. n \<notin> ji_name ` set infos \<longrightarrow> m' n = (m(ji_name i \<mapsto> length entries)) n" by blast
  have "m' (ji_name ((i # infos) ! j)) = Some (length entries + j)" if "j < length (i # infos)" for j
    using that m'(2,3) Cons.prems(4) by (cases j) auto
  then show ?case using r m'(1,3) Cons.prems(5) by (intro exI [of _ m']) auto
qed simp

lemma source_step:
  assumes "so.reads p bs v" "drop n out = bs @ ts" "n \<le> length out"
  shows "p \<lparr>so_bytes = out, so_pos = n\<rparr> = Inr (v, \<lparr>so_bytes = out, so_pos = n + length bs\<rparr>)"
  using so.readsD [OF assms(1), of "\<lparr>so_bytes = out, so_pos = n\<rparr>" ts] assms(2,3) by (simp add: so_inv_def so_rest_def so_adv_def)

definition header_bytes :: "nat \<Rightarrow> u16 \<Rightarrow> nat \<Rightarrow> nat list \<Rightarrow> bytes" where
  "header_bytes planes rotation n lengths = SALT_JOINT_BUNDLE_MAGIC @ [SALT_JOINT_BUNDLE_VERSION] @ [of_nat planes] @ le16 rotation
    @ le32 (of_nat n) @ map of_nat lengths"

text \<open>The reader accepts a file whose header, directory and payloads agree, and indexes every entry by its name.\<close>
lemma new_strict_ok:
  assumes planes: "0 < planes" "planes \<le> 9" and L: "length L = 3 ^ planes" "\<forall>l\<in>set L. l < 256" "from_lengths L planes = Inr code"
    and out: "out = header_bytes planes rotation (length infos) L @ concat (map info_bytes infos) @ body"
    and n: "length infos \<le> MAX_TENSORS" and ok: "\<forall>i\<in>set infos. info_ok planes (length out) i" "distinct (map ji_name infos)"
    and contiguous: "foldR check_contiguous infos (HEADER_BYTES + 3 ^ planes + length (concat (map info_bytes infos))) = Inr (length out)"
  obtains rd where "new_strict out = Inr rd" "jr_source rd = out" "jr_planes rd = planes" "jr_code rd = code" "jr_entries rd = infos"
    "jr_rotation_group rd = (if rotation \<noteq> 0 then Some rotation else None)" "\<forall>j<length infos. jr_by_name rd (ji_name (infos ! j)) = Some j"
    "\<forall>name. name \<notin> ji_name ` set infos \<longrightarrow> jr_by_name rd name = None"
proof -
  let ?hl = "HEADER_BYTES + 3 ^ planes"
  have w: "unat (of_nat planes :: u8) = planes" "unat (of_nat (length infos) :: u32) = length infos" "map (\<lambda>l. unat (of_nat l :: u8)) L = L"
    using planes n L(2) by (auto simp: unsigned_of_nat take_bit_eq_mod MAX_TENSORS_def intro!: map_idI)
  have hl: "length (header_bytes planes rotation (length infos) L) = ?hl"
    using L(1) by (simp add: header_bytes_def HEADER_BYTES_def SALT_JOINT_BUNDLE_MAGIC_def)
  let ?s = "\<lparr>so_bytes = out, so_pos = ?hl\<rparr>"
  have s: "so_inv ?s" "so_rest ?s = concat (map info_bytes infos) @ body" using out hl by (simp_all add: so_inv_def so_rest_def)
  have fl: "?hl + length (concat (map info_bytes infos)) \<le> length out" using out hl by simp
  obtain m where m: "read_dir planes (length out) (length infos) ?hl [] Map.empty ?s = Inr (?hl + length (concat (map info_bytes infos)), infos, m)"
    "\<forall>j<length infos. m (ji_name (infos ! j)) = Some j" "\<forall>name. name \<notin> ji_name ` set infos \<longrightarrow> m name = None"
    using read_dir_ok [OF s ok _ fl, of Map.empty "[]"] by auto
  let ?rd = "\<lparr>jr_source = out, jr_planes = planes, jr_rotation_group = (if rotation \<noteq> 0 then Some rotation else None), jr_code = code,
    jr_entries = infos, jr_by_name = m\<rparr>"
  let ?at = "\<lambda>n. \<lparr>so_bytes = out, so_pos = n\<rparr>"
  note d = out header_bytes_def SALT_JOINT_BUNDLE_MAGIC_def HEADER_BYTES_def
  have "read_exact 4 (?at 0) = Inr (SALT_JOINT_BUNDLE_MAGIC, ?at 4)"
    using source_step [OF so.tk_reads [of SALT_JOINT_BUNDLE_MAGIC], of 0 out] by (simp add: d eval_nat_numeral)
  moreover have "read_u8 (?at 4) = Inr (SALT_JOINT_BUNDLE_VERSION, ?at 5)" using source_step [OF read_u8_reads, of 4 out] by (simp add: d)
  moreover have "read_u8 (?at 5) = Inr (of_nat planes, ?at 6)" using source_step [OF read_u8_reads, of 5 out] by (simp add: d)
  moreover have "read_u16 (?at 6) = Inr (rotation, ?at 8)" using source_step [OF read_u16_reads, of 6 out] by (simp add: d)
  moreover have "read_u32 (?at 8) = Inr (of_nat (length infos), ?at 12)" using source_step [OF read_u32_reads, of 8 out] by (simp add: d)
  moreover have "read_exact (3 ^ planes) (?at 12) = Inr (map of_nat L, ?s)"
    using source_step [OF so.tk_reads [of "map of_nat L"], of 12 out] L(1) by (simp add: d)
  ultimately have "new_strict out = Inr ?rd" using planes n w L(3) m(1) contiguous
    by (simp add: new_strict_def Let_def MAX_JOINT_PLANES_def comp_def)
  then show ?thesis by (rule that) (use m(2,3) in simp_all)
qed

lemma check_info_ok:
  assumes "0 < planes" "file_len \<le> usize_MAX" "ji_scale_bytes i = ji_rows i * (planes * (div_ceil (ji_k i) QK_K * 2))"
    "ji_payload_offset i + (ji_scale_bytes i + ji_stream_bytes i) \<le> file_len"
  shows "check_info planes file_len i = Inr ()"
proof -
  let ?v = "ji_rows i * div_ceil (ji_k i) QK_K"
  have p: "?v * (planes * 2) = ji_scale_bytes i" using assms(3) by (simp add: algebra_simps)
  have "?v * 1 \<le> ?v * (planes * 2)" using assms(1) by (intro mult_le_mono2) simp
  then have "?v \<le> ji_scale_bytes i" unfolding p by (simp only: mult_1_right)
  then have "checked_mul (ji_rows i) (div_ceil (ji_k i) QK_K) = Some ?v" "checked_mul ?v (planes * 2) = Some (ji_scale_bytes i)"
    using p assms(2,4) by (simp_all add: checked_mul_def)
  then show ?thesis using assms(2,4) by (simp add: check_info_def checked_add_def checked_mul_def)
qed

lemma read_tensor_ok:
  assumes info: "tensor_info rd name = Some i" "ji_rows i = length rows" "ji_k i = k" "ji_rows i < 2 ^ 32" "ji_k i < 2 ^ 32"
    and src: "jr_source rd = pre @ (ex_scales e @ js_bits s) @ post" "ji_payload_offset i = length pre"
      "ji_scale_bytes i = length (ex_scales e)" "ji_stream_bytes i = length (js_bits s)"
    and e: "extract_tensor (jr_planes rd) (name', rows) = Inr e" "\<forall>row\<in>set rows. sl_k row = k"
    and c: "code_ok (jr_code rd)" "encode (jr_code rd) (ex_symbols e) block = Inr s"
  shows "read_tensor rd name = Inr rows"
proof -
  note ex = extract_tensor_ok [OF e]
  let ?n = "length rows * k"
  have "length rows * k \<le> (2 ^ 32 - 1) * (2 ^ 32 - 1)" using info(2-5) by (intro mult_le_mono) simp_all
  then have n: "?n \<le> usize_MAX" by (simp add: usize_MAX_def)
  have "js_symbols s = ?n"
  proof -
    obtain s' pad where "encode (jr_code rd) (ex_symbols e) block = Inr s'" "js_symbols s' = length (ex_symbols e)"
      using encode_ok [OF c(1) encode_coded [OF c(2)]] by blast
    then show ?thesis using c(2) ex(1) by simp
  qed
  then have "decode (jr_code rd) \<lparr>js_bits = js_bits s, js_block_offsets = [0], js_block = max ?n 1, js_symbols = ?n\<rparr> = Inr (ex_symbols e)"
    using stream_roundtrip(1) [OF c] by (simp add: decode_def)
  moreover have "read_exact (ji_scale_bytes i) \<lparr>so_bytes = jr_source rd, so_pos = ji_payload_offset i\<rparr>
      = Inr (ex_scales e, \<lparr>so_bytes = jr_source rd, so_pos = length pre + length (ex_scales e)\<rparr>)"
    "read_exact (ji_stream_bytes i) \<lparr>so_bytes = jr_source rd, so_pos = length pre + length (ex_scales e)\<rparr>
      = Inr (js_bits s, \<lparr>so_bytes = jr_source rd, so_pos = length pre + length (ex_scales e) + length (js_bits s)\<rparr>)"
    using src by (simp_all add: read_exact_def window_def)
  ultimately show ?thesis using info(1-3) n ex(4) by (simp add: read_tensor_def checked_mul_def)
qed

lemma from_lengths_bounds:
  assumes "from_lengths L t = Inr c"
  shows "length L = 3 ^ t" "\<forall>l\<in>set L. l < 256"
proof -
  obtain m where m: "m = fold max L 0" "m \<le> 15" "length L = 3 ^ t" using from_lengths_parts [OF assms] by metis
  show "length L = 3 ^ t" by (fact m(3))
  show "\<forall>l\<in>set L. l < 256" using fold_max(2) [of _ L 0] m(1,2) by fastforce
qed

lemma first_row_in: "first_row tensors = Some row \<Longrightarrow> \<exists>(name, rows)\<in>set tensors. row \<in> set rows"
  by (induction tensors rule: first_row.induct) (auto split: list.splits)

lemma extract_planes:
  assumes "first_row tensors = Some row" "mapR (extract_tensor planes) tensors = Inr extracted"
  shows "0 < planes" "planes \<le> 9"
proof -
  obtain name rows where t: "(name, rows) \<in> set tensors" "row \<in> set rows" using first_row_in [OF assms(1)] by auto
  then obtain i j where ij: "i < length tensors" "tensors ! i = (name, rows)" "j < length rows" "row = rows ! j" by (auto simp: in_set_conv_nth)
  then have "extract_tensor planes (name, rows) = Inr (extracted ! i)" using assms(2) by (auto simp: mapR_eq_Inr list_all2_conv_all_nth)
  then obtain xs where "mapR (extract_row name planes) (List.enumerate 0 rows) = Inr xs" by (auto simp: extract_tensor_def rbind_eq_Inr)
  then have "extract_row name planes (j, row) = Inr (fst (xs ! j), snd (xs ! j))"
    using ij(3,4) by (auto simp: mapR_eq_Inr list_all2_conv_all_nth nth_enumerate_eq length_enumerate)
  from extract_row_ok(2,3) [OF this] show "0 < planes" "planes \<le> 9" by simp_all
qed

text \<open>What a written file consists of.\<close>
lemma write_parts:
  assumes "write_joint_salt_bundle tensors rotation = Some (Inr out)"
  obtains row planes extracted code L streams xs offset where "first_row tensors = Some row" "planes = length (sl_planes row)" "length tensors \<le> MAX_TENSORS"
    "mapR (extract_tensor planes) tensors = Inr extracted" "from_lengths L planes = Inr code"
    "mapR (\<lambda>e. map_err Code (encode code (ex_symbols e) (max (length (ex_symbols e)) 1))) extracted = Inr streams"
    "xs = zip tensors (zip extracted streams)" "offset = HEADER_BYTES + 3 ^ planes + length (concat (map info_bytes (layout offset xs)))"
    "\<forall>x\<in>set xs. length (fst (fst x)) \<le> 65535 \<and> (\<forall>row\<in>set (snd (fst x)). sl_k row = row_k (snd (fst x)))"
    "out = header_bytes planes (case rotation of None \<Rightarrow> 0 | Some g \<Rightarrow> g) (length tensors) L @ concat (map info_bytes (layout offset xs)) @ concat (map payload xs)"
proof -
  obtain row where row: "first_row tensors = Some row" using assms by (auto simp: write_joint_salt_bundle_def split: option.splits)
  let ?planes = "length (sl_planes row)"
  obtain extracted code where w: "length tensors \<le> MAX_TENSORS" "mapR (extract_tensor ?planes) tensors = Inr extracted"
    "build (count_symbols (3 ^ ?planes) extracted) ?planes = Some (Inr code)" "write_body tensors rotation ?planes extracted code = Inr out"
    using assms row by (auto simp: write_joint_salt_bundle_def Let_def rbind_eq_Inr bind_eq_Some_conv split: sum.splits if_splits)
  obtain L where L: "from_lengths L ?planes = Inr code" using w(3) by (auto simp: build_def Let_def bind_eq_Some_conv split: sum.splits if_splits)
  have jl: "jc_lengths code = L" using from_lengths_parts [OF L] by metis
  let ?offset = "HEADER_BYTES + 3 ^ ?planes + sum_list (map (\<lambda>(name, _). DIR_FIXED_BYTES + length name) tensors)"
  let ?header = "header_bytes ?planes (case rotation of None \<Rightarrow> 0 | Some g \<Rightarrow> g) (length tensors) L"
  obtain streams out' offset' where st: "mapR (\<lambda>e. map_err Code (encode code (ex_symbols e) (max (length (ex_symbols e)) 1))) extracted = Inr streams"
    and fo: "foldR write_entry (zip tensors (zip extracted streams)) (?header, ?offset) = Inr (out', offset')"
    and out: "out = out' @ concat (map (\<lambda>(e, s). ex_scales e @ js_bits s) (zip extracted streams))"
    using w(4) jl by (auto simp: write_body_def Let_def rbind_eq_Inr header_bytes_def)
  let ?xs = "zip tensors (zip extracted streams)"
  have len: "length extracted = length tensors" "length streams = length tensors" using mapR_length [OF w(2)] mapR_length [OF st] by simp_all
  note we = write_entries_ok [OF fo]
  have "map (\<lambda>i. length (info_bytes i)) (layout ?offset ?xs) = map (\<lambda>n. DIR_FIXED_BYTES + length n) (map ji_name (layout ?offset ?xs))"
    by (simp add: length_info_bytes)
  also have "\<dots> = map (\<lambda>(name, _). DIR_FIXED_BYTES + length name) (map fst ?xs)"
    unfolding map_name_layout by (simp add: case_prod_unfold)
  also have "map fst ?xs = tensors" using len by simp
  finally have off: "?offset = HEADER_BYTES + 3 ^ ?planes + length (concat (map info_bytes (layout ?offset ?xs)))"
    by (simp add: length_concat comp_def)
  have "map (\<lambda>(e, s). ex_scales e @ js_bits s) (zip extracted streams) = map payload ?xs"
    using len by (intro nth_equalityI) (simp_all add: payload_def)
  then show ?thesis using that [OF row refl w(1,2) L st refl off we(2)] out we(1) by simp
qed

lemma written:
  assumes w: "write_joint_salt_bundle tensors rotation = Some (Inr out)"
  obtains planes code L xs offset where "0 < planes" "planes \<le> 9" "from_lengths L planes = Inr code" "map fst xs = tensors" "length tensors \<le> MAX_TENSORS"
    "out = header_bytes planes (case rotation of None \<Rightarrow> 0 | Some g \<Rightarrow> g) (length tensors) L @ concat (map info_bytes (layout offset xs)) @ concat (map payload xs)"
    "offset = HEADER_BYTES + 3 ^ planes + length (concat (map info_bytes (layout offset xs)))"
    "\<forall>((name, rows), e, s)\<in>set xs. extract_tensor planes (name, rows) = Inr e \<and> encode code (ex_symbols e) (max (length (ex_symbols e)) 1) = Inr s
      \<and> (\<forall>row\<in>set rows. sl_k row = row_k rows) \<and> length name \<le> 65535"
proof -
  let ?rot = "case rotation of None \<Rightarrow> 0 | Some g \<Rightarrow> g"
  obtain row planes extracted code L streams xs offset where p: "first_row tensors = Some row" "length tensors \<le> MAX_TENSORS"
    "mapR (extract_tensor planes) tensors = Inr extracted" "from_lengths L planes = Inr code"
    "mapR (\<lambda>e. map_err Code (encode code (ex_symbols e) (max (length (ex_symbols e)) 1))) extracted = Inr streams"
    "xs = zip tensors (zip extracted streams)" "offset = HEADER_BYTES + 3 ^ planes + length (concat (map info_bytes (layout offset xs)))"
    "\<forall>x\<in>set xs. length (fst (fst x)) \<le> 65535 \<and> (\<forall>row\<in>set (snd (fst x)). sl_k row = row_k (snd (fst x)))"
    "out = header_bytes planes ?rot (length tensors) L @ concat (map info_bytes (layout offset xs)) @ concat (map payload xs)"
    by (rule write_parts [OF w])
  have len: "length extracted = length tensors" "length streams = length tensors" using mapR_length [OF p(3)] mapR_length [OF p(5)] by simp_all
  have "extract_tensor planes (name, rows) = Inr e \<and> encode code (ex_symbols e) (max (length (ex_symbols e)) 1) = Inr s
      \<and> (\<forall>row\<in>set rows. sl_k row = row_k rows) \<and> length name \<le> 65535" if m: "((name, rows), e, s) \<in> set xs" for name rows e s
  proof -
    obtain i where "i < length tensors" "tensors ! i = (name, rows)" "extracted ! i = e" "streams ! i = s"
      using m len by (auto simp: p(6) in_set_conv_nth)
    then show ?thesis using p(3,5) p(8) [rule_format, OF m] len by (auto simp: mapR_eq_Inr list_all2_conv_all_nth map_err_eq_Inr)
  qed
  moreover have "map fst xs = tensors" using len p(6) by simp
  ultimately show ?thesis using that [OF extract_planes [OF p(1,3)] p(4) _ p(2,9,7)] by fast
qed

lemma layout_info_ok:
  assumes "0 < planes" "length out \<le> usize_MAX" "out = pre @ concat (map payload xs)" "length pre = offset"
    "\<forall>((name, rows), e, s)\<in>set xs. extract_tensor planes (name, rows) = Inr e \<and> (\<forall>row\<in>set rows. sl_k row = row_k rows)
      \<and> length name \<le> 65535 \<and> utf8_ok name \<and> length rows < 2 ^ 32 \<and> row_k rows < 2 ^ 32"
    and i: "i < length xs"
  shows "info_ok planes (length out) (layout offset xs ! i)"
proof -
  obtain name rows e s where x: "xs ! i = ((name, rows), e, s)" by (metis surj_pair)
  have m: "((name, rows), e, s) \<in> set xs" using nth_mem [OF i] x by simp
  have f: "extract_tensor planes (name, rows) = Inr e" "\<forall>row\<in>set rows. sl_k row = row_k rows"
    "length name \<le> 65535" "utf8_ok name" "length rows < 2 ^ 32" "row_k rows < 2 ^ 32" using assms(5) m by auto
  have "length out = offset + length (concat (map payload (take i xs))) + length (ex_scales e) + length (js_bits s) + length (concat (map payload (drop (Suc i) xs)))"
    using assms(3,4) concat_split [of i "map payload xs"] i x by (simp add: take_map drop_map payload_def)
  then have b: "offset + length (concat (map payload (take i xs))) + (length (ex_scales e) + length (js_bits s)) \<le> length out" by simp
  then have "check_info planes (length out) (layout offset xs ! i) = Inr ()"
    using extract_tensor_ok(3) [OF f(1,2)] by (intro check_info_ok [OF assms(1,2)]) (simp_all add: layout_nth [OF i] x)
  moreover have "offset + length (concat (map payload (take i xs))) < 2 ^ 64" "length (ex_scales e) < 2 ^ 64" "length (js_bits s) < 2 ^ 64"
    using b assms(2) by (simp_all add: usize_MAX_def)
  ultimately show ?thesis using f(3-6) by (simp add: info_ok_def layout_nth [OF i] x)
qed

lemma opens:
  assumes planes: "0 < planes" "planes \<le> 9" "from_lengths L planes = Inr code" "length xs \<le> MAX_TENSORS"
    and out: "out = header_bytes planes rotation (length xs) L @ concat (map info_bytes (layout offset xs)) @ concat (map payload xs)"
    and off: "offset = HEADER_BYTES + 3 ^ planes + length (concat (map info_bytes (layout offset xs)))"
    and mem: "length out \<le> usize_MAX" and names: "distinct (map (\<lambda>x. fst (fst x)) xs)"
    and x: "\<forall>((name, rows), e, s)\<in>set xs. extract_tensor planes (name, rows) = Inr e \<and> (\<forall>row\<in>set rows. sl_k row = row_k rows)
      \<and> length name \<le> 65535 \<and> utf8_ok name \<and> length rows < 2 ^ 32 \<and> row_k rows < 2 ^ 32"
  obtains rd where "new_strict out = Inr rd" "jr_source rd = out" "jr_planes rd = planes" "jr_code rd = code" "jr_entries rd = layout offset xs"
    "jr_rotation_group rd = (if rotation \<noteq> 0 then Some rotation else None)" "\<forall>j<length xs. jr_by_name rd (fst (fst (xs ! j))) = Some j"
proof -
  let ?infos = "layout offset xs" and ?pre = "header_bytes planes rotation (length xs) L @ concat (map info_bytes (layout offset xs))"
  note L = from_lengths_bounds [OF planes(3)]
  have pre: "length ?pre = offset" using off L by (simp add: header_bytes_def HEADER_BYTES_def SALT_JOINT_BUNDLE_MAGIC_def)
  have ok: "\<forall>i\<in>set ?infos. info_ok planes (length out) i"
    using layout_info_ok [OF planes(1) mem _ pre x] out by (auto simp: in_set_conv_nth)
  have out': "out = header_bytes planes rotation (length ?infos) L @ concat (map info_bytes ?infos) @ concat (map payload xs)" using out by simp
  have n: "length ?infos \<le> MAX_TENSORS" using planes(4) by simp
  have d: "distinct (map ji_name ?infos)" using names unfolding map_name_layout .
  have "foldR check_contiguous ?infos offset = Inr (length out)"
    unfolding layout_contiguous using pre arg_cong [OF out, of length] by simp
  then have c: "foldR check_contiguous ?infos (HEADER_BYTES + 3 ^ planes + length (concat (map info_bytes ?infos))) = Inr (length out)"
    using off by simp
  obtain rd where rd: "new_strict out = Inr rd" "jr_source rd = out" "jr_planes rd = planes" "jr_code rd = code" "jr_entries rd = ?infos"
    "jr_rotation_group rd = (if rotation \<noteq> 0 then Some rotation else None)" "\<forall>j<length ?infos. jr_by_name rd (ji_name (?infos ! j)) = Some j"
    "\<forall>name. name \<notin> ji_name ` set ?infos \<longrightarrow> jr_by_name rd name = None"
    by (rule new_strict_ok [OF planes(1,2) L planes(3) out' n ok d c])
  then show ?thesis by (intro that [OF rd(1-6)]) (simp add: layout_nth)
qed

lemma written_reads:
  assumes w: "write_joint_salt_bundle tensors rotation = Some (Inr out)" and names: "distinct (map fst tensors)"
    and fit: "\<forall>(name, rows)\<in>set tensors. utf8_ok name \<and> length rows < 2 ^ 32 \<and> row_k rows < 2 ^ 32" and mem: "length out \<le> usize_MAX"
  shows "\<exists>rd. new_strict out = Inr rd \<and> jr_rotation_group rd = (if rotation = Some 0 then None else rotation)
    \<and> map ji_name (jr_entries rd) = map fst tensors \<and> (\<forall>(name, rows)\<in>set tensors. read_tensor rd name = Inr rows)"
proof -
  let ?rot = "case rotation of None \<Rightarrow> 0 | Some g \<Rightarrow> g"
  obtain planes code L xs offset where p: "0 < planes" "planes \<le> 9" "from_lengths L planes = Inr code" "map fst xs = tensors" "length tensors \<le> MAX_TENSORS"
    "out = header_bytes planes ?rot (length tensors) L @ concat (map info_bytes (layout offset xs)) @ concat (map payload xs)"
    "offset = HEADER_BYTES + 3 ^ planes + length (concat (map info_bytes (layout offset xs)))"
    and x: "\<forall>((name, rows), e, s)\<in>set xs. extract_tensor planes (name, rows) = Inr e \<and> encode code (ex_symbols e) (max (length (ex_symbols e)) 1) = Inr s
      \<and> (\<forall>row\<in>set rows. sl_k row = row_k rows) \<and> length name \<le> 65535"
    by (rule written [OF w])
  let ?pre = "header_bytes planes ?rot (length tensors) L @ concat (map info_bytes (layout offset xs))"
  have len: "length xs = length tensors" using p(4) by auto
  have mx: "map (\<lambda>x. fst (fst x)) xs = map fst tensors" using p(4) by auto
  have x': "\<forall>((name, rows), e, s)\<in>set xs. extract_tensor planes (name, rows) = Inr e \<and> (\<forall>row\<in>set rows. sl_k row = row_k rows)
      \<and> length name \<le> 65535 \<and> utf8_ok name \<and> length rows < 2 ^ 32 \<and> row_k rows < 2 ^ 32"
    using x fit unfolding p(4) [symmetric] by fastforce
  obtain rd where rd: "new_strict out = Inr rd" "jr_source rd = out" "jr_planes rd = planes" "jr_code rd = code" "jr_entries rd = layout offset xs"
    "jr_rotation_group rd = (if ?rot \<noteq> 0 then Some ?rot else None)" "\<forall>j<length xs. jr_by_name rd (fst (fst (xs ! j))) = Some j"
    by (rule opens [OF p(1-3) p(5) [folded len] p(6) [folded len] p(7) mem names [folded mx] x'])
  have pre: "length ?pre = offset"
    using p(7) from_lengths_bounds [OF p(3)] by (simp add: header_bytes_def HEADER_BYTES_def SALT_JOINT_BUNDLE_MAGIC_def)
  have "read_tensor rd name = Inr rows" if t: "(name, rows) \<in> set tensors" for name rows
  proof -
    obtain x where "x \<in> set xs" "fst x = (name, rows)" using t p(4) by auto
    then obtain i e s where i: "i < length xs" "xs ! i = ((name, rows), e, s)" by (metis in_set_conv_nth surj_pair prod.collapse)
    have m: "((name, rows), e, s) \<in> set xs" using nth_mem [OF i(1)] i(2) by simp
    have src: "jr_source rd = (?pre @ concat (map payload (take i xs))) @ (ex_scales e @ js_bits s) @ concat (map payload (drop (Suc i) xs))"
      using rd(2) p(6) concat_split [of i "map payload xs"] i by (simp add: take_map drop_map payload_def)
    have "tensor_info rd name = Some (layout offset xs ! i)" using rd(5,7) i by (auto simp: tensor_info_def)
    moreover have "extract_tensor planes (name, rows) = Inr e" "\<forall>row\<in>set rows. sl_k row = row_k rows"
      "encode code (ex_symbols e) (max (length (ex_symbols e)) 1) = Inr s" "length rows < 2 ^ 32" "row_k rows < 2 ^ 32" using x x' m by auto
    ultimately show ?thesis using from_lengths_ok [OF p(3)] rd(3,4) pre
      by (intro read_tensor_ok [OF _ _ _ _ _ src, where i = "layout offset xs ! i" and k = "row_k rows" and name' = name and block = "max (length (ex_symbols e)) 1"]) (simp_all add: layout_nth [OF i(1)] i(2))
  qed
  then show ?thesis using rd mx by (intro exI [of _ rd]) (auto simp: map_name_layout split: option.splits)
qed

section \<open>The writer returns a file\<close>

definition count_one :: "u16 \<Rightarrow> u64 list \<Rightarrow> u64 list" where
  "count_one s freq = freq[unat s := freq ! unat s + 1]"

lemma length_fold_count_one: "length (fold count_one ss freq) = length freq"
  by (induction ss arbitrary: freq) (simp_all add: count_one_def)

lemma fold_count_one:
  "\<forall>s\<in>set ss. unat s < length freq \<Longrightarrow> i < length freq \<Longrightarrow> fold count_one ss freq ! i = freq ! i + of_nat (count_list (map unat ss) i)"
  by (induction ss arbitrary: freq) (auto simp: count_one_def nth_list_update)

lemma count_symbols_ok:
  assumes sy: "\<forall>e\<in>set es. \<forall>s\<in>set (ex_symbols e). unat s < a" and n: "sum_list (map (\<lambda>e. length (ex_symbols e)) es) < 2 ^ 64"
  shows "length (count_symbols a es) = a" "e \<in> set es \<Longrightarrow> s \<in> set (ex_symbols e) \<Longrightarrow> 0 < count_symbols a es ! unat s"
proof -
  let ?ss = "concat (map ex_symbols es)"
  have "fold (\<lambda>e. fold count_one (ex_symbols e)) es f = fold count_one (concat (map ex_symbols es)) f" for f by (induction es arbitrary: f) simp_all
  then have c: "count_symbols a es = fold count_one ?ss (replicate a 0)" by (simp add: count_symbols_def count_one_def [abs_def])
  have b: "\<forall>s\<in>set ?ss. unat s < length (replicate a (0 :: u64))" using sy by simp
  show "length (count_symbols a es) = a" unfolding c by (simp add: length_fold_count_one)
  assume s: "e \<in> set es" "s \<in> set (ex_symbols e)"
  let ?c = "count_list (map unat ?ss) (unat s)"
  have us: "unat s < a" using sy s by blast
  have "?c \<noteq> 0" using s by (auto simp: count_list_0_iff)
  moreover have "?c < 2 ^ 64" using count_le_length [of "map unat ?ss" "unat s"] n by (simp add: length_concat comp_def)
  ultimately have "unat (of_nat ?c :: u64) \<noteq> 0" by (simp add: unat_of_nat)
  then have "(of_nat ?c :: u64) \<noteq> 0" by (metis unat_0)
  then show "0 < count_symbols a es ! unat s" using fold_count_one [OF b, of "unat s"] us c by (simp add: word_gt_0)
qed

lemma encode_length:
  assumes c: "code_ok c" "encode c symbols block = Inr stream"
  shows "length (js_bits stream) \<le> 2 * length symbols"
proof -
  note cd = encode_coded [OF c(2)]
  obtain pad where b: "stream_bits (js_bits stream) = concat (map (cw c) symbols) @ pad" "length pad < 8"
    using encode_ok [OF c(1) cd] c(2) by (metis sum.inject(2))
  have "length (concat (map (cw c) symbols)) \<le> 15 * length symbols" using cd(1)
  proof (induction symbols)
    case (Cons s symbols)
    then show ?case using code_ok_facts(1,3) [OF c(1), of s] by simp
  qed simp
  moreover have "length (stream_bits (js_bits stream)) = 8 * length (js_bits stream)" by (simp add: stream_bits_def length_concat comp_def sum_list_triv)
  ultimately show ?thesis using b by simp
qed

text \<open>The largest file the writer makes of extracted tensors: no code word is longer than 15 bits.\<close>
definition max_file_len :: "nat \<Rightarrow> (rstring \<times> SaltRow list) list \<Rightarrow> Extracted list \<Rightarrow> nat" where
  "max_file_len planes tensors extracted = HEADER_BYTES + 3 ^ planes
    + (\<Sum>((name, rows), e) \<leftarrow> zip tensors extracted. DIR_FIXED_BYTES + length name + (length (ex_scales e) + 2 * length (ex_symbols e)))"

lemma write_entries_accept:
  "\<forall>((name, rows), e, s)\<in>set xs. length name \<le> 65535 \<and> (\<forall>row\<in>set rows. sl_k row = row_k rows) \<Longrightarrow> \<exists>r. foldR write_entry xs (out, offset) = Inr r"
proof (induction xs arbitrary: out offset)
  case (Cons x xs)
  obtain name rows e s where x: "x = ((name, rows), e, s)" by (metis surj_pair)
  have "\<not> list_ex (\<lambda>r. sl_k r \<noteq> row_k rows) rows" "\<not> 65535 < length name" using Cons.prems x by (auto simp: list_ex_iff)
  then show ?case using Cons.IH Cons.prems by (simp add: x write_entry_def [of "((name, rows), e, s)"] Let_def)
qed simp

lemma write_accepts:
  assumes f: "first_row tensors = Some row" "planes = length (sl_planes row)" "length tensors \<le> MAX_TENSORS"
    and e: "mapR (extract_tensor planes) tensors = Inr extracted"
    and t: "\<forall>(name, rows)\<in>set tensors. length name \<le> 65535 \<and> (\<forall>row\<in>set rows. sl_k row = row_k rows)"
    and n: "sum_list (map (\<lambda>e. length (ex_symbols e)) extracted) < 2 ^ 64"
  obtains out where "write_joint_salt_bundle tensors rotation = Some (Inr out)"
proof -
  note planes = extract_planes [OF f(1) e]
  have sy: "\<forall>e\<in>set extracted. \<forall>s\<in>set (ex_symbols e). unat s < 3 ^ planes"
  proof
    fix ex assume "ex \<in> set extracted"
    then obtain name rows where "(name, rows) \<in> set tensors" "extract_tensor planes (name, rows) = Inr ex" using mapR_Inr_in [OF e] by force
    then show "\<forall>s\<in>set (ex_symbols ex). unat s < 3 ^ planes" using extract_tensor_ok(2) t by blast
  qed
  let ?freq = "count_symbols (3 ^ planes) extracted"
  note freq = count_symbols_ok [OF sy n]
  obtain code where code: "build ?freq planes = Some (Inr code)" "code_ok code" "length (jc_lengths code) = 3 ^ planes"
    "\<And>s. s < 3 ^ planes \<Longrightarrow> 0 < jc_lengths code ! s \<longleftrightarrow> 0 < ?freq ! s" using build_ok [OF planes freq(1)] by blast
  have "is_ok (map_err Code (encode code (ex_symbols e) (max (length (ex_symbols e)) 1)))" if "e \<in> set extracted" for e
  proof -
    have "\<forall>s\<in>set (ex_symbols e). coded code s" using that sy code(3,4) freq(2) by (simp add: coded_def)
    then obtain s where "encode code (ex_symbols e) (max (length (ex_symbols e)) 1) = Inr s" by (rule encode_ok [OF code(2), of "ex_symbols e" "max (length (ex_symbols e)) 1"]) simp_all
    then show ?thesis by simp
  qed
  then have "is_ok (mapR (\<lambda>e. map_err Code (encode code (ex_symbols e) (max (length (ex_symbols e)) 1))) extracted)" by (simp add: mapR_is_ok)
  then obtain streams where st: "mapR (\<lambda>e. map_err Code (encode code (ex_symbols e) (max (length (ex_symbols e)) 1))) extracted = Inr streams"
    by (cases "mapR (\<lambda>e. map_err Code (encode code (ex_symbols e) (max (length (ex_symbols e)) 1))) extracted") simp_all
  have "\<forall>((name, rows), e, s)\<in>set (zip tensors (zip extracted streams)). length name \<le> 65535 \<and> (\<forall>row\<in>set rows. sl_k row = row_k rows)"
    using t by (fastforce dest: set_zip_leftD)
  note wr = write_entries_accept [OF this]
  have ok: "\<exists>r. x = Inr r \<Longrightarrow> \<exists>out. rbind x (\<lambda>(a, b). Inr (g a)) = Inr out" for x :: "JointBundleError + bytes \<times> nat" and g :: "bytes \<Rightarrow> bytes" by auto
  have "\<exists>out. write_body tensors rotation planes extracted code = Inr out"
    unfolding write_body_def st Let_def rbind_Inr by (rule ok [OF wr])
  then obtain out where "write_body tensors rotation planes extracted code = Inr out" ..
  then show ?thesis using f e code(1) by (intro that [of out]) (simp add: write_joint_salt_bundle_def)
qed

lemma written_length:
  assumes w: "write_joint_salt_bundle tensors rotation = Some (Inr out)" and f: "first_row tensors = Some row" "planes = length (sl_planes row)"
    and e: "mapR (extract_tensor planes) tensors = Inr extracted"
  shows "length out \<le> max_file_len planes tensors extracted"
proof -
  obtain row' planes' extracted' code L streams xs offset where p: "first_row tensors = Some row'" "planes' = length (sl_planes row')" "length tensors \<le> MAX_TENSORS"
    "mapR (extract_tensor planes') tensors = Inr extracted'" "from_lengths L planes' = Inr code"
    "mapR (\<lambda>e. map_err Code (encode code (ex_symbols e) (max (length (ex_symbols e)) 1))) extracted' = Inr streams"
    "xs = zip tensors (zip extracted' streams)" "offset = HEADER_BYTES + 3 ^ planes' + length (concat (map info_bytes (layout offset xs)))"
    "\<forall>x\<in>set xs. length (fst (fst x)) \<le> 65535 \<and> (\<forall>row\<in>set (snd (fst x)). sl_k row = row_k (snd (fst x)))"
    "out = header_bytes planes' (case rotation of None \<Rightarrow> 0 | Some g \<Rightarrow> g) (length tensors) L @ concat (map info_bytes (layout offset xs)) @ concat (map payload xs)"
    by (rule write_parts [OF w])
  have same: "planes' = planes" "extracted' = extracted" using p(1,2,4) f e by simp_all
  have len: "length extracted = length tensors" "length streams = length tensors" using mapR_length [OF p(4)] mapR_length [OF p(6)] same by simp_all
  have "sum_list (map length (map info_bytes (layout offset xs))) = sum_list (map (\<lambda>n. DIR_FIXED_BYTES + length n) (map ji_name (layout offset xs)))"
    by (simp add: comp_def length_info_bytes)
  then have d: "length (concat (map info_bytes (layout offset xs))) = (\<Sum>x\<leftarrow>xs. DIR_FIXED_BYTES + length (fst (fst x)))"
    unfolding map_name_layout by (simp add: length_concat comp_def)
  have "length (js_bits s) \<le> 2 * length (ex_symbols e)" if m: "((name, rows), e, s) \<in> set xs" for name rows e s
  proof -
    obtain i where "i < length tensors" "extracted ! i = e" "streams ! i = s" using m len by (auto simp: p(7) same in_set_conv_nth)
    then have "encode code (ex_symbols e) (max (length (ex_symbols e)) 1) = Inr s"
      using p(6) len by (auto simp: same mapR_eq_Inr list_all2_conv_all_nth map_err_eq_Inr)
    then show ?thesis by (rule encode_length [OF from_lengths_ok [OF p(5)]])
  qed
  then have le: "length (payload x) \<le> length (ex_scales (fst (snd x))) + 2 * length (ex_symbols (fst (snd x)))" if "x \<in> set xs" for x
    using that by (cases x) (auto simp: payload_def)
  have "(\<Sum>x\<leftarrow>xs. DIR_FIXED_BYTES + length (fst (fst x))) + length (concat (map payload xs)) = (\<Sum>x\<leftarrow>xs. DIR_FIXED_BYTES + length (fst (fst x)) + length (payload x))"
    unfolding sum_list_addf by (simp add: length_concat comp_def)
  also have "\<dots> \<le> (\<Sum>x\<leftarrow>xs. DIR_FIXED_BYTES + length (fst (fst x)) + (length (ex_scales (fst (snd x))) + 2 * length (ex_symbols (fst (snd x)))))"
    using le by (intro sum_list_mono add_mono order_refl)
  also have "\<dots> = (\<Sum>((name, rows), e) \<leftarrow> map (\<lambda>x. (fst x, fst (snd x))) xs. DIR_FIXED_BYTES + length name + (length (ex_scales e) + 2 * length (ex_symbols e)))"
    by (simp add: comp_def case_prod_unfold)
  also have "map (\<lambda>x. (fst x, fst (snd x))) xs = zip tensors extracted" using len by (intro nth_equalityI) (simp_all add: p(7) same)
  finally show ?thesis using d from_lengths_bounds(1) [OF p(5)]
    by (simp add: p(10) same max_file_len_def header_bytes_def HEADER_BYTES_def SALT_JOINT_BUNDLE_MAGIC_def)
qed

section \<open>The reader never panics\<close>

text \<open>A loop that appends one piece and moves a cursor by a fixed width stays inside a buffer that has room for every turn.\<close>
lemma foldR_budget:
  assumes "\<And>x st. x \<in> set xs \<Longrightarrow> snd st + c \<le> L \<Longrightarrow> f x st \<noteq> Inl Panic \<and> (\<forall>st'. f x st = Inr st' \<longrightarrow> snd st' = snd st + c \<and> (\<exists>y. fst st' = fst st @ y \<and> R y))"
    and "snd st + length xs * c \<le> (L :: nat)"
  shows "foldR f xs st \<noteq> Inl Panic \<and> (\<forall>st'. foldR f xs st = Inr st' \<longrightarrow> snd st' = snd st + length xs * c
    \<and> (\<exists>ys. length ys = length xs \<and> fst st' = fst st @ concat ys \<and> (\<forall>y\<in>set ys. R y)))"
  using assms
proof (induction xs arbitrary: st)
  case (Cons x xs)
  have x: "f x st \<noteq> Inl Panic" "\<And>st1. f x st = Inr st1 \<Longrightarrow> snd st1 = snd st + c \<and> (\<exists>y. fst st1 = fst st @ y \<and> R y)"
    using Cons.prems(1) [of x st] Cons.prems(2) by auto
  show ?case
  proof (cases "f x st")
    case (Inr st1)
    obtain y where y: "snd st1 = snd st + c" "fst st1 = fst st @ y" "R y" using x(2) [OF Inr] by blast
    have IH: "foldR f xs st1 \<noteq> Inl Panic \<and> (\<forall>st'. foldR f xs st1 = Inr st' \<longrightarrow> snd st' = snd st1 + length xs * c
        \<and> (\<exists>ys. length ys = length xs \<and> fst st' = fst st1 @ concat ys \<and> (\<forall>y\<in>set ys. R y)))"
      using Cons.prems(2) y(1) by (intro Cons.IH Cons.prems(1)) auto
    show ?thesis
    proof (intro conjI allI impI)
      show "foldR f (x # xs) st \<noteq> Inl Panic" using IH Inr by simp
      fix st' assume "foldR f (x # xs) st = Inr st'"
      then obtain ys where ys: "length ys = length xs" "fst st' = fst st1 @ concat ys" "\<forall>y\<in>set ys. R y" "snd st' = snd st1 + length xs * c"
        using IH Inr by auto
      then show "snd st' = snd st + length (x # xs) * c" using y(1) by simp
      show "\<exists>ys. length ys = length (x # xs) \<and> fst st' = fst st @ concat ys \<and> (\<forall>y\<in>set ys. R y)"
        using ys y by (intro exI [of _ "y # ys"]) simp
    qed
  qed (use x in simp)
qed simp

lemma read_block_safe:
  assumes "snd st + 2 \<le> length scales"
  shows "read_block scales digits b st \<noteq> Inl Panic \<and> (\<forall>st'. read_block scales digits b st = Inr st' \<longrightarrow> snd st' = snd st + 2
    \<and> (\<exists>y. fst st' = fst st @ y \<and> length y = TQ2_0_BLOCK_BYTES))"
proof -
  have d: "digit_trit digits i \<noteq> Inl Panic" for i by (cases "from_i8 (digits ! i)") (simp_all add: digit_trit_def)
  have "mapR (\<lambda>i. digit_trit digits (b * QK_K + i)) [0..<QK_K] \<noteq> Inl Panic" using d mapR_eq_Inl by metis
  moreover have "map_err (\<lambda>e. Fail (Format e)) x \<noteq> Inl Panic" for x :: "FormatError + bytes" by (cases x) simp_all
  moreover have "length blk = TQ2_0_BLOCK_BYTES" if "pack_tq2_0_block ts sc TQ2_0_BLOCK_BYTES = Inr blk" for ts sc blk
  proof -
    have "length ts = 256" using that by (auto simp: pack_tq2_0_block_def block_consts split: if_splits)
    from pack_tq2_0_block_ok [OF this, where scale = sc] show ?thesis using that by (auto simp: block_consts length_grid2)
  qed
  ultimately show ?thesis using assms by (auto simp: read_block_def rbind_Panic rbind_eq_Inr map_err_eq_Inr split: prod.splits)
qed

lemma read_plane_safe:
  assumes "snd st + blocks * 2 \<le> length scales"
  shows "read_plane scales blocks digits st \<noteq> Inl Panic \<and> (\<forall>st'. read_plane scales blocks digits st = Inr st' \<longrightarrow> snd st' = snd st + blocks * 2
    \<and> (\<exists>y. fst st' = fst st @ y \<and> length y = 1 \<and> length (hd y) = blocks * TQ2_0_BLOCK_BYTES))"
proof -
  have "foldR (read_block scales digits) [0..<blocks] ([], snd st) \<noteq> Inl Panic \<and> (\<forall>st'. foldR (read_block scales digits) [0..<blocks] ([], snd st) = Inr st' \<longrightarrow>
     snd st' = snd ([] :: bytes, snd st) + length [0..<blocks] * 2 \<and> (\<exists>ys. length ys = length [0..<blocks] \<and> fst st' = fst ([], snd st) @ concat ys
     \<and> (\<forall>y\<in>set ys. length y = TQ2_0_BLOCK_BYTES)))"
    using assms by (intro foldR_budget [where L = "length scales"] read_block_safe) simp_all
  then show ?thesis
    by (auto simp: read_plane_def rbind_Panic rbind_eq_Inr length_concat_const split: prod.splits)
qed

lemma read_row_safe:
  assumes "snd st + planes * (div_ceil k QK_K * 2) \<le> length scales" "(r + 1) * k \<le> length symbols"
  shows "read_row symbols scales planes k r st \<noteq> Inl Panic \<and> (\<forall>st'. read_row symbols scales planes k r st = Inr st' \<longrightarrow>
    snd st' = snd st + planes * (div_ceil k QK_K * 2) \<and> (\<exists>y. fst st' = fst st @ y \<and> length y = 1 \<and> sl_k (hd y) = k
      \<and> length (sl_planes (hd y)) = planes \<and> (\<forall>plane\<in>set (sl_planes (hd y)). length plane = div_ceil k QK_K * TQ2_0_BLOCK_BYTES)))"
proof -
  let ?nb = "div_ceil k QK_K"
  have pl: "foldR (read_plane scales ?nb) ds ([], snd st) \<noteq> Inl Panic \<and> (\<forall>st'. foldR (read_plane scales ?nb) ds ([], snd st) = Inr st' \<longrightarrow>
     snd st' = snd ([] :: bytes list, snd st) + length ds * (?nb * 2) \<and> (\<exists>ys. length ys = length ds \<and> fst st' = fst ([], snd st) @ concat ys
     \<and> (\<forall>y\<in>set ys. length y = 1 \<and> length (hd y) = ?nb * TQ2_0_BLOCK_BYTES)))" if "length ds = planes" for ds
    using assms(1) that by (intro foldR_budget [where L = "length scales"] read_plane_safe) simp_all
  have singles: "length (concat ys) = length ys \<and> (\<forall>x\<in>set (concat ys). P x)" if "\<forall>y\<in>set ys. length y = 1 \<and> P (hd y)" for ys :: "bytes list list" and P
    using that by (induction ys) (auto simp: length_Suc_conv)
  show ?thesis
  proof (cases "planes_from_symbols (window (r * k) k symbols) planes")
    case (Inr ds)
    then have "length ds = planes" by (auto simp: planes_from_symbols_def rbind_eq_Inr)
    note p = pl [OF this]
    show ?thesis using assms(2) Inr p singles [where P = "\<lambda>x. length x = ?nb * TQ2_0_BLOCK_BYTES"] \<open>length ds = planes\<close>
      by (auto simp: read_row_def rbind_Panic rbind_eq_Inr split: prod.splits)
  qed (use assms(2) in \<open>simp add: read_row_def split: prod.splits\<close>)
qed

lemma decode_run_length: "decode_run c bits b n = Inr symbols \<Longrightarrow> length symbols = n"
  by (induction c bits b n arbitrary: symbols rule: decode_run.induct) (auto simp: rbind_eq_Inr split: prod.splits if_splits)

lemma read_dir_safe:
  assumes "read_dir planes file_len n pos entries m s = Inr (pos', entries', m')" "\<forall>i\<in>set entries. check_info planes file_len i = Inr ()"
    "\<forall>name j. m name = Some j \<longrightarrow> j < length entries \<and> ji_name (entries ! j) = name"
  shows "(\<forall>i\<in>set entries'. check_info planes file_len i = Inr ()) \<and> (\<forall>name j. m' name = Some j \<longrightarrow> j < length entries' \<and> ji_name (entries' ! j) = name)"
  using assms
proof (induction planes file_len n pos entries m s rule: read_dir.induct)
  case (2 planes file_len n pos entries m s)
  obtain p1 i s1 where r: "read_info planes file_len pos s = Inr ((p1, i), s1)" "m (ji_name i) = None"
    "read_dir planes file_len n p1 (entries @ [i]) (m(ji_name i \<mapsto> length entries)) s1 = Inr (pos', entries', m')"
    using "2.prems"(1) by (auto simp: rbind_eq_Inr split: if_splits)
  have "check_info planes file_len i = Inr ()" using r(1) by (auto simp: read_info_def Let_def rbind_eq_Inr)
  then show ?case using "2.prems"(2,3) by (intro "2.IH" [OF _ _ _ _ r(3)]) (auto simp: r nth_append less_Suc_eq)
qed simp

lemma new_strict_facts:
  assumes "new_strict bytes = Inr rd"
  obtains L where "from_lengths L (jr_planes rd) = Inr (jr_code rd)"
    "\<And>name i. tensor_info rd name = Some i \<Longrightarrow> ji_name i = name \<and> ji_scale_bytes i = ji_rows i * (jr_planes rd * (div_ceil (ji_k i) QK_K * 2))"
proof -
  obtain L pos s n where L: "from_lengths L (jr_planes rd) = Inr (jr_code rd)"
    and r: "read_dir (jr_planes rd) (length bytes) n (HEADER_BYTES + 3 ^ jr_planes rd) [] Map.empty s = Inr (pos, jr_entries rd, jr_by_name rd)"
    using assms by (auto simp: new_strict_def Let_def rbind_eq_Inr map_err_eq_Inr)
  have d: "\<forall>i\<in>set (jr_entries rd). check_info (jr_planes rd) (length bytes) i = Inr ()"
    "\<forall>name j. jr_by_name rd name = Some j \<longrightarrow> j < length (jr_entries rd) \<and> ji_name (jr_entries rd ! j) = name"
    using read_dir_safe [OF r] by simp_all
  have "ji_name i = name \<and> ji_scale_bytes i = ji_rows i * (jr_planes rd * (div_ceil (ji_k i) QK_K * 2))" if t: "tensor_info rd name = Some i" for name i
  proof -
    obtain j where j: "jr_by_name rd name = Some j" "i = jr_entries rd ! j" using t by (auto simp: tensor_info_def)
    then have "check_info (jr_planes rd) (length bytes) i = Inr ()" "ji_name i = name" using d by auto
    then show ?thesis by (auto simp: check_info_def rbind_eq_Inr ok_or_eq_Inr bind_eq_Some_conv algebra_simps)
  qed
  then show ?thesis using that [OF L] by blast
qed

text \<open>A row as an entry declares it.\<close>
definition row_fits :: "nat \<Rightarrow> nat \<Rightarrow> SaltRow \<Rightarrow> bool" where
  "row_fits planes k row \<longleftrightarrow> sl_k row = k \<and> length (sl_planes row) = planes
    \<and> (\<forall>plane\<in>set (sl_planes row). length plane = div_ceil k QK_K * TQ2_0_BLOCK_BYTES)"

lemma read_rows_safe:
  assumes "length scales = rows * (planes * (div_ceil k QK_K * 2))" "length symbols = rows * k"
  shows "foldR (read_row symbols scales planes k) [0..<rows] ([], 0) \<noteq> Inl Panic"
    "foldR (read_row symbols scales planes k) [0..<rows] ([], 0) = Inr st \<Longrightarrow> length (fst st) = rows \<and> (\<forall>row\<in>set (fst st). row_fits planes k row)"
proof -
  let ?st = "([] :: SaltRow list, 0 :: nat)"
  have k: "(r + 1) * k \<le> length symbols" if "r \<in> set [0..<rows]" for r unfolding assms(2) using that by (intro mult_le_mono1) simp
  have b: "foldR (read_row symbols scales planes k) [0..<rows] ?st \<noteq> Inl Panic \<and> (\<forall>st'. foldR (read_row symbols scales planes k) [0..<rows] ?st = Inr st' \<longrightarrow>
      snd st' = snd ?st + length [0..<rows] * (planes * (div_ceil k QK_K * 2)) \<and>
      (\<exists>ys. length ys = length [0..<rows] \<and> fst st' = fst ?st @ concat ys \<and> (\<forall>y\<in>set ys. length y = 1 \<and> sl_k (hd y) = k
      \<and> length (sl_planes (hd y)) = planes \<and> (\<forall>plane\<in>set (sl_planes (hd y)). length plane = div_ceil k QK_K * TQ2_0_BLOCK_BYTES))))"
    using assms(1) k by (intro foldR_budget [where L = "length scales"] read_row_safe) simp_all
  then show "foldR (read_row symbols scales planes k) [0..<rows] ([], 0) \<noteq> Inl Panic" by blast
  assume "foldR (read_row symbols scales planes k) [0..<rows] ([], 0) = Inr st"
  then obtain ys where ys: "length ys = rows" "fst st = concat ys" "\<forall>y\<in>set ys. length y = 1 \<and> row_fits planes k (hd y)"
    using b unfolding row_fits_def by auto
  have "length (concat ys) = length ys \<and> (\<forall>x\<in>set (concat ys). row_fits planes k x)" using ys(3)
    by (induction ys) (auto simp: length_Suc_conv)
  then show "length (fst st) = rows \<and> (\<forall>row\<in>set (fst st). row_fits planes k row)" using ys by simp
qed

text \<open>C15: safety of the joint bundle reader.  Whatever bytes \<open>new_strict\<close> accepts, however corrupt the payloads, reading any tensor either fails with
  an error or returns rows, and never slices or indexes out of range: the stored scale size covers every block read, the decoded symbols cover every row,
  and every peeked prefix is an index of the decoding table.  The rows returned have the declared count, \<open>k\<close> and plane count, and every plane has the size of its blocks.\<close>
theorem joint_reader_safe:
  assumes "new_strict bytes = Inr rd"
  shows "read_tensor rd name \<noteq> Inl Panic \<and> (\<forall>bits b. peek bits b (jc_table_bits (jr_code rd)) < length (jc_table (jr_code rd)))
    \<and> (\<forall>rows. read_tensor rd name = Inr rows \<longrightarrow> (\<exists>i. tensor_info rd name = Some i \<and> ji_name i = name \<and> length rows = ji_rows i
      \<and> (\<forall>row\<in>set rows. row_fits (jr_planes rd) (ji_k i) row)))"
proof -
  obtain L where L: "from_lengths L (jr_planes rd) = Inr (jr_code rd)"
    and info: "\<And>name i. tensor_info rd name = Some i \<Longrightarrow> ji_name i = name \<and> ji_scale_bytes i = ji_rows i * (jr_planes rd * (div_ceil (ji_k i) QK_K * 2))"
    using new_strict_facts [OF assms] by blast
  have pk: "peek bits b (jc_table_bits (jr_code rd)) < length (jc_table (jr_code rd))" for bits b unfolding table_length [OF L] by (rule peek_less)
  let ?scales = "\<lambda>i. window (ji_payload_offset i) (ji_scale_bytes i) (jr_source rd)"
  let ?read = "\<lambda>i symbols. foldR (read_row symbols (?scales i) (jr_planes rd) (ji_k i)) [0..<ji_rows i] ([], 0)"
  let ?opened = "\<lambda>i symbols. tensor_info rd name = Some i \<and> ji_payload_offset i + ji_scale_bytes i \<le> length (jr_source rd) \<and> length symbols = ji_rows i * ji_k i"
  have scales: "length (?scales i) = ji_rows i * (jr_planes rd * (div_ceil (ji_k i) QK_K * 2))" if "?opened i symbols" for i symbols
    using that info [of name i] by (auto simp: window_def min_def)
  have "read_tensor rd name \<noteq> Inl Panic"
  proof
    have no: "map_err (\<lambda>e. Fail (Code e)) x \<noteq> Inl Panic" for x :: "JointCodeError + u16 list" by (cases x) simp_all
    assume "read_tensor rd name = Inl Panic"
    then obtain i symbols where i: "?opened i symbols" "?read i symbols = Inl Panic"
      by (force simp: read_tensor_def read_exact_def decode_def rbind_Panic no map_err_eq_Inr dest: decode_run_length split: if_splits)
    then show False using read_rows_safe(1) [OF scales [OF i(1)], of symbols] by simp
  qed
  moreover have "\<exists>i. tensor_info rd name = Some i \<and> ji_name i = name \<and> length rows = ji_rows i \<and> (\<forall>row\<in>set rows. row_fits (jr_planes rd) (ji_k i) row)"
    if r: "read_tensor rd name = Inr rows" for rows
  proof -
    obtain i symbols sc where i: "?opened i symbols" "?read i symbols = Inr (rows, sc)"
      using r by (force simp: read_tensor_def read_exact_def decode_def rbind_eq_Inr map_err_eq_Inr dest: decode_run_length split: if_splits)
    then show ?thesis using read_rows_safe(2) [OF scales [OF i(1)] _ i(2)] info [of name i] by simp
  qed
  ultimately show ?thesis using pk by blast
qed

text \<open>C11: joint bundle round trip.  For tensors whose rows extract (planes of the right length, zero padding, one plane count), with distinct UTF-8
  names, one \<open>k\<close> per tensor, fewer than \<open>2 ^ 32\<close> rows and columns and a size that fits memory at 15 bits a symbol, the writer returns a file:
  building the code terminates and every symbol has a code word.  The strict reader accepts that file, lists the tensors in order, reports the rotation
  group (0 stands for none), and \<open>read_tensor\<close> rebuilds every row of every tensor byte for byte from the code words and the raw scales.\<close>
theorem joint_bundle_roundtrip:
  assumes "first_row tensors = Some row" "planes = length (sl_planes row)" "length tensors \<le> MAX_TENSORS"
    "mapR (extract_tensor planes) tensors = Inr extracted" "max_file_len planes tensors extracted \<le> usize_MAX" "distinct (map fst tensors)"
    "\<forall>(name, rows)\<in>set tensors. utf8_ok name \<and> length name \<le> 65535 \<and> (\<forall>row\<in>set rows. sl_k row = row_k rows) \<and> length rows < 2 ^ 32 \<and> row_k rows < 2 ^ 32"
  shows "\<exists>out rd. write_joint_salt_bundle tensors rotation = Some (Inr out) \<and> new_strict out = Inr rd
    \<and> jr_rotation_group rd = (if rotation = Some 0 then None else rotation) \<and> map ji_name (jr_entries rd) = map fst tensors
    \<and> (\<forall>(name, rows)\<in>set tensors. read_tensor rd name = Inr rows)"
proof -
  have len: "length extracted = length tensors" using mapR_length [OF assms(4)] .
  have "(\<Sum>e\<leftarrow>extracted. length (ex_symbols e)) = (\<Sum>x\<leftarrow>zip tensors extracted. length (ex_symbols (snd x)))"
    using arg_cong [OF map_snd_zip [OF len [symmetric]], of "\<lambda>es. sum_list (map (\<lambda>e. length (ex_symbols e)) es)"] by (simp add: comp_def)
  also have "\<dots> \<le> max_file_len planes tensors extracted"
    unfolding max_file_len_def by (rule trans_le_add2) (auto intro!: sum_list_mono simp: case_prod_unfold)
  finally have n: "(\<Sum>e\<leftarrow>extracted. length (ex_symbols e)) < 2 ^ 64" using assms(5) by (simp add: usize_MAX_def)
  obtain out where out: "write_joint_salt_bundle tensors rotation = Some (Inr out)"
    using assms(7) by (rule_tac write_accepts [OF assms(1-4) _ n]) auto
  have "length out \<le> usize_MAX" using written_length [OF out assms(1,2,4)] assms(5) by simp
  then show ?thesis using written_reads [OF out assms(6)] assms(7) out by fast
qed

text \<open>A row of two equal planes with the weights \<open>1, -1, 0\<close>.\<close>
definition example_trits :: "trit list" where
  "example_trits = [POS, NEG, ZERO] @ replicate 253 ZERO"

definition example_row :: SaltRow where
  "example_row = (let plane = projr (pack_tq2_0_block example_trits 0x3C00 TQ2_0_BLOCK_BYTES) in \<lparr>sl_k = 3, sl_planes = [plane, plane]\<rparr>)"

lemma example_extract: "extract_row name 2 (r, example_row) = Inr ([8, 0, 4], [0, 0x3C, 0, 0x3C])"
proof -
  let ?qs = "[pack4 (\<lambda>n. trit_code (example_trits ! (c * 128 + n * 32 + m))). c \<leftarrow> [0..<2], m \<leftarrow> [0..<32]]"
  let ?plane = "?qs @ le16 0x3C00"
  have l: "length example_trits = 256" by (simp add: example_trits_def)
  have q: "length ?qs = 64" by (subst length_grid2) simp
  have row: "example_row = \<lparr>sl_k = 3, sl_planes = [?plane, ?plane]\<rparr>"
    using pack_tq2_0_block_ok [OF l, where scale = "0x3C00"] by (simp add: example_row_def Let_def block_consts)
  have w: "window 0 66 ?plane = ?plane" using q by (simp add: window_def)
  have "extract_block name r 3 ?plane 0 = Inr ([1, -1, 0], le16 0x3C00)"
    using unpack_pack_tq2_0_block [OF l, where scale = "0x3C00"] w q
    by (simp add: extract_block_def Let_def block_consts example_trits_def list_ex_iff)
  then have "extract_plane name r 3 ?plane = Inr ([1, -1, 0], le16 0x3C00)" using q
    by (simp add: extract_plane_def Let_def block_consts div_ceil_def)
  moreover have "joint_symbols [[1, -1, 0], [1, -1, 0]] = Inr [8, 0, 4]"
    by (simp add: joint_symbols_def alphabet_def MAX_JOINT_PLANES_def fold_trit_def upt_rec)
  moreover have "le16 0x3C00 = [0, 0x3C]" by (simp add: le16_def le_enc_numeral)
  ultimately show ?thesis unfolding row by (simp add: extract_row_def)
qed

definition example_tensors :: "(rstring \<times> SaltRow list) list" where
  "example_tensors = [([0x61], [example_row, example_row]), ([0x62], [example_row])]"

definition example_extracted :: "Extracted list" where
  "example_extracted = [\<lparr>ex_symbols = [8, 0, 4, 8, 0, 4], ex_scales = [0, 0x3C, 0, 0x3C, 0, 0x3C, 0, 0x3C]\<rparr>,
    \<lparr>ex_symbols = [8, 0, 4], ex_scales = [0, 0x3C, 0, 0x3C]\<rparr>]"

lemma example_shape: "sl_k example_row = 3" "length (sl_planes example_row) = 2"
  by (simp_all add: example_row_def Let_def)

lemma example_facts:
  "first_row example_tensors = Some example_row" "2 = length (sl_planes example_row)" "length example_tensors \<le> MAX_TENSORS"
  "mapR (extract_tensor 2) example_tensors = Inr example_extracted" "max_file_len 2 example_tensors example_extracted \<le> usize_MAX"
  "distinct (map fst example_tensors)"
  "\<forall>(name, rows)\<in>set example_tensors. utf8_ok name \<and> length name \<le> 65535 \<and> (\<forall>row\<in>set rows. sl_k row = row_k rows) \<and> length rows < 2 ^ 32 \<and> row_k rows < 2 ^ 32"
  by (simp_all add: example_tensors_def example_extracted_def extract_tensor_def example_extract max_file_len_def HEADER_BYTES_def
      DIR_FIXED_BYTES_def usize_MAX_def MAX_TENSORS_def row_k_def example_shape)

theorem joint_bundle_roundtrip_witness:
  "\<exists>out rd. write_joint_salt_bundle example_tensors (Some 64) = Some (Inr out) \<and> new_strict out = Inr rd
    \<and> jr_rotation_group rd = Some 64 \<and> read_tensor rd [0x61] = Inr [example_row, example_row] \<and> read_tensor rd [0x62] = Inr [example_row]"
  using joint_bundle_roundtrip [OF example_facts, of "Some 64"] by (auto simp: example_tensors_def)

theorem joint_reader_safe_witness:
  "\<exists>bytes rd i. new_strict bytes = Inr rd \<and> tensor_info rd [0x61] = Some i \<and> ji_rows i = 2 \<and> row_fits (jr_planes rd) (ji_k i) example_row"
proof -
  obtain out where out: "write_joint_salt_bundle example_tensors None = Some (Inr out)"
    using example_facts(7) by (rule_tac write_accepts [OF example_facts(1-4)]) (auto simp: example_extracted_def)
  have "length out \<le> usize_MAX" using written_length [OF out example_facts(1,2,4)] example_facts(5) by simp
  then obtain rd where rd: "new_strict out = Inr rd" "\<forall>(name, rows)\<in>set example_tensors. read_tensor rd name = Inr rows"
    using written_reads [OF out example_facts(6)] example_facts(7) by fast
  then have "read_tensor rd [0x61] = Inr [example_row, example_row]" by (simp add: example_tensors_def)
  then show ?thesis using joint_reader_safe [OF rd(1), of "[0x61]"] rd(1) by (intro exI [of _ out] exI [of _ rd]) auto
qed

end
