(* ===== verification/BTree.thy ===== *)
theory BTree
  imports Errors "HOL-Library.List_Lexorder"
begin

text \<open>
  \<open>std::collections::BTreeMap\<close> with string keys, as the list of its entries in key order.  The contract the
  clients rely on is the locale \<open>dict\<close>; it is interpreted here on the two operations.
\<close>

section \<open>Ordered association lists\<close>

text \<open>\<open>BTreeMap<String, V>\<close>: strings are ordered bytewise.\<close>
type_synonym 'v btree = "(rstring \<times> 'v) list"

fun btree_insert :: "rstring \<Rightarrow> 'v \<Rightarrow> 'v btree \<Rightarrow> 'v btree" where
  "btree_insert k v [] = [(k, v)]"
| "btree_insert k v ((k', v') # m) =
    (if k < k' then (k, v) # (k', v') # m
     else if k = k' then (k, v) # m
     else (k', v') # btree_insert k v m)"

definition btree_get :: "rstring \<Rightarrow> 'v btree \<Rightarrow> 'v option" where
  "btree_get k m = map_of m k"

definition btree_inv :: "'v btree \<Rightarrow> bool" where
  "btree_inv m \<longleftrightarrow> sorted_wrt (<) (map fst m)"

lemma btree_insert_get: "btree_inv m \<Longrightarrow> btree_get k' (btree_insert k v m) = (if k' = k then Some v else btree_get k' m)"
  by (induction m) (auto simp: btree_get_def btree_inv_def)

lemma set_btree_insert: "fst ` set (btree_insert k v m) = insert k (fst ` set m)"
  by (induction k v m rule: btree_insert.induct) (simp_all add: insert_commute)

lemma btree_insert_inv: "btree_inv m \<Longrightarrow> btree_inv (btree_insert k v m)"
proof (induction m)
  case (Cons e m)
  obtain k' v' where e: "e = (k', v')" by (cases e)
  have "fst ` set (btree_insert k v m) = insert k (fst ` set m)" by (rule set_btree_insert)
  with Cons e show ?case by (auto simp: btree_inv_def)
qed (simp add: btree_inv_def)

lemma btree_insert_last: "\<forall>e\<in>set m. fst e < k \<Longrightarrow> btree_insert k v m = m @ [(k, v)]"
  by (induction m) auto

text \<open>Inserting the entries of a map in order rebuilds it.\<close>
lemma btree_rebuild: "btree_inv m \<Longrightarrow> fold (\<lambda>(k, v). btree_insert k v) m [] = m"
proof (induction m rule: rev_induct)
  case (snoc e m)
  obtain k v where e: "e = (k, v)" by (cases e)
  with snoc have "btree_inv m" "\<forall>e\<in>set m. fst e < k"
    by (auto simp: btree_inv_def sorted_wrt_append)
  with snoc e show ?case by (simp add: btree_insert_last)
qed simp

text \<open>A map is determined by its lookups.\<close>
lemma btree_ext:
  assumes "btree_inv m" "btree_inv m'" and get: "\<And>k. btree_get k m = btree_get k m'"
  shows "m = m'"
proof -
  have d: "distinct (map fst m)" "distinct (map fst m')" and s: "sorted (map fst m)" "sorted (map fst m')"
    using assms(1,2) by (auto simp: btree_inv_def strict_sorted_iff)
  have eq: "map_of m = map_of m'" using get by (auto simp: btree_get_def)
  then have "set (map fst m) = set (map fst m')" by (metis dom_map_of_conv_image_fst list.set_map)
  then have keys: "map fst m = map fst m'" using d s by (simp add: sorted_distinct_set_unique)
  then have len: "length m = length m'" by (metis length_map)
  show ?thesis
  proof (rule nth_equalityI [OF len])
    fix i
    assume i: "i < length m"
    have k: "fst (m ! i) = fst (m' ! i)" using keys i len by (metis nth_map)
    have "map_of m (fst (m ! i)) = Some (snd (m ! i))" "map_of m' (fst (m' ! i)) = Some (snd (m' ! i))"
      using d i len by (simp_all add: map_of_is_SomeI)
    with eq k show "m ! i = m' ! i" by (simp add: prod_eq_iff)
  qed
qed

lemma btree_get_in: "btree_inv m \<Longrightarrow> btree_get k m = Some v \<longleftrightarrow> (k, v) \<in> set m"
  by (simp add: btree_get_def btree_inv_def strict_sorted_iff)

section \<open>The contract\<close>

locale dict =
  fixes emp :: 'm and get :: "'k \<Rightarrow> 'm \<Rightarrow> 'v option" and ins :: "'k \<Rightarrow> 'v \<Rightarrow> 'm \<Rightarrow> 'm" and inv :: "'m \<Rightarrow> bool"
  assumes emp_inv: "inv emp" and get_emp: "get k emp = None"
    and ins_inv: "inv m \<Longrightarrow> inv (ins k v m)"
    and get_ins: "inv m \<Longrightarrow> get k' (ins k v m) = (if k' = k then Some v else get k' m)"
begin

lemma fold_ins_inv: "inv m \<Longrightarrow> inv (fold (\<lambda>x. ins (key x) (val x)) xs m)"
  by (induction xs arbitrary: m) (simp_all add: ins_inv)

text \<open>After a sequence of insertions a key holds the last value inserted under it.\<close>
lemma get_fold_ins:
  "inv m \<Longrightarrow> get k (fold (\<lambda>x. ins (key x) (val x)) xs m) =
     (case filter (\<lambda>x. key x = k) xs of [] \<Rightarrow> get k m | ys \<Rightarrow> Some (val (last ys)))"
proof (induction xs rule: rev_induct)
  case (snoc x xs)
  then show ?case using fold_ins_inv [of m key val xs] by (auto simp: get_ins split: list.splits)
qed simp

end

interpretation bt: dict "[] :: 'v btree" btree_get btree_insert btree_inv
  by unfold_locales (simp_all add: btree_inv_def [of "[]"] btree_get_def [of _ "[]"] btree_insert_inv btree_insert_get)

end
