(* ===== verification/Gguf.thy ===== *)
theory Gguf
  imports Cursor BTree
begin

text \<open>
  The GGUF container reader of \<open>gguf.rs\<close>.  Fields that come from the file keep their machine width; sizes
  and offsets that are computed with checked arithmetic are naturals bounded by \<open>u64::MAX\<close>.  A signed or
  floating-point metadata value is its bit pattern.  A \<open>BTreeMap\<close> is the list of its entries in key order.
\<close>

section \<open>Constants and containers\<close>

definition GGML_TYPE_TQ1_0 :: u32 where "GGML_TYPE_TQ1_0 = 34"
definition GGML_TYPE_TQ2_0 :: u32 where "GGML_TYPE_TQ2_0 = 35"
definition GGML_TYPE_Q2_0 :: u32 where "GGML_TYPE_Q2_0 = 42"
definition DEFAULT_ALIGNMENT :: nat where "DEFAULT_ALIGNMENT = 32"
definition GGUF_MAGIC :: bytes where "GGUF_MAGIC = [0x47, 0x47, 0x55, 0x46]"
definition MAX_STRING_LEN :: nat where "MAX_STRING_LEN = 64 * 1024 * 1024"
definition MAX_COUNT :: nat where "MAX_COUNT = 2 ^ 32"
definition MAX_METADATA_DEPTH :: nat where "MAX_METADATA_DEPTH = 8"
definition MAX_METADATA_ARRAY_ELEMENTS :: nat where "MAX_METADATA_ARRAY_ELEMENTS = 16000000"
definition MAX_DIMS :: nat where "MAX_DIMS = 8"

lemmas gguf_consts = GGML_TYPE_TQ1_0_def GGML_TYPE_TQ2_0_def GGML_TYPE_Q2_0_def DEFAULT_ALIGNMENT_def
  MAX_STRING_LEN_def MAX_COUNT_def MAX_METADATA_DEPTH_def MAX_METADATA_ARRAY_ELEMENTS_def MAX_DIMS_def

section \<open>The cursor\<close>

record GgufCursor =
  gc_buf :: bytes
  gc_pos :: usize

definition gc_new :: "bytes \<Rightarrow> GgufCursor" where
  "gc_new buf = \<lparr>gc_buf = buf, gc_pos = 0\<rparr>"

definition gc_take :: "usize \<Rightarrow> GgufCursor \<Rightarrow> GgufError + bytes \<times> GgufCursor" where
  "gc_take n c =
    rbind (ok_or (checked_add (gc_pos c) n) Truncated) (\<lambda>fin.
    rbind (ok_or (if fin \<le> length (gc_buf c) then Some (window (gc_pos c) (fin - gc_pos c) (gc_buf c)) else None)
             Truncated) (\<lambda>slice.
    Inr (slice, c\<lparr>gc_pos := fin\<rparr>)))"

definition gc_u8 :: "GgufCursor \<Rightarrow> GgufError + u8 \<times> GgufCursor" where
  "gc_u8 c = rbind (gc_take 1 c) (\<lambda>(s, c). Inr (s ! 0, c))"

definition gc_u16 :: "GgufCursor \<Rightarrow> GgufError + u16 \<times> GgufCursor" where
  "gc_u16 c = rbind (gc_take 2 c) (\<lambda>(s, c). Inr (un_le16 s, c))"

definition gc_u32 :: "GgufCursor \<Rightarrow> GgufError + u32 \<times> GgufCursor" where
  "gc_u32 c = rbind (gc_take 4 c) (\<lambda>(s, c). Inr (un_le32 s, c))"

definition gc_u64 :: "GgufCursor \<Rightarrow> GgufError + u64 \<times> GgufCursor" where
  "gc_u64 c = rbind (gc_take 8 c) (\<lambda>(s, c). Inr (un_le64 s, c))"

definition gguf_string :: "GgufCursor \<Rightarrow> GgufError + rstring \<times> GgufCursor" where
  "gguf_string c =
    rbind (gc_u64 c) (\<lambda>(len, c).
    rbind (ensure (unat len \<le> MAX_STRING_LEN) StringTooLong) (\<lambda>_.
    rbind (gc_take (unat len) c) (\<lambda>(s, c).
    rbind (ensure (utf8_ok s) InvalidUtf8) (\<lambda>_. Inr (s, c)))))"

definition gc_inv :: "GgufCursor \<Rightarrow> bool" where
  "gc_inv c \<longleftrightarrow> gc_pos c \<le> length (gc_buf c) \<and> length (gc_buf c) \<le> usize_MAX"

definition gc_rest :: "GgufCursor \<Rightarrow> bytes" where
  "gc_rest c = drop (gc_pos c) (gc_buf c)"

definition gc_adv :: "nat \<Rightarrow> GgufCursor \<Rightarrow> GgufCursor" where
  "gc_adv n c = c\<lparr>gc_pos := gc_pos c + n\<rparr>"

interpretation gc: byte_reader gc_take gc_inv gc_rest gc_adv "\<lambda>n c. Truncated"
proof unfold_locales
  fix c n
  assume "gc_inv c"
  then show "n \<le> length (gc_rest c) \<Longrightarrow> gc_take n c = Inr (take n (gc_rest c), gc_adv n c)"
    by (auto simp: gc_inv_def gc_rest_def gc_take_def gc_adv_def window_def checked_add_def)
  show "length (gc_rest c) < n \<Longrightarrow> gc_take n c = Inl Truncated"
    by (auto simp: gc_rest_def gc_take_def rbind_eq_Inl checked_add_def)
qed (auto simp: gc_inv_def gc_rest_def gc_adv_def add.commute)

lemma gc_new_start: "length b \<le> usize_MAX \<Longrightarrow> gc_inv (gc_new b)" "gc_rest (gc_new b) = b"
  by (simp_all add: gc_new_def gc_inv_def gc_rest_def)

lemma gc_u8_reads: "gc.reads gc_u8 [x] x"
  using gc.reads_map [OF gc.tk_reads [of "[x]"], where f = "\<lambda>s. s ! 0"]
  by (simp add: gc_u8_def [abs_def])

lemma gc_u16_reads: "gc.reads gc_u16 (le16 x) x"
  using gc.reads_map [OF gc.tk_reads [of "le16 x"], where f = un_le16]
  by (simp add: gc_u16_def [abs_def])

lemma gc_u32_reads: "gc.reads gc_u32 (le32 x) x"
  using gc.reads_map [OF gc.tk_reads [of "le32 x"], where f = un_le32]
  by (simp add: gc_u32_def [abs_def])

lemma gc_u64_reads: "gc.reads gc_u64 (le64 x) x"
  using gc.reads_map [OF gc.tk_reads [of "le64 x"], where f = un_le64]
  by (simp add: gc_u64_def [abs_def])

text \<open>\<open>push_gguf_string\<close> of the writer.\<close>
definition push_gguf_string :: "rstring \<Rightarrow> bytes" where
  "push_gguf_string s = le64 (of_nat (length s)) @ s"

definition str_ok :: "rstring \<Rightarrow> bool" where
  "str_ok s \<longleftrightarrow> utf8_ok s \<and> length s \<le> MAX_STRING_LEN"

lemma gguf_string_reads:
  assumes "str_ok s"
  shows "gc.reads gguf_string (push_gguf_string s) s"
proof -
  have u: "unat (of_nat (length s) :: u64) = length s"
    using assms by (simp add: unat_of_nat str_ok_def gguf_consts)
  have "gc.reads (\<lambda>c. rbind (gc_take (length s) c) (\<lambda>(x, c). rbind (ensure (utf8_ok x) InvalidUtf8) (\<lambda>_. Inr (x, c)))) (s @ []) s"
    by (rule gc.reads_bind gc.tk_reads_n gc.reads_ensure gc.reads_pure refl assms [unfolded str_ok_def, THEN conjunct1])+
  then show ?thesis unfolding gguf_string_def [abs_def] push_gguf_string_def
    using assms by (intro gc.reads_bind [OF gc_u64_reads] gc.reads_ensure) (simp_all add: u str_ok_def)
qed

lemmas gc_reads = gc_u8_reads gc_u16_reads gc_u32_reads gc_u64_reads gguf_string_reads

section \<open>Metadata values\<close>

datatype GgufValue =
    VU8 u8 | VI8 u8 | VU16 u16 | VI16 u16 | VU32 u32 | VI32 u32 | VF32 u32 | VBool bool
  | VString rstring | VArray "GgufValue list" | VU64 u64 | VI64 u64 | VF64 u64

fun as_u64 :: "GgufValue \<Rightarrow> u64 option" where
  "as_u64 (VU8 v) = Some (ucast v)"
| "as_u64 (VU16 v) = Some (ucast v)"
| "as_u64 (VU32 v) = Some (ucast v)"
| "as_u64 (VU64 v) = Some v"
| "as_u64 (VI8 v) = (if 0 \<le> sint v then Some (scast v) else None)"
| "as_u64 (VI16 v) = (if 0 \<le> sint v then Some (scast v) else None)"
| "as_u64 (VI32 v) = (if 0 \<le> sint v then Some (scast v) else None)"
| "as_u64 (VI64 v) = (if 0 \<le> sint v then Some v else None)"
| "as_u64 _ = None"

fun as_str :: "GgufValue \<Rightarrow> rstring option" where
  "as_str (VString s) = Some s"
| "as_str _ = None"

fun as_i64 :: "GgufValue \<Rightarrow> u64 option" where
  "as_i64 (VU8 v) = Some (ucast v)"
| "as_i64 (VI8 v) = Some (scast v)"
| "as_i64 (VU16 v) = Some (ucast v)"
| "as_i64 (VI16 v) = Some (scast v)"
| "as_i64 (VU32 v) = Some (ucast v)"
| "as_i64 (VI32 v) = Some (scast v)"
| "as_i64 (VI64 v) = Some v"
| "as_i64 (VU64 v) = (if unat v < 2 ^ 63 then Some v else None)"
| "as_i64 _ = None"

fun as_f32 :: "GgufValue \<Rightarrow> u32 option" where
  "as_f32 (VF32 v) = Some v"
| "as_f32 _ = None"

fun as_bool :: "GgufValue \<Rightarrow> bool option" where
  "as_bool (VBool b) = Some b"
| "as_bool _ = None"

fun as_array :: "GgufValue \<Rightarrow> GgufValue list option" where
  "as_array (VArray items) = Some items"
| "as_array _ = None"

text \<open>The reader state: the cursor and the array elements declared so far.\<close>
type_synonym vstate = "GgufCursor \<times> nat"

definition scalar :: "(GgufCursor \<Rightarrow> GgufError + 'a \<times> GgufCursor) \<Rightarrow> ('a \<Rightarrow> GgufValue)
    \<Rightarrow> vstate \<Rightarrow> GgufError + GgufValue \<times> vstate" where
  "scalar p K st = (case st of (cur, tot) \<Rightarrow> rbind (p cur) (\<lambda>(x, cur). Inr (K x, (cur, tot))))"

definition read_bool :: "GgufCursor \<Rightarrow> GgufError + bool \<times> GgufCursor" where
  "read_bool cur = rbind (gc_u8 cur) (\<lambda>(value, cur).
    rbind (ensure (unat value \<le> 1) (InvalidBoolean value)) (\<lambda>_. Inr (value \<noteq> 0, cur)))"

definition array_header :: "vstate \<Rightarrow> GgufError + (u32 \<times> u64) \<times> vstate" where
  "array_header st = (case st of (cur, tot) \<Rightarrow>
    rbind (gc_u32 cur) (\<lambda>(child_type, cur).
    rbind (ensure (unat child_type \<le> 12) (UnknownValueType child_type)) (\<lambda>_.
    rbind (gc_u64 cur) (\<lambda>(count, cur).
    rbind (ensure (unat count \<le> MAX_COUNT) DimsOverflow) (\<lambda>_.
    rbind (ok_or (checked_add tot (unat count)) DimsOverflow) (\<lambda>tot.
    rbind (ensure (tot \<le> MAX_METADATA_ARRAY_ELEMENTS) DimsOverflow) (\<lambda>_.
    Inr ((child_type, count), (cur, tot)))))))))"

function read_value :: "u32 \<Rightarrow> nat \<Rightarrow> vstate \<Rightarrow> GgufError + GgufValue \<times> vstate" where
  "read_value value_type depth st =
    (if value_type = 0 then scalar gc_u8 VU8 st
     else if value_type = 1 then scalar gc_u8 VI8 st
     else if value_type = 2 then scalar gc_u16 VU16 st
     else if value_type = 3 then scalar gc_u16 VI16 st
     else if value_type = 4 then scalar gc_u32 VU32 st
     else if value_type = 5 then scalar gc_u32 VI32 st
     else if value_type = 6 then scalar gc_u32 VF32 st
     else if value_type = 7 then scalar read_bool VBool st
     else if value_type = 8 then scalar gguf_string VString st
     else if value_type = 9 then
       (if MAX_METADATA_DEPTH \<le> depth then Inl DimsOverflow
        else rbind (array_header st) (\<lambda>((child_type, count), st).
          rbind (repeatR (unat count) (read_value child_type (depth + 1)) st) (\<lambda>(items, st).
          Inr (VArray items, st))))
     else if value_type = 10 then scalar gc_u64 VU64 st
     else if value_type = 11 then scalar gc_u64 VI64 st
     else if value_type = 12 then scalar gc_u64 VF64 st
     else Inl (UnknownValueType value_type))"
  by pat_completeness auto
termination
  by (relation "measure (\<lambda>(_, depth, _). MAX_METADATA_DEPTH - depth)") auto

declare read_value.simps [simp del]

section \<open>Tensor table\<close>

record TensorInfo =
  ti_name :: rstring
  ti_dims :: "u64 list"
  ti_ggml_type :: u32
  ti_offset :: u64
  ti_n_bytes :: nat

definition element_count :: "u64 list \<Rightarrow> GgufError + nat" where
  "element_count dims = foldR (\<lambda>d n. ok_or (checked_mul n (unat d)) DimsOverflow) dims 1"

text \<open>(block bytes, elements per block)\<close>
definition type_block_layout :: "u32 \<Rightarrow> (nat \<times> nat) option" where
  "type_block_layout ty =
    (if ty = 0 then Some (4, 1)
     else if ty = 1 then Some (2, 1)
     else if ty = 8 then Some (34, 32)
     else if ty = 24 then Some (1, 1)
     else if ty = 25 then Some (2, 1)
     else if ty = 26 then Some (4, 1)
     else if ty = 30 then Some (2, 1)
     else if ty = GGML_TYPE_TQ1_0 then Some (54, 256)
     else if ty = GGML_TYPE_TQ2_0 then Some (66, 256)
     else if ty = GGML_TYPE_Q2_0 then Some (18, 64)
     else None)"

definition tensor_type_is_sized :: "u32 \<Rightarrow> bool" where
  "tensor_type_is_sized ty \<longleftrightarrow> type_block_layout ty \<noteq> None"

definition tensor_n_bytes :: "u32 \<Rightarrow> u64 list \<Rightarrow> GgufError + nat" where
  "tensor_n_bytes ty dims =
    (case type_block_layout ty of None \<Rightarrow> Inr 0
     | Some (block_bytes, block_n) \<Rightarrow>
       let row_elements = (case dims of [] \<Rightarrow> 1 | d # _ \<Rightarrow> unat d) in
       if row_elements mod block_n \<noteq> 0 then Inl InvalidTensorShape
       else rbind (foldR (\<lambda>d rows. ok_or (checked_mul rows (unat d)) DimsOverflow) (tl dims) 1) (\<lambda>rows.
         let row_blocks = row_elements div block_n in
         ok_or (Option.bind (checked_mul row_blocks block_bytes) (\<lambda>row_bytes. checked_mul row_bytes rows))
           DimsOverflow))"

record GgufFile =
  gf_version :: u32
  gf_metadata :: "GgufValue btree"
  gf_tensors :: "TensorInfo list"
  gf_tensor_data_offset :: nat

definition get_metadata :: "GgufFile \<Rightarrow> rstring \<Rightarrow> GgufValue option" where
  "get_metadata f key = btree_get key (gf_metadata f)"

definition tensor :: "GgufFile \<Rightarrow> rstring \<Rightarrow> TensorInfo option" where
  "tensor f name = find (\<lambda>t. ti_name t = name) (gf_tensors f)"

definition ascii :: "string \<Rightarrow> rstring" where
  "ascii s = map of_char s"

definition metadata_alignment :: "GgufValue btree \<Rightarrow> GgufError + nat" where
  "metadata_alignment metadata =
    (case btree_get (ascii ''general.alignment'') metadata of
       None \<Rightarrow> Inr DEFAULT_ALIGNMENT
     | Some (VU32 value) \<Rightarrow>
         if value \<noteq> 0 \<and> unat value mod 8 = 0 then Inr (unat value) else Inl InvalidAlignment
     | Some _ \<Rightarrow> Inl InvalidAlignment)"

definition gf_alignment :: "GgufFile \<Rightarrow> nat" where
  "gf_alignment f = (case metadata_alignment (gf_metadata f) of Inl _ \<Rightarrow> DEFAULT_ALIGNMENT | Inr a \<Rightarrow> a)"

definition align_up :: "nat \<Rightarrow> nat \<Rightarrow> GgufError + nat" where
  "align_up pos align =
    (if align = 0 then Inr pos
     else rbind (ok_or (checked_add pos (align - 1)) DimsOverflow) (\<lambda>bumped. Inr (bumped - bumped mod align)))"

section \<open>The container\<close>

definition gguf_header :: "GgufCursor \<Rightarrow> GgufError + (u32 \<times> u64 \<times> u64) \<times> GgufCursor" where
  "gguf_header cur =
    rbind (gc_take 4 cur) (\<lambda>(magic, cur).
    rbind (ensure (magic = GGUF_MAGIC) BadMagic) (\<lambda>_.
    rbind (gc_u32 cur) (\<lambda>(version, cur).
    rbind (ensure (version = 2 \<or> version = 3) (UnsupportedVersion version)) (\<lambda>_.
    rbind (gc_u64 cur) (\<lambda>(tensor_count, cur).
    rbind (gc_u64 cur) (\<lambda>(kv_count, cur).
    rbind (ensure (unat tensor_count \<le> MAX_COUNT \<and> unat kv_count \<le> MAX_COUNT) DimsOverflow) (\<lambda>_.
    Inr ((version, tensor_count, kv_count), cur))))))))"

definition read_kv :: "vstate \<Rightarrow> GgufError + (rstring \<times> GgufValue) \<times> vstate" where
  "read_kv st = (case st of (cur, tot) \<Rightarrow>
    rbind (gguf_string cur) (\<lambda>(key, cur).
    rbind (gc_u32 cur) (\<lambda>(value_type, cur).
    rbind (read_value value_type 0 (cur, tot)) (\<lambda>(value, st). Inr ((key, value), st)))))"

type_synonym raw_tensor = "rstring \<times> u64 list \<times> u32 \<times> u64"

definition read_raw_tensor :: "GgufCursor \<Rightarrow> GgufError + raw_tensor \<times> GgufCursor" where
  "read_raw_tensor cur =
    rbind (gguf_string cur) (\<lambda>(name, cur).
    rbind (gc_u32 cur) (\<lambda>(n_dims, cur).
    rbind (ensure (unat n_dims \<le> MAX_DIMS) DimsOverflow) (\<lambda>_.
    rbind (repeatR (unat n_dims) gc_u64 cur) (\<lambda>(dims, cur).
    rbind (gc_u32 cur) (\<lambda>(ggml_type, cur).
    rbind (gc_u64 cur) (\<lambda>(offset, cur).
    Inr ((name, dims, ggml_type, offset), cur)))))))"

definition size_tensor :: "nat \<Rightarrow> raw_tensor \<Rightarrow> GgufError + TensorInfo" where
  "size_tensor data_section_len raw = (case raw of (name, dims, ggml_type, offset) \<Rightarrow>
    rbind (element_count dims) (\<lambda>_.
    rbind (tensor_n_bytes ggml_type dims) (\<lambda>n_bytes.
    rbind (if 0 < n_bytes
           then rbind (ok_or (checked_add (unat offset) n_bytes) DimsOverflow) (\<lambda>fin.
                  ensure (fin \<le> data_section_len) OffsetOutOfBounds)
           else ensure (unat offset \<le> data_section_len) OffsetOutOfBounds) (\<lambda>_.
    Inr \<lparr>ti_name = name, ti_dims = dims, ti_ggml_type = ggml_type, ti_offset = offset, ti_n_bytes = n_bytes\<rparr>))))"

definition read_gguf :: "bytes \<Rightarrow> GgufError + GgufFile" where
  "read_gguf buf =
    rbind (gguf_header (gc_new buf)) (\<lambda>((version, tensor_count, kv_count), cur).
    rbind (repeatR (unat kv_count) read_kv (cur, 0)) (\<lambda>(kvs, (cur, tot)).
    let metadata = fold (\<lambda>(k, v). btree_insert k v) kvs [] in
    rbind (metadata_alignment metadata) (\<lambda>alignment.
    rbind (repeatR (unat tensor_count) read_raw_tensor cur) (\<lambda>(raw_tensors, cur).
    rbind (align_up (gc_pos cur) alignment) (\<lambda>tensor_data_offset.
    let data_section_len = length buf - tensor_data_offset in
    rbind (mapR (size_tensor data_section_len) raw_tensors) (\<lambda>tensors.
    Inr \<lparr>gf_version = version, gf_metadata = metadata, gf_tensors = tensors,
         gf_tensor_data_offset = tensor_data_offset\<rparr>))))))"

end
