(* ===== verification/GgufWrite.thy ===== *)
theory GgufWrite
  imports Gguf
begin

text \<open>
  The GGUF container writer of \<open>gguf_write.rs\<close>: value encoding, the layout of the header and the payloads,
  and the one-shot \<open>write_gguf\<close>.  The output vector is threaded through the encoders as the source threads it.
\<close>

section \<open>Value encoding\<close>

fun value_type_tag :: "GgufValue \<Rightarrow> u32" where
  "value_type_tag (VU8 _) = 0"
| "value_type_tag (VI8 _) = 1"
| "value_type_tag (VU16 _) = 2"
| "value_type_tag (VI16 _) = 3"
| "value_type_tag (VU32 _) = 4"
| "value_type_tag (VI32 _) = 5"
| "value_type_tag (VF32 _) = 6"
| "value_type_tag (VBool _) = 7"
| "value_type_tag (VString _) = 8"
| "value_type_tag (VArray _) = 9"
| "value_type_tag (VU64 _) = 10"
| "value_type_tag (VI64 _) = 11"
| "value_type_tag (VF64 _) = 12"

fun push_scalar :: "bytes \<Rightarrow> GgufValue \<Rightarrow> GgufError + bytes" where
  "push_scalar out (VU8 x) = Inr (out @ [x])"
| "push_scalar out (VI8 x) = Inr (out @ [x])"
| "push_scalar out (VU16 x) = Inr (out @ le16 x)"
| "push_scalar out (VI16 x) = Inr (out @ le16 x)"
| "push_scalar out (VU32 x) = Inr (out @ le32 x)"
| "push_scalar out (VI32 x) = Inr (out @ le32 x)"
| "push_scalar out (VF32 x) = Inr (out @ le32 x)"
| "push_scalar out (VBool b) = Inr (out @ [of_bool b])"
| "push_scalar out (VString s) = Inr (out @ push_gguf_string s)"
| "push_scalar out (VU64 x) = Inr (out @ le64 x)"
| "push_scalar out (VI64 x) = Inr (out @ le64 x)"
| "push_scalar out (VF64 x) = Inr (out @ le64 x)"
| "push_scalar out (VArray _) = Inl (UnknownValueType 9)"

definition child_tag :: "GgufValue list \<Rightarrow> u32" where
  "child_tag items = (case items of [] \<Rightarrow> 0 | item # _ \<Rightarrow> value_type_tag item)"

text \<open>The state is the output and the array elements pushed so far.\<close>
function push_value_payload :: "GgufValue \<Rightarrow> nat \<Rightarrow> bytes \<times> nat \<Rightarrow> GgufError + bytes \<times> nat" where
  "push_value_payload v depth st = (case st of (out, tot) \<Rightarrow>
    (case v of
       VArray items \<Rightarrow>
         (if MAX_METADATA_DEPTH \<le> depth then Inl DimsOverflow
          else
            rbind (ok_or (checked_add tot (length items)) DimsOverflow) (\<lambda>tot.
            rbind (ensure (tot \<le> MAX_METADATA_ARRAY_ELEMENTS) DimsOverflow) (\<lambda>_.
            foldR (\<lambda>item st.
                if value_type_tag item \<noteq> child_tag items then Inl (UnknownValueType 9)
                else push_value_payload item (depth + 1) st)
              items (out @ le32 (child_tag items) @ le64 (of_nat (length items)), tot))))
     | _ \<Rightarrow> rbind (push_scalar out v) (\<lambda>out. Inr (out, tot))))"
  by pat_completeness auto
termination
  by (relation "measure (\<lambda>(_, depth, _). MAX_METADATA_DEPTH - depth)") auto

declare push_value_payload.simps [simp del]

definition push_value :: "GgufValue \<Rightarrow> bytes \<times> nat \<Rightarrow> GgufError + bytes \<times> nat" where
  "push_value v st = (case st of (out, tot) \<Rightarrow> push_value_payload v 0 (out @ le32 (value_type_tag v), tot))"

section \<open>Layout\<close>

record TensorOut =
  to_name :: rstring
  to_dims :: "u64 list"
  to_ggml_type :: u32
  to_data :: bytes

record GgufTensorSpec =
  sp_name :: rstring
  sp_dims :: "u64 list"
  sp_ggml_type :: u32
  sp_data_len :: nat

record GgufLayout =
  la_header :: bytes
  la_tensor_data_offset :: nat
  la_offsets :: "nat list"

definition layout_step :: "nat \<Rightarrow> GgufTensorSpec \<Rightarrow> nat list \<times> nat \<Rightarrow> GgufError + nat list \<times> nat" where
  "layout_step alignment t st = (case st of (offsets, relative_end) \<Rightarrow>
    rbind (tensor_n_bytes (sp_ggml_type t) (sp_dims t)) (\<lambda>expected.
    if tensor_type_is_sized (sp_ggml_type t) \<and> sp_data_len t \<noteq> expected then Inl InvalidTensorShape
    else
      rbind (align_up relative_end alignment) (\<lambda>offset.
      rbind (ok_or (checked_add offset (sp_data_len t)) DimsOverflow) (\<lambda>relative_end.
      Inr (offsets @ [offset], relative_end)))))"

definition push_kv :: "rstring \<times> GgufValue \<Rightarrow> bytes \<times> nat \<Rightarrow> GgufError + bytes \<times> nat" where
  "push_kv kv st = (case kv of (key, value) \<Rightarrow> case st of (out, tot) \<Rightarrow>
     push_value value (out @ push_gguf_string key, tot))"

definition push_tensor_info :: "GgufTensorSpec \<times> nat \<Rightarrow> bytes" where
  "push_tensor_info to = (case to of (t, offset) \<Rightarrow>
     push_gguf_string (sp_name t) @ le32 (of_nat (length (sp_dims t))) @ concat (map le64 (sp_dims t))
     @ le32 (sp_ggml_type t) @ le64 (of_nat offset))"

definition build_layout :: "u32 \<Rightarrow> GgufValue btree \<Rightarrow> GgufTensorSpec list \<Rightarrow> GgufError + GgufLayout" where
  "build_layout version metadata tensors =
    (if version \<noteq> 2 \<and> version \<noteq> 3 then Inl (UnsupportedVersion version)
     else
      rbind (metadata_alignment metadata) (\<lambda>alignment.
      rbind (foldR (layout_step alignment) tensors ([], 0)) (\<lambda>(offsets, relative_end).
      let header = GGUF_MAGIC @ le32 version @ le64 (of_nat (length tensors)) @ le64 (of_nat (length metadata)) in
      rbind (foldR push_kv metadata (header, 0)) (\<lambda>(header, tot).
      let header = header @ concat (map push_tensor_info (zip tensors offsets)) in
      rbind (align_up (length header) alignment) (\<lambda>tensor_data_offset.
      rbind (ok_or (checked_add tensor_data_offset relative_end) DimsOverflow) (\<lambda>_.
      Inr \<lparr>la_header = header, la_tensor_data_offset = tensor_data_offset, la_offsets = offsets\<rparr>))))))"

text \<open>\<open>Vec::resize(n, 0)\<close>.\<close>
definition resize :: "nat \<Rightarrow> bytes \<Rightarrow> bytes" where
  "resize n xs = take n xs @ replicate (n - length xs) 0"

definition spec_of :: "TensorOut \<Rightarrow> GgufTensorSpec" where
  "spec_of t = \<lparr>sp_name = to_name t, sp_dims = to_dims t, sp_ggml_type = to_ggml_type t,
     sp_data_len = length (to_data t)\<rparr>"

definition append_payload :: "nat \<Rightarrow> TensorOut \<times> nat \<Rightarrow> bytes \<Rightarrow> GgufError + bytes" where
  "append_payload tensor_data_offset to out = (case to of (t, offset) \<Rightarrow>
    rbind (ok_or (checked_add tensor_data_offset offset) DimsOverflow) (\<lambda>absolute.
    Inr ((if length out < absolute then resize absolute out else out) @ to_data t)))"

definition write_gguf :: "u32 \<Rightarrow> GgufValue btree \<Rightarrow> TensorOut list \<Rightarrow> GgufError + bytes" where
  "write_gguf version metadata tensors =
    rbind (build_layout version metadata (map spec_of tensors)) (\<lambda>layout.
    foldR (append_payload (la_tensor_data_offset layout)) (zip tensors (la_offsets layout))
      (resize (la_tensor_data_offset layout) (la_header layout)))"

section \<open>What a value's encoding is\<close>

fun gv_enc :: "GgufValue \<Rightarrow> bytes" where
  "gv_enc (VU8 x) = [x]"
| "gv_enc (VI8 x) = [x]"
| "gv_enc (VU16 x) = le16 x"
| "gv_enc (VI16 x) = le16 x"
| "gv_enc (VU32 x) = le32 x"
| "gv_enc (VI32 x) = le32 x"
| "gv_enc (VF32 x) = le32 x"
| "gv_enc (VBool b) = [of_bool b]"
| "gv_enc (VString s) = push_gguf_string s"
| "gv_enc (VU64 x) = le64 x"
| "gv_enc (VI64 x) = le64 x"
| "gv_enc (VF64 x) = le64 x"
| "gv_enc (VArray items) = (le32 (child_tag items) @ le64 (of_nat (length items))) @ concat (map gv_enc items)"

text \<open>Array elements, nested ones included.\<close>
fun gv_count :: "GgufValue \<Rightarrow> nat" where
  "gv_count (VArray items) = length items + (\<Sum>v\<leftarrow>items. gv_count v)"
| "gv_count _ = 0"

text \<open>Homogeneous arrays nested at most eight deep.\<close>
fun gv_ok :: "nat \<Rightarrow> GgufValue \<Rightarrow> bool" where
  "gv_ok depth (VArray items) \<longleftrightarrow> depth < MAX_METADATA_DEPTH \<and>
     list_all (\<lambda>v. value_type_tag v = child_tag items \<and> gv_ok (depth + 1) v) items"
| "gv_ok depth _ \<longleftrightarrow> True"

fun gv_strings_ok :: "GgufValue \<Rightarrow> bool" where
  "gv_strings_ok (VString s) = str_ok s"
| "gv_strings_ok (VArray items) = list_all gv_strings_ok items"
| "gv_strings_ok _ = True"

lemma push_scalar_enc: "push_scalar out v = Inr out' \<Longrightarrow>
    out' = out @ gv_enc v \<and> gv_count v = 0 \<and> gv_ok depth v"
  by (cases v) auto

lemma foldR_appends:
  assumes "foldR f xs (out, tot) = Inr (out', tot')" and "tot \<le> M"
    and "\<And>x out tot out' tot'. x \<in> set xs \<Longrightarrow> f x (out, tot) = Inr (out', tot') \<Longrightarrow> tot \<le> M \<Longrightarrow>
      P x \<and> out' = out @ enc x \<and> tot' = tot + cnt x \<and> tot' \<le> (M :: nat)"
  shows "(\<forall>x\<in>set xs. P x) \<and> out' = out @ concat (map enc xs) \<and> tot' = tot + (\<Sum>x\<leftarrow>xs. cnt x) \<and> tot' \<le> M"
  using assms
proof (induction xs arbitrary: out tot)
  case (Cons x xs)
  from Cons.prems(1) obtain o1 t1 where fx: "f x (out, tot) = Inr (o1, t1)"
    and r: "foldR f xs (o1, t1) = Inr (out', tot')"
    by (auto split: sum.splits)
  have "P x \<and> o1 = out @ enc x \<and> t1 = tot + cnt x \<and> t1 \<le> M"
    using Cons.prems(3) [OF _ fx Cons.prems(2)] by simp
  moreover from this have "(\<forall>x\<in>set xs. P x) \<and> out' = o1 @ concat (map enc xs) \<and>
      tot' = t1 + (\<Sum>x\<leftarrow>xs. cnt x) \<and> tot' \<le> M"
    by (intro Cons.IH [OF r]) (simp, rule Cons.prems(3), simp_all)
  ultimately show ?case by simp
qed simp

lemma push_payload_scalar: "(\<And>items. v \<noteq> VArray items) \<Longrightarrow>
    push_value_payload v depth (out, tot) = rbind (push_scalar out v) (\<lambda>out. Inr (out, tot))"
  by (subst push_value_payload.simps) (cases v; auto)

text \<open>Whatever the writer accepts, it appends exactly the encoding and counts exactly the elements.\<close>
lemma push_payload_enc:
  assumes "push_value_payload v depth (out, tot) = Inr (out', tot')" "tot \<le> MAX_METADATA_ARRAY_ELEMENTS"
  shows "gv_ok depth v \<and> out' = out @ gv_enc v \<and> tot' = tot + gv_count v \<and> tot' \<le> MAX_METADATA_ARRAY_ELEMENTS"
  using assms
proof (induction v arbitrary: depth out tot out' tot')
  case (VArray items)
  let ?f = "\<lambda>item st. if value_type_tag item \<noteq> child_tag items then Inl (UnknownValueType 9)
                else push_value_payload item (depth + 1) st"
  have d: "depth < MAX_METADATA_DEPTH" and t: "tot + length items \<le> MAX_METADATA_ARRAY_ELEMENTS"
    and r: "foldR ?f items (out @ le32 (child_tag items) @ le64 (of_nat (length items)), tot + length items)
      = Inr (out', tot')"
    using VArray.prems(1) by (auto simp: push_value_payload.simps [of "VArray items"] rbind_eq_Inr split: if_splits)
  have "(\<forall>x\<in>set items. value_type_tag x = child_tag items \<and> gv_ok (depth + 1) x) \<and>
      out' = (out @ le32 (child_tag items) @ le64 (of_nat (length items))) @ concat (map gv_enc items) \<and>
      tot' = tot + length items + (\<Sum>x\<leftarrow>items. gv_count x) \<and> tot' \<le> MAX_METADATA_ARRAY_ELEMENTS"
    by (rule foldR_appends [OF r t]) (use VArray.IH in \<open>auto split: if_splits\<close>)
  with d show ?case by (simp add: list_all_iff)
qed (auto simp: push_payload_scalar)

lemma push_value_enc:
  assumes "push_value v (out, tot) = Inr (out', tot')" "tot \<le> MAX_METADATA_ARRAY_ELEMENTS"
  shows "gv_ok 0 v \<and> out' = out @ le32 (value_type_tag v) @ gv_enc v \<and> tot' = tot + gv_count v \<and>
    tot' \<le> MAX_METADATA_ARRAY_ELEMENTS"
  using push_payload_enc [of v 0 "out @ le32 (value_type_tag v)" tot out' tot'] assms by (simp add: push_value_def)

section \<open>Reading values back\<close>

text \<open>\<open>p\<close> reads \<open>bs\<close> as \<open>v\<close> and adds \<open>k\<close> to the element count.\<close>
definition vreads :: "(vstate \<Rightarrow> GgufError + 'a \<times> vstate) \<Rightarrow> bytes \<Rightarrow> nat \<Rightarrow> 'a \<Rightarrow> bool" where
  "vreads p bs k v \<longleftrightarrow> (\<forall>c tot ts. gc_inv c \<longrightarrow> gc_rest c = bs @ ts \<longrightarrow> tot + k \<le> MAX_METADATA_ARRAY_ELEMENTS \<longrightarrow>
     p (c, tot) = Inr (v, (gc_adv (length bs) c, tot + k)))"

lemma vreadsD: "vreads p bs k v \<Longrightarrow> gc_inv c \<Longrightarrow> gc_rest c = bs @ ts \<Longrightarrow>
    tot + k \<le> MAX_METADATA_ARRAY_ELEMENTS \<Longrightarrow> p (c, tot) = Inr (v, (gc_adv (length bs) c, tot + k))"
  by (simp add: vreads_def)

lemma scalar_vreads: "gc.reads p bs x \<Longrightarrow> vreads (scalar p K) bs 0 (K x)"
  by (auto simp: vreads_def scalar_def dest: gc.readsD)

lemma vreads_repeat:
  assumes "\<And>x. x \<in> set xs \<Longrightarrow> vreads p (enc x) (cnt x) x"
  shows "vreads (repeatR (length xs) p) (concat (map enc xs)) (\<Sum>x\<leftarrow>xs. cnt x) xs"
  using assms
proof (induction xs)
  case Nil
  then show ?case by (simp add: vreads_def gc.adv_0)
next
  case (Cons x xs)
  have px: "vreads p (enc x) (cnt x) x"
    and IH: "vreads (repeatR (length xs) p) (concat (map enc xs)) (\<Sum>x\<leftarrow>xs. cnt x) xs"
    using Cons by auto
  show ?case unfolding vreads_def
  proof (intro allI impI)
    fix c tot ts
    assume c: "gc_inv c" "gc_rest c = concat (map enc (x # xs)) @ ts"
      and k: "tot + (\<Sum>x\<leftarrow>x # xs. cnt x) \<le> MAX_METADATA_ARRAY_ELEMENTS"
    have 1: "p (c, tot) = Inr (x, (gc_adv (length (enc x)) c, tot + cnt x))"
      using vreadsD [OF px c(1), of "concat (map enc xs) @ ts" tot] c k by simp
    have st: "gc_inv (gc_adv (length (enc x)) c)" "gc_rest (gc_adv (length (enc x)) c) = concat (map enc xs) @ ts"
      using gc.adv_state [of c "enc x" "concat (map enc xs) @ ts"] c by simp_all
    show "repeatR (length (x # xs)) p (c, tot)
        = Inr (x # xs, (gc_adv (length (concat (map enc (x # xs)))) c, tot + (\<Sum>x\<leftarrow>x # xs. cnt x)))"
      using 1 vreadsD [OF IH st, of "tot + cnt x"] k by (simp add: gc.adv_adv add.assoc)
  qed
qed

lemma read_bool_reads: "gc.reads read_bool [of_bool b] b"
proof -
  have "gc.reads (\<lambda>cur. rbind (gc_u8 cur) (\<lambda>(value, cur).
      rbind (ensure (unat value \<le> 1) (InvalidBoolean value)) (\<lambda>_. Inr (value \<noteq> 0, cur)))) ([of_bool b] @ []) b"
  proof (rule gc.reads_bind [OF gc_u8_reads])
    have "gc.reads (\<lambda>cur. Inr (b, cur)) [] b" by (rule gc.reads_pure)
    then show "gc.reads (\<lambda>c. rbind (ensure (unat (of_bool b :: u8) \<le> 1) (InvalidBoolean (of_bool b)))
        (\<lambda>_. Inr ((of_bool b :: u8) \<noteq> 0, c))) [] b"
      by (cases b) simp_all
  qed
  then show ?thesis unfolding read_bool_def [abs_def] by simp
qed

lemma tag_le_12: "unat (value_type_tag v) \<le> 12"
  by (cases v) simp_all

lemma child_tag_le_12: "unat (child_tag items) \<le> 12"
  by (cases items) (simp_all add: child_tag_def tag_le_12)

lemma array_header_vreads:
  assumes "tot + n \<le> MAX_METADATA_ARRAY_ELEMENTS" "unat tag \<le> 12" "gc_inv c"
    and "gc_rest c = le32 tag @ le64 (of_nat n) @ ts"
  shows "array_header (c, tot) = Inr ((tag, of_nat n), (gc_adv 12 c, tot + n))"
proof -
  have 1: "gc_u32 c = Inr (tag, gc_adv 4 c)"
    using gc.readsD [OF gc_u32_reads assms(3,4)] by simp
  have st: "gc_inv (gc_adv 4 c)" "gc_rest (gc_adv 4 c) = le64 (of_nat n) @ ts"
    using gc.adv_state [OF assms(3,4)] by simp_all
  have 2: "gc_u64 (gc_adv 4 c) = Inr (of_nat n, gc_adv 8 (gc_adv 4 c))"
    using gc.readsD [OF gc_u64_reads st] by simp
  have "unat (of_nat n :: u64) = n" using assms(1) by (simp add: unat_of_nat gguf_consts)
  with 1 2 assms(1,2) show ?thesis
    by (simp add: array_header_def gc.adv_adv checked_add_def usize_MAX_def gguf_consts)
qed

lemma read_value_scalar:
  "read_value 0 depth = scalar gc_u8 VU8"
  "read_value 1 depth = scalar gc_u8 VI8"
  "read_value 2 depth = scalar gc_u16 VU16"
  "read_value 3 depth = scalar gc_u16 VI16"
  "read_value 4 depth = scalar gc_u32 VU32"
  "read_value 5 depth = scalar gc_u32 VI32"
  "read_value 6 depth = scalar gc_u32 VF32"
  "read_value 7 depth = scalar read_bool VBool"
  "read_value 8 depth = scalar gguf_string VString"
  "read_value 10 depth = scalar gc_u64 VU64"
  "read_value 11 depth = scalar gc_u64 VI64"
  "read_value 12 depth = scalar gc_u64 VF64"
  by (rule ext, subst read_value.simps, simp)+

lemma read_value_vreads:
  "gv_ok depth v \<Longrightarrow> gv_strings_ok v \<Longrightarrow> vreads (read_value (value_type_tag v) depth) (gv_enc v) (gv_count v) v"
proof (induction v arbitrary: depth)
  case (VArray items)
  have d: "\<not> MAX_METADATA_DEPTH \<le> depth" using VArray.prems by simp
  have items: "vreads (read_value (child_tag items) (depth + 1)) (gv_enc v) (gv_count v) v" if "v \<in> set items" for v
    using VArray.IH [OF that, of "depth + 1"] VArray.prems that by (auto simp: list_all_iff)
  show ?case unfolding vreads_def
  proof (intro allI impI)
    fix c tot ts
    let ?h = "le32 (child_tag items) @ le64 (of_nat (length items))"
    assume c: "gc_inv c" "gc_rest c = gv_enc (VArray items) @ ts"
      and k: "tot + gv_count (VArray items) \<le> MAX_METADATA_ARRAY_ELEMENTS"
    have h: "array_header (c, tot) = Inr ((child_tag items, of_nat (length items)), (gc_adv 12 c, tot + length items))"
      by (rule array_header_vreads) (use c k child_tag_le_12 in simp_all)
    have st: "gc_inv (gc_adv 12 c)" "gc_rest (gc_adv 12 c) = concat (map gv_enc items) @ ts"
      using gc.adv_state [of c ?h "concat (map gv_enc items) @ ts"] c by simp_all
    have u: "unat (of_nat (length items) :: u64) = length items"
      using k by (simp add: unat_of_nat gguf_consts)
    have "repeatR (length items) (read_value (child_tag items) (depth + 1)) (gc_adv 12 c, tot + length items)
        = Inr (items, (gc_adv (length (concat (map gv_enc items))) (gc_adv 12 c), tot + length items + (\<Sum>v\<leftarrow>items. gv_count v)))"
      by (rule vreadsD [OF vreads_repeat [OF items] st]) (use k in simp_all)
    then show "read_value (value_type_tag (VArray items)) depth (c, tot)
        = Inr (VArray items, (gc_adv (length (gv_enc (VArray items))) c, tot + gv_count (VArray items)))"
      using d h u by (subst read_value.simps) (simp add: gc.adv_adv)
  qed
qed (simp_all add: read_value_scalar scalar_vreads gc_reads read_bool_reads)

definition kv_enc :: "rstring \<times> GgufValue \<Rightarrow> bytes" where
  "kv_enc kv = push_gguf_string (fst kv) @ le32 (value_type_tag (snd kv)) @ gv_enc (snd kv)"

lemma read_kv_vreads:
  assumes "str_ok key" "gv_ok 0 v" "gv_strings_ok v"
  shows "vreads read_kv (kv_enc (key, v)) (gv_count v) (key, v)"
  unfolding vreads_def
proof (intro allI impI)
  fix c tot ts
  assume c: "gc_inv c" "gc_rest c = kv_enc (key, v) @ ts" and k: "tot + gv_count v \<le> MAX_METADATA_ARRAY_ELEMENTS"
  have c2: "gc_rest c = (push_gguf_string key @ le32 (value_type_tag v)) @ gv_enc v @ ts"
    and c1: "gc_rest c = push_gguf_string key @ le32 (value_type_tag v) @ gv_enc v @ ts"
    using c(2) by (simp_all add: kv_enc_def)
  let ?c1 = "gc_adv (length (push_gguf_string key)) c"
  have 1: "gguf_string c = Inr (key, ?c1)" by (rule gc.readsD [OF gguf_string_reads [OF assms(1)] c(1) c1])
  have st1: "gc_inv ?c1" "gc_rest ?c1 = le32 (value_type_tag v) @ gv_enc v @ ts"
    using gc.adv_state [OF c(1) c1] by simp_all
  have 2: "gc_u32 ?c1 = Inr (value_type_tag v, gc_adv 4 ?c1)"
    using gc.readsD [OF gc_u32_reads st1] by simp
  have st2: "gc_inv (gc_adv 4 ?c1)" "gc_rest (gc_adv 4 ?c1) = gv_enc v @ ts"
    using gc.adv_state [OF st1] by simp_all
  have 3: "read_value (value_type_tag v) 0 (gc_adv 4 ?c1, tot)
      = Inr (v, (gc_adv (length (gv_enc v)) (gc_adv 4 ?c1), tot + gv_count v))"
    by (rule vreadsD [OF read_value_vreads [OF assms(2,3)] st2 k])
  show "read_kv (c, tot) = Inr ((key, v), (gc_adv (length (kv_enc (key, v))) c, tot + gv_count v))"
    using 1 2 3 by (simp add: read_kv_def kv_enc_def gc.adv_adv add.assoc)
qed

end
