(* ===== verification/GgufRound.thy ===== *)
theory GgufRound
  imports GgufWrite
begin

text \<open>
  The GGUF reader against the GGUF writer: what the layout pass guarantees about payload placement, and
  that reading a written container returns its metadata and tensor table and locates every payload.
\<close>

section \<open>Payload placement\<close>

lemma align_up_eq_Inr:
  assumes "align_up pos a = Inr p" "0 < a"
  shows "pos \<le> p \<and> a dvd p \<and> p \<le> usize_MAX \<and> p < pos + a"
proof -
  let ?b = "pos + (a - 1)"
  have p: "p = ?b - ?b mod a" "?b \<le> usize_MAX"
    using assms by (auto simp: align_up_def rbind_eq_Inr)
  have "?b mod a < a" using assms(2) by simp
  moreover have "a dvd ?b - ?b mod a" by (rule dvd_minus_mod)
  ultimately have "pos \<le> ?b - ?b mod a" "a dvd ?b - ?b mod a" "?b - ?b mod a < pos + a" "?b - ?b mod a \<le> ?b"
    using assms(2) by linarith+
  with p show ?thesis by (metis le_trans)
qed

text \<open>Payload lengths \<open>ls\<close> are placed at aligned, non-overlapping offsets \<open>os\<close>, from \<open>start\<close> up to \<open>fin\<close>.\<close>
fun placed :: "nat \<Rightarrow> nat \<Rightarrow> nat list \<Rightarrow> nat list \<Rightarrow> nat \<Rightarrow> bool" where
  "placed a start [] [] fin \<longleftrightarrow> fin = start"
| "placed a start (l # ls) (off # os) fin \<longleftrightarrow>
     start \<le> off \<and> a dvd off \<and> off + l \<le> usize_MAX \<and> placed a (off + l) ls os fin"
| "placed a start _ _ fin \<longleftrightarrow> False"

lemma placed_length: "placed a start ls os fin \<Longrightarrow> length os = length ls"
  by (induction a start ls os fin rule: placed.induct) auto

lemma placed_mono: "placed a start ls os fin \<Longrightarrow> start \<le> fin"
  by (induction a start ls os fin rule: placed.induct) auto

lemma placed_nth: "placed a start ls os fin \<Longrightarrow> i < length ls \<Longrightarrow>
    a dvd os ! i \<and> start \<le> os ! i \<and> os ! i + ls ! i \<le> fin \<and> os ! i + ls ! i \<le> usize_MAX"
proof (induction a start ls os fin arbitrary: i rule: placed.induct)
  case (2 a start l ls off os fin)
  then show ?case using placed_mono [of a "off + l" ls os fin] by (cases i) force+
qed auto

lemma placed_next: "placed a start ls os fin \<Longrightarrow> Suc i < length ls \<Longrightarrow> os ! i + ls ! i \<le> os ! Suc i"
proof (induction a start ls os fin arbitrary: i rule: placed.induct)
  case (2 a start l ls off os fin)
  then show ?case using placed_nth [of a "off + l" ls os fin 0] by (cases i) auto
qed auto

definition spec_sized :: "GgufTensorSpec \<Rightarrow> bool" where
  "spec_sized t \<longleftrightarrow> tensor_n_bytes (sp_ggml_type t) (sp_dims t)
     = Inr (if tensor_type_is_sized (sp_ggml_type t) then sp_data_len t else 0)"

lemma unsized_n_bytes: "\<not> tensor_type_is_sized ty \<Longrightarrow> tensor_n_bytes ty dims = Inr 0"
  by (cases "type_block_layout ty") (simp_all add: tensor_type_is_sized_def tensor_n_bytes_def)

lemma layout_step_eq_Inr:
  assumes "layout_step a t (acc, r) = Inr (os, rel)" "0 < a"
  shows "\<exists>off. os = acc @ [off] \<and> rel = off + sp_data_len t \<and> r \<le> off \<and> a dvd off \<and>
    rel \<le> usize_MAX \<and> spec_sized t"
proof -
  obtain e off where e: "tensor_n_bytes (sp_ggml_type t) (sp_dims t) = Inr e"
    and sz: "tensor_type_is_sized (sp_ggml_type t) \<longrightarrow> sp_data_len t = e"
    and off: "align_up r a = Inr off" and "off + sp_data_len t \<le> usize_MAX"
    and "os = acc @ [off]" "rel = off + sp_data_len t"
    using assms(1) by (auto simp: layout_step_def rbind_eq_Inr split: if_splits)
  moreover have "spec_sized t"
    using e sz unsized_n_bytes [of "sp_ggml_type t" "sp_dims t"] by (auto simp: spec_sized_def)
  ultimately show ?thesis using align_up_eq_Inr [OF off assms(2)] by auto
qed

lemma layout_fold:
  assumes "foldR (layout_step a) ts (acc, r) = Inr (os, rel)" "0 < a"
  shows "\<exists>os'. os = acc @ os' \<and> placed a r (map sp_data_len ts) os' rel \<and> list_all spec_sized ts"
  using assms(1)
proof (induction ts arbitrary: acc r)
  case (Cons t ts)
  then obtain acc1 r1 where s: "layout_step a t (acc, r) = Inr (acc1, r1)"
    and f: "foldR (layout_step a) ts (acc1, r1) = Inr (os, rel)" by (auto split: sum.splits)
  obtain off where off: "acc1 = acc @ [off]" "r1 = off + sp_data_len t" "r \<le> off" "a dvd off"
    "r1 \<le> usize_MAX" "spec_sized t"
    using layout_step_eq_Inr [OF s assms(2)] by auto
  obtain os' where "os = acc1 @ os'" "placed a r1 (map sp_data_len ts) os' rel" "list_all spec_sized ts"
    using Cons.IH [OF f] by auto
  with off show ?case by (intro exI [of _ "off # os'"]) simp
qed simp

section \<open>The data section\<close>

text \<open>The bytes after the header: each payload after its alignment padding.\<close>
fun data_section :: "nat \<Rightarrow> bytes list \<Rightarrow> nat list \<Rightarrow> bytes" where
  "data_section r [] os = []"
| "data_section r (d # ds) [] = []"
| "data_section r (d # ds) (off # os) = replicate (off - r) 0 @ d @ data_section (off + length d) ds os"

lemma data_section_length:
  "placed a r (map length ds) os fin \<Longrightarrow> length (data_section r ds os) = fin - r"
proof (induction r ds os rule: data_section.induct)
  case (1 r os)
  then show ?case by (cases os) auto
next
  case (3 r d ds off os)
  then show ?case using placed_mono [of a "off + length d" "map length ds" os fin] by auto
qed simp

lemma data_section_window:
  "placed a r (map length ds) os fin \<Longrightarrow> i < length ds \<Longrightarrow>
   window (os ! i - r) (length (ds ! i)) (data_section r ds os) = ds ! i"
proof (induction r ds os arbitrary: i rule: data_section.induct)
  case (3 r d ds off os)
  show ?case
  proof (cases i)
    case 0
    then show ?thesis using 3 by (simp add: window_def)
  next
    case (Suc j)
    have p: "placed a (off + length d) (map length ds) os fin" "r \<le> off" using 3 by auto
    have j: "j < length ds" using 3 Suc by simp
    have o: "off + length d \<le> os ! j" using placed_nth [OF p(1)] j by simp
    have split: "os ! j - r = (off - r) + length d + (os ! j - (off + length d))" using o p(2) by linarith
    have "window (os ! j - r) (length (ds ! j)) (data_section r (d # ds) (off # os))
        = window (os ! j - (off + length d)) (length (ds ! j)) (data_section (off + length d) ds os)"
      unfolding window_def split by simp
    then show ?thesis using 3 p j Suc by simp
  qed
qed simp_all

lemma append_payload_fold:
  assumes "placed a r (map length (map to_data ts)) os fin" "length out = tdo + r" "tdo + fin \<le> usize_MAX"
  shows "foldR (append_payload tdo) (zip ts os) out = Inr (out @ data_section r (map to_data ts) os)"
  using assms
proof (induction ts arbitrary: r os out)
  case (Cons t ts)
  then obtain off os' where os: "os = off # os'" by (cases os) auto
  let ?l = "length (to_data t)"
  have p: "placed a (off + ?l) (map length (map to_data ts)) os' fin" "r \<le> off"
    using Cons.prems(1) os by auto
  have fin: "off + ?l \<le> fin" using placed_mono [OF p(1)] .
  let ?out = "out @ replicate (off - r) 0 @ to_data t"
  have step: "append_payload tdo (t, off) out = Inr ?out"
    using Cons.prems fin p(2) by (auto simp: append_payload_def checked_add_def resize_def)
  have "foldR (append_payload tdo) (zip ts os') ?out = Inr (?out @ data_section (off + ?l) (map to_data ts) os')"
    using Cons.prems p fin by (intro Cons.IH [OF p(1)]) simp_all
  with step os show ?case by simp
qed simp

section \<open>The header\<close>

definition raw_enc :: "raw_tensor \<Rightarrow> bytes" where
  "raw_enc raw = (case raw of (name, dims, ty, off) \<Rightarrow>
     push_gguf_string name @ le32 (of_nat (length dims)) @ concat (map le64 dims) @ le32 ty @ le64 off)"

definition raw_of :: "GgufTensorSpec \<times> nat \<Rightarrow> raw_tensor" where
  "raw_of to = (case to of (t, off) \<Rightarrow> (sp_name t, sp_dims t, sp_ggml_type t, of_nat off))"

lemma push_tensor_info_raw: "push_tensor_info to = raw_enc (raw_of to)"
  by (cases to) (simp add: push_tensor_info_def raw_enc_def raw_of_def)

lemma read_raw_tensor_reads:
  assumes "str_ok name" "length dims \<le> MAX_DIMS"
  shows "gc.reads read_raw_tensor (raw_enc (name, dims, ty, off)) (name, dims, ty, off)"
proof -
  have u: "unat (of_nat (length dims) :: u32) = length dims"
    using assms(2) by (simp add: unat_of_nat gguf_consts)
  have last: "gc.reads (\<lambda>cur. rbind (gc_u64 cur) (\<lambda>(offset, cur). Inr ((name, dims, ty, offset), cur)))
      (le64 off) (name, dims, ty, off)"
    by (rule gc.reads_map [OF gc_u64_reads])
  have "gc.reads (repeatR (length dims) gc_u64) (concat (map le64 dims)) dims"
    by (rule gc.reads_repeat) (rule gc_u64_reads)
  then have loop: "gc.reads (\<lambda>c. repeatR (unat (of_nat (length dims) :: u32)) gc_u64 c) (concat (map le64 dims)) dims"
    by (simp add: u)
  have fits: "unat (of_nat (length dims) :: u32) \<le> MAX_DIMS" using assms(2) u by simp
  show ?thesis unfolding read_raw_tensor_def [abs_def] raw_enc_def prod.case
    by (intro gc.reads_bind [OF gguf_string_reads [OF assms(1)]] gc.reads_bind [OF gc_u32_reads]
        gc.reads_ensure gc.reads_bind [OF loop] last fits)
qed

lemma gguf_header_reads:
  assumes "version = 2 \<or> version = 3" "unat n \<le> MAX_COUNT" "unat m \<le> MAX_COUNT"
  shows "gc.reads gguf_header (GGUF_MAGIC @ le32 version @ le64 n @ le64 m) (version, n, m)"
proof -
  have magic: "gc.reads (gc_take 4) GGUF_MAGIC GGUF_MAGIC" by (rule gc.tk_reads_n) (simp add: GGUF_MAGIC_def)
  have "gc.reads (\<lambda>cur. rbind (gc_u64 cur) (\<lambda>(kv_count, cur).
      rbind (ensure (unat n \<le> MAX_COUNT \<and> unat kv_count \<le> MAX_COUNT) DimsOverflow) (\<lambda>_.
      Inr ((version, n, kv_count), cur)))) (le64 m @ []) (version, n, m)"
    using assms by (intro gc.reads_bind [OF gc_u64_reads] gc.reads_ensure gc.reads_pure) simp_all
  then show ?thesis unfolding gguf_header_def [abs_def] using assms(1)
    by (intro gc.reads_bind [OF magic] gc.reads_ensure gc.reads_bind [OF gc_u32_reads]
        gc.reads_bind [OF gc_u64_reads]) simp_all
qed

lemma push_kvs_enc:
  assumes "foldR push_kv md (out, 0) = Inr (out', tot)"
  shows "(\<forall>kv\<in>set md. gv_ok 0 (snd kv)) \<and> out' = out @ concat (map kv_enc md) \<and>
    (\<Sum>kv\<leftarrow>md. gv_count (snd kv)) \<le> MAX_METADATA_ARRAY_ELEMENTS"
proof -
  have "(\<forall>kv\<in>set md. gv_ok 0 (snd kv)) \<and> out' = out @ concat (map kv_enc md) \<and>
      tot = 0 + (\<Sum>kv\<leftarrow>md. gv_count (snd kv)) \<and> tot \<le> MAX_METADATA_ARRAY_ELEMENTS"
  proof (rule foldR_appends [OF assms])
    fix kv out t out' t'
    assume r: "push_kv kv (out, t) = Inr (out', t')" "t \<le> MAX_METADATA_ARRAY_ELEMENTS"
    then show "gv_ok 0 (snd kv) \<and> out' = out @ kv_enc kv \<and> t' = t + gv_count (snd kv) \<and> t' \<le> MAX_METADATA_ARRAY_ELEMENTS"
      using push_value_enc [of "snd kv" "out @ push_gguf_string (fst kv)" t out' t']
      by (cases kv) (simp add: push_kv_def kv_enc_def)
  qed simp
  then show ?thesis by simp
qed

section \<open>Layouts and written containers\<close>

text \<open>What the layout of a container is.\<close>
definition layout_ok :: "u32 \<Rightarrow> GgufValue btree \<Rightarrow> GgufTensorSpec list \<Rightarrow> nat \<Rightarrow> nat \<Rightarrow> GgufLayout \<Rightarrow> bool" where
  "layout_ok version md ts a rel L \<longleftrightarrow>
    (version = 2 \<or> version = 3) \<and> metadata_alignment md = Inr a \<and> 0 < a \<and>
    placed a 0 (map sp_data_len ts) (la_offsets L) rel \<and> list_all spec_sized ts \<and>
    (\<forall>kv\<in>set md. gv_ok 0 (snd kv)) \<and> (\<Sum>kv\<leftarrow>md. gv_count (snd kv)) \<le> MAX_METADATA_ARRAY_ELEMENTS \<and>
    la_header L = (GGUF_MAGIC @ le32 version @ le64 (of_nat (length ts)) @ le64 (of_nat (length md)))
      @ concat (map kv_enc md) @ concat (map raw_enc (map raw_of (zip ts (la_offsets L)))) \<and>
    align_up (length (la_header L)) a = Inr (la_tensor_data_offset L) \<and>
    la_tensor_data_offset L + rel \<le> usize_MAX"

lemma metadata_alignment_pos: "metadata_alignment md = Inr a \<Longrightarrow> 0 < a"
  by (auto simp: metadata_alignment_def gguf_consts unat_gt_0 split: option.splits GgufValue.splits if_splits)

lemma build_layout_ok:
  assumes "build_layout version md ts = Inr L"
  shows "\<exists>a rel. layout_ok version md ts a rel L"
proof -
  let ?h = "GGUF_MAGIC @ le32 version @ le64 (of_nat (length ts)) @ le64 (of_nat (length md))"
  obtain a offsets rel header tot tdo where
    v: "version = 2 \<or> version = 3" and a: "metadata_alignment md = Inr a"
    and lay: "foldR (layout_step a) ts ([], 0) = Inr (offsets, rel)"
    and kv: "foldR push_kv md (?h, 0) = Inr (header, tot)"
    and tdo: "align_up (length (header @ concat (map push_tensor_info (zip ts offsets)))) a = Inr tdo"
    and fit: "tdo + rel \<le> usize_MAX"
    and L: "L = \<lparr>la_header = header @ concat (map push_tensor_info (zip ts offsets)),
      la_tensor_data_offset = tdo, la_offsets = offsets\<rparr>"
    using assms by (auto simp: build_layout_def Let_def rbind_eq_Inr split: if_splits)
  have pos: "0 < a" using metadata_alignment_pos [OF a] .
  have p: "placed a 0 (map sp_data_len ts) offsets rel" "list_all spec_sized ts"
    using layout_fold [OF lay pos] by auto
  have infos: "map push_tensor_info (zip ts offsets) = map raw_enc (map raw_of (zip ts offsets))"
    by (simp add: push_tensor_info_raw)
  show ?thesis unfolding layout_ok_def
    using v a pos p push_kvs_enc [OF kv] tdo fit L infos by (intro exI [of _ a] exI [of _ rel]) simp
qed

lemma write_gguf_bytes:
  assumes "write_gguf version md ts = Inr out"
  shows "\<exists>a rel L. layout_ok version md (map spec_of ts) a rel L \<and>
    length out = la_tensor_data_offset L + rel \<and>
    out = la_header L @ replicate (la_tensor_data_offset L - length (la_header L)) 0
      @ data_section 0 (map to_data ts) (la_offsets L)"
proof -
  obtain L where L: "build_layout version md (map spec_of ts) = Inr L"
    and f: "foldR (append_payload (la_tensor_data_offset L)) (zip ts (la_offsets L))
      (resize (la_tensor_data_offset L) (la_header L)) = Inr out"
    using assms by (auto simp: write_gguf_def rbind_eq_Inr)
  obtain a rel where ok: "layout_ok version md (map spec_of ts) a rel L" using build_layout_ok [OF L] by blast
  have le: "length (la_header L) \<le> la_tensor_data_offset L"
    using ok align_up_eq_Inr by (auto simp: layout_ok_def)
  have "map sp_data_len (map spec_of ts) = map length (map to_data ts)" by (simp add: spec_of_def)
  then have p: "placed a 0 (map length (map to_data ts)) (la_offsets L) rel"
    using ok unfolding layout_ok_def by metis
  then have "foldR (append_payload (la_tensor_data_offset L)) (zip ts (la_offsets L))
      (resize (la_tensor_data_offset L) (la_header L))
    = Inr (resize (la_tensor_data_offset L) (la_header L) @ data_section 0 (map to_data ts) (la_offsets L))"
    using ok le by (intro append_payload_fold) (auto simp: layout_ok_def resize_def)
  with f have "out = la_header L @ replicate (la_tensor_data_offset L - length (la_header L)) 0
      @ data_section 0 (map to_data ts) (la_offsets L)"
    using le by (simp add: resize_def)
  then show ?thesis using ok le data_section_length [OF p] by auto
qed

section \<open>Reading a written container\<close>

definition info_of :: "TensorOut \<Rightarrow> nat \<Rightarrow> TensorInfo" where
  "info_of t off = \<lparr>ti_name = to_name t, ti_dims = to_dims t, ti_ggml_type = to_ggml_type t, ti_offset = of_nat off,
     ti_n_bytes = (if tensor_type_is_sized (to_ggml_type t) then length (to_data t) else 0)\<rparr>"

lemma size_tensor_written:
  assumes "spec_sized (spec_of t)" "is_ok (element_count (to_dims t))"
    and "off + length (to_data t) \<le> rel" "off + length (to_data t) \<le> usize_MAX"
  shows "size_tensor rel (raw_of (spec_of t, off)) = Inr (info_of t off)"
proof -
  have u: "unat (of_nat off :: u64) = off" using assms(4) by (simp add: unat_of_nat usize_MAX_def)
  obtain n where n: "element_count (to_dims t) = Inr n" using assms(2) by (auto simp: is_ok_iff)
  show ?thesis using assms n u
    by (auto simp: size_tensor_def raw_of_def spec_of_def info_of_def spec_sized_def checked_add_def)
qed

text \<open>What a container must satisfy, beyond what the writer checks, for the reader to accept it.\<close>
definition readable :: "GgufValue btree \<Rightarrow> TensorOut list \<Rightarrow> bool" where
  "readable md ts \<longleftrightarrow>
     list_all (\<lambda>(k, v). str_ok k \<and> gv_strings_ok v) md \<and> length md \<le> MAX_COUNT \<and> length ts \<le> MAX_COUNT \<and>
     list_all (\<lambda>t. str_ok (to_name t) \<and> length (to_dims t) \<le> MAX_DIMS \<and> is_ok (element_count (to_dims t))) ts"

lemma size_tensors_written:
  assumes "placed a 0 (map sp_data_len (map spec_of ts)) os rel" "list_all spec_sized (map spec_of ts)"
    and "list_all (\<lambda>t. is_ok (element_count (to_dims t))) ts"
  shows "mapR (size_tensor rel) (map raw_of (zip (map spec_of ts) os)) = Inr (map2 info_of ts os)"
proof -
  have len: "length os = length ts" using placed_length [OF assms(1)] by simp
  have "mapR (\<lambda>(t, off). size_tensor rel (raw_of (spec_of t, off))) (zip ts os)
      = Inr (map (\<lambda>(t, off). info_of t off) (zip ts os))"
  proof (rule mapR_map)
    fix x
    assume "x \<in> set (zip ts os)"
    then obtain i where i: "i < length ts" "x = (ts ! i, os ! i)" using len by (auto simp: set_zip)
    have "os ! i + length (to_data (ts ! i)) \<le> rel" "os ! i + length (to_data (ts ! i)) \<le> usize_MAX"
      using placed_nth [OF assms(1), of i] i by (simp_all add: spec_of_def)
    moreover have "spec_sized (spec_of (ts ! i))" "is_ok (element_count (to_dims (ts ! i)))"
      using assms(2,3) i(1) by (auto simp: list_all_length)
    ultimately show "(case x of (t, off) \<Rightarrow> size_tensor rel (raw_of (spec_of t, off)))
        = Inr (case x of (t, off) \<Rightarrow> info_of t off)"
      using i(2) size_tensor_written by simp
  qed
  moreover have "map raw_of (zip (map spec_of ts) os) = map (\<lambda>(t, off). raw_of (spec_of t, off)) (zip ts os)"
    by (simp add: zip_map1 case_prod_beta comp_def)
  ultimately show ?thesis unfolding case_prod_unfold by (simp add: mapR_map_comp)
qed

lemma read_written_tables:
  assumes ok: "layout_ok version md (map spec_of ts) a rel L" and rd: "readable md ts" and md: "btree_inv md"
    and out: "out = la_header L @ tail" "length out \<le> usize_MAX"
    and len: "length out - la_tensor_data_offset L = rel"
  shows "read_gguf out = Inr \<lparr>gf_version = version, gf_metadata = md, gf_tensors = map2 info_of ts (la_offsets L),
    gf_tensor_data_offset = la_tensor_data_offset L\<rparr>"
proof -
  let ?h = "GGUF_MAGIC @ le32 version @ le64 (of_nat (length ts)) @ le64 (of_nat (length md))"
  let ?kv = "concat (map kv_enc md)" and ?raws = "map raw_of (zip (map spec_of ts) (la_offsets L))"
  let ?ti = "concat (map raw_enc ?raws)"
  have v: "version = 2 \<or> version = 3" and al: "metadata_alignment md = Inr a"
    and p: "placed a 0 (map sp_data_len (map spec_of ts)) (la_offsets L) rel" "list_all spec_sized (map spec_of ts)"
    and kv_ok: "\<forall>kv\<in>set md. gv_ok 0 (snd kv)" "(\<Sum>kv\<leftarrow>md. gv_count (snd kv)) \<le> MAX_METADATA_ARRAY_ELEMENTS"
    and hd: "la_header L = ?h @ ?kv @ ?ti"
    and tdo: "align_up (length (la_header L)) a = Inr (la_tensor_data_offset L)"
    using ok unfolding layout_ok_def length_map by blast+
  have u: "unat (of_nat (length ts) :: u64) = length ts" "unat (of_nat (length md) :: u64) = length md"
    using rd by (simp_all add: readable_def gguf_consts unat_of_nat)
  have s0: "gc_inv (gc_new out)" "gc_rest (gc_new out) = ?h @ ?kv @ ?ti @ tail"
    using gc_new_start out hd by simp_all
  let ?c1 = "gc_adv (length ?h) (gc_new out)"
  have r1: "gguf_header (gc_new out) = Inr ((version, of_nat (length ts), of_nat (length md)), ?c1)"
    by (rule gc.readsD [OF gguf_header_reads [OF v] s0]) (use rd u in \<open>simp_all add: readable_def\<close>)
  have s1: "gc_inv ?c1" "gc_rest ?c1 = ?kv @ ?ti @ tail" using gc.adv_state [OF s0] by simp_all
  let ?c2 = "gc_adv (length ?kv) ?c1"
  have "vreads (repeatR (length md) read_kv) ?kv (\<Sum>kv\<leftarrow>md. gv_count (snd kv)) md"
    by (rule vreads_repeat) (use rd kv_ok read_kv_vreads in \<open>fastforce simp: readable_def list_all_iff\<close>)
  then have r2: "repeatR (length md) read_kv (?c1, 0) = Inr (md, (?c2, 0 + (\<Sum>kv\<leftarrow>md. gv_count (snd kv))))"
    by (rule vreadsD [OF _ s1]) (simp add: kv_ok)
  have s2: "gc_inv ?c2" "gc_rest ?c2 = ?ti @ tail" using gc.adv_state [OF s1] by simp_all
  let ?c3 = "gc_adv (length ?ti) ?c2"
  have lenr: "length ?raws = length ts" using placed_length [OF p(1)] by simp
  have "gc.reads (repeatR (length ?raws) read_raw_tensor) ?ti ?raws"
  proof (rule gc.reads_repeat)
    fix x
    assume "x \<in> set ?raws"
    then obtain t off where "t \<in> set ts" and x: "x = raw_of (spec_of t, off)"
      by (auto simp: zip_map1 dest: set_zip_leftD)
    then show "gc.reads read_raw_tensor (raw_enc x) x"
      using rd read_raw_tensor_reads by (auto simp: readable_def list_all_iff raw_of_def spec_of_def)
  qed
  then have r3: "repeatR (length ts) read_raw_tensor ?c2 = Inr (?raws, ?c3)"
    unfolding lenr by (rule gc.readsD [OF _ s2])
  have "gc_pos ?c3 = length (la_header L)" by (simp add: gc_adv_def gc_new_def hd)
  moreover have "mapR (size_tensor rel) ?raws = Inr (map2 info_of ts (la_offsets L))"
    using rd by (intro size_tensors_written [OF p]) (auto simp: readable_def list_all_iff)
  ultimately show ?thesis using r1 r2 r3 u al tdo len btree_rebuild [OF md]
    by (simp add: read_gguf_def)
qed

lemma read_written:
  assumes "write_gguf version md ts = Inr out" and "btree_inv md" and "readable md ts"
  shows "\<exists>f. read_gguf out = Inr f"
proof -
  obtain a rel L tail where ok: "layout_ok version md (map spec_of ts) a rel L"
    and len: "length out = la_tensor_data_offset L + rel" and out: "out = la_header L @ tail"
    using write_gguf_bytes [OF assms(1)] by blast
  then show ?thesis using read_written_tables [OF ok assms(3,2) out] by (simp add: layout_ok_def)
qed

text \<open>C2: a container that \<open>write_gguf\<close> produced reads back: the reader returns the version, the metadata and the
  tensor table that were written, every payload lies at the offset the table gives it, and offsets are
  multiples of the file alignment.  The metadata is a map in key order and the strings, counts, dimension counts
  and element counts are within the reader's bounds, which the writer does not itself enforce.\<close>
theorem gguf_roundtrip:
  assumes "write_gguf version md ts = Inr out" and "btree_inv md" and "readable md ts"
  shows "\<exists>f. read_gguf out = Inr f \<and> gf_version f = version \<and> gf_metadata f = md \<and>
    length (gf_tensors f) = length ts \<and>
    (\<forall>i<length ts. let t = ts ! i; info = gf_tensors f ! i in
       ti_name info = to_name t \<and> ti_dims info = to_dims t \<and> ti_ggml_type info = to_ggml_type t \<and>
       (tensor_type_is_sized (to_ggml_type t) \<longrightarrow> ti_n_bytes info = length (to_data t)) \<and>
       gf_alignment f dvd unat (ti_offset info) \<and>
       window (gf_tensor_data_offset f + unat (ti_offset info)) (length (to_data t)) out = to_data t)"
proof -
  obtain a rel L where ok: "layout_ok version md (map spec_of ts) a rel L"
    and len: "length out = la_tensor_data_offset L + rel"
    and out: "out = la_header L @ replicate (la_tensor_data_offset L - length (la_header L)) 0
      @ data_section 0 (map to_data ts) (la_offsets L)"
    using write_gguf_bytes [OF assms(1)] by blast
  let ?tdo = "la_tensor_data_offset L" and ?os = "la_offsets L"
  let ?ds = "data_section 0 (map to_data ts) ?os"
  have p: "placed a 0 (map length (map to_data ts)) ?os rel"
    using ok by (simp add: layout_ok_def spec_of_def comp_def)
  have le: "length (la_header L) \<le> ?tdo" using ok align_up_eq_Inr by (auto simp: layout_ok_def)
  have rd: "read_gguf out = Inr \<lparr>gf_version = version, gf_metadata = md, gf_tensors = map2 info_of ts ?os,
      gf_tensor_data_offset = ?tdo\<rparr>"
    by (rule read_written_tables [OF ok assms(3,2) out]) (use len ok in \<open>simp_all add: layout_ok_def\<close>)
  have lo: "length ?os = length ts" using placed_length [OF p] by simp
  have "(map2 info_of ts ?os) ! i = info_of (ts ! i) (?os ! i) \<and> a dvd ?os ! i \<and> unat (of_nat (?os ! i) :: u64) = ?os ! i \<and>
      window (?tdo + ?os ! i) (length (to_data (ts ! i))) out = to_data (ts ! i)" if i: "i < length ts" for i
  proof -
    have "window (?tdo + ?os ! i) n out = window (?os ! i) n ?ds" for n
      using le by (simp add: out window_def)
    moreover have "window (?os ! i) (length (to_data (ts ! i))) ?ds = to_data (ts ! i)"
      using data_section_window [OF p, of i] i by simp
    moreover have "a dvd ?os ! i" "?os ! i \<le> usize_MAX" using placed_nth [OF p, of i] i by auto
    ultimately show ?thesis using i lo by (simp add: unat_of_nat usize_MAX_def)
  qed
  moreover have "metadata_alignment md = Inr a" using ok by (simp add: layout_ok_def)
  ultimately show ?thesis using rd lo by (auto simp: info_of_def gf_alignment_def Let_def)
qed

definition sample_metadata :: "GgufValue btree" where
  "sample_metadata = [(ascii ''k'', VArray [VU8 1, VU8 2])]"

definition sample_tensors :: "TensorOut list" where
  "sample_tensors = [\<lparr>to_name = ascii ''t'', to_dims = [2], to_ggml_type = 24, to_data = [1, 255]\<rparr>]"

lemma sample_write: "is_ok (write_gguf 3 sample_metadata sample_tensors)"
  by (simp add: sample_metadata_def sample_tensors_def write_gguf_def build_layout_def metadata_alignment_def
      btree_get_def ascii_def layout_step_def spec_of_def tensor_n_bytes_def tensor_type_is_sized_def
      type_block_layout_def align_up_def push_kv_def push_value_def push_value_payload.simps child_tag_def
      append_payload_def push_tensor_info_def push_gguf_string_def gguf_consts checked_add_def checked_mul_def
      usize_MAX_def GGUF_MAGIC_def)

lemma sample_readable: "btree_inv sample_metadata" "readable sample_metadata sample_tensors"
  by (simp_all add: btree_inv_def readable_def sample_metadata_def sample_tensors_def str_ok_def ascii_def
      gguf_consts element_count_def checked_mul_def usize_MAX_def)

theorem gguf_roundtrip_witness:
  "\<exists>out f. write_gguf 3 sample_metadata sample_tensors = Inr out \<and> read_gguf out = Inr f \<and>
     gf_metadata f = sample_metadata \<and> ti_n_bytes (gf_tensors f ! 0) = 2"
proof -
  obtain out where w: "write_gguf 3 sample_metadata sample_tensors = Inr out"
    using sample_write by (auto simp: is_ok_iff)
  obtain f where "read_gguf out = Inr f" "gf_metadata f = sample_metadata" "ti_n_bytes (gf_tensors f ! 0) = 2"
    using gguf_roundtrip [OF w sample_readable]
    by (auto simp: sample_tensors_def Let_def tensor_type_is_sized_def type_block_layout_def gguf_consts)
  with w show ?thesis by blast
qed

section \<open>What the reader guarantees on any input\<close>

lemma fold_btree_inv: "btree_inv m \<Longrightarrow> btree_inv (fold (\<lambda>(k, v). btree_insert k v) kvs m)"
  by (induction kvs arbitrary: m) (auto simp: btree_insert_inv)

lemma size_tensor_eq_Inr:
  assumes "size_tensor len raw = Inr t"
  shows "tensor_n_bytes (ti_ggml_type t) (ti_dims t) = Inr (ti_n_bytes t) \<and> is_ok (element_count (ti_dims t)) \<and>
    unat (ti_offset t) + ti_n_bytes t \<le> len"
  using assms by (cases raw) (auto simp: size_tensor_def rbind_eq_Inr is_ok_iff split: if_splits)

text \<open>Well-formedness of a container description over its buffer.\<close>
definition gguf_wf :: "bytes \<Rightarrow> GgufFile \<Rightarrow> bool" where
  "gguf_wf buf f \<longleftrightarrow> (gf_version f = 2 \<or> gf_version f = 3) \<and> btree_inv (gf_metadata f) \<and>
    gf_alignment f dvd gf_tensor_data_offset f \<and>
    list_all (\<lambda>t. tensor_n_bytes (ti_ggml_type t) (ti_dims t) = Inr (ti_n_bytes t) \<and>
       (ti_n_bytes t = 0 \<or> gf_tensor_data_offset f + unat (ti_offset t) + ti_n_bytes t \<le> length buf)) (gf_tensors f)"

lemma gguf_wf_finish:
  assumes "gguf_header c = Inr ((version, n, m), cur)"
    and a: "metadata_alignment (fold (\<lambda>(k, v). btree_insert k v) kvs []) = Inr a"
    and tdo: "align_up pos a = Inr tdo"
    and t: "mapR (size_tensor (length buf - tdo)) raws = Inr tensors"
  shows "gguf_wf buf \<lparr>gf_version = version, gf_metadata = fold (\<lambda>(k, v). btree_insert k v) kvs [],
    gf_tensors = tensors, gf_tensor_data_offset = tdo\<rparr>"
proof -
  have "version = 2 \<or> version = 3" using assms(1) by (auto simp: gguf_header_def rbind_eq_Inr)
  moreover have "a dvd tdo" using align_up_eq_Inr [OF tdo metadata_alignment_pos [OF a]] by simp
  moreover have "tensor_n_bytes (ti_ggml_type x) (ti_dims x) = Inr (ti_n_bytes x) \<and>
      (ti_n_bytes x = 0 \<or> tdo + unat (ti_offset x) + ti_n_bytes x \<le> length buf)" if "x \<in> set tensors" for x
  proof -
    have "tensor_n_bytes (ti_ggml_type x) (ti_dims x) = Inr (ti_n_bytes x)"
      and le: "unat (ti_offset x) + ti_n_bytes x \<le> length buf - tdo"
      using mapR_Inr_in [OF t that] size_tensor_eq_Inr by blast+
    moreover have "ti_n_bytes x = 0 \<or> tdo + unat (ti_offset x) + ti_n_bytes x \<le> length buf" using le by arith
    ultimately show ?thesis by simp
  qed
  moreover have "btree_inv (fold (\<lambda>(k, v). btree_insert k v) kvs [])"
    by (rule fold_btree_inv) (simp add: btree_inv_def)
  ultimately show ?thesis using a by (simp add: gguf_wf_def gf_alignment_def list_all_iff)
qed

text \<open>C22: whatever bytes are read, an accepted container has a supported version, metadata in key order, an
  aligned data section, and a tensor table in which every entry's byte size is the one its type and shape
  prescribe and every payload lies inside the buffer.\<close>
theorem read_gguf_wf:
  assumes "read_gguf buf = Inr f"
  shows "gguf_wf buf f"
  using assms
  by (clarsimp simp: read_gguf_def rbind_eq_Inr Let_def) (rule gguf_wf_finish; assumption)

section \<open>Containers only the writer accepts\<close>

lemma read_raw_tensor_too_many_dims:
  assumes "str_ok name" "MAX_DIMS < length dims" "length dims < 2 ^ 32"
    and "gc_inv c" "gc_rest c = raw_enc (name, dims, ty, off) @ ts"
  shows "read_raw_tensor c = Inl DimsOverflow"
proof -
  let ?c1 = "gc_adv (length (push_gguf_string name)) c"
  have rest: "gc_rest c = push_gguf_string name @ le32 (of_nat (length dims)) @ concat (map le64 dims) @ le32 ty @ le64 off @ ts"
    using assms(5) by (simp add: raw_enc_def)
  have 1: "gguf_string c = Inr (name, ?c1)"
    by (rule gc.readsD [OF gguf_string_reads [OF assms(1)] assms(4) rest])
  have st: "gc_inv ?c1" "gc_rest ?c1 = le32 (of_nat (length dims)) @ concat (map le64 dims) @ le32 ty @ le64 off @ ts"
    using gc.adv_state [OF assms(4) rest] by simp_all
  have "gc_u32 ?c1 = Inr (of_nat (length dims), gc_adv 4 ?c1)"
    using gc.readsD [OF gc_u32_reads st] by simp
  moreover have "unat (of_nat (length dims) :: u32) = length dims" using assms(3) by (simp add: unat_of_nat)
  ultimately show ?thesis using 1 assms(2) by (simp add: read_raw_tensor_def)
qed

text \<open>The writer does not enforce the reader's bounds: a container with a tensor of more than eight dimensions
  that is written without error is refused when it is read.\<close>
lemma gguf_write_beyond_reader:
  assumes "write_gguf version [] [t] = Inr out"
    and "str_ok (to_name t)" "MAX_DIMS < length (to_dims t)" "length (to_dims t) < 2 ^ 32"
  shows "read_gguf out = Inl DimsOverflow"
proof -
  obtain a rel L where ok: "layout_ok version [] (map spec_of [t]) a rel L"
    and len: "length out = la_tensor_data_offset L + rel"
    and out: "out = la_header L @ replicate (la_tensor_data_offset L - length (la_header L)) 0
      @ data_section 0 (map to_data [t]) (la_offsets L)"
    using write_gguf_bytes [OF assms(1)] by blast
  have v: "version = 2 \<or> version = 3" and p: "placed a 0 [length (to_data t)] (la_offsets L) rel"
    using ok by (simp_all add: layout_ok_def spec_of_def)
  then obtain off where os: "la_offsets L = [off]"
    using placed_length [OF p] by (auto simp: length_Suc_conv)
  let ?h = "GGUF_MAGIC @ le32 version @ le64 1 @ le64 0"
  let ?raw = "(to_name t, to_dims t, to_ggml_type t, of_nat off :: u64)"
  obtain tail where o: "out = ?h @ raw_enc ?raw @ tail"
    using ok out os by (simp add: layout_ok_def raw_of_def spec_of_def)
  have "length out \<le> usize_MAX" using ok len by (simp add: layout_ok_def)
  then have s0: "gc_inv (gc_new out)" "gc_rest (gc_new out) = ?h @ raw_enc ?raw @ tail"
    using gc_new_start o by simp_all
  have r1: "gguf_header (gc_new out) = Inr ((version, 1, 0), gc_adv (length ?h) (gc_new out))"
    by (rule gc.readsD [OF gguf_header_reads [OF v] s0]) (simp_all add: gguf_consts)
  have "read_raw_tensor (gc_adv (length ?h) (gc_new out)) = Inl DimsOverflow"
    by (rule read_raw_tensor_too_many_dims [OF assms(2-4)]) (use gc.adv_state [OF s0] in simp_all)
  with r1 show ?thesis by (simp add: read_gguf_def metadata_alignment_def btree_get_def)
qed

theorem read_gguf_wf_witness:
  "\<exists>out f. write_gguf 3 sample_metadata sample_tensors = Inr out \<and> read_gguf out = Inr f \<and> gguf_wf out f"
proof -
  obtain out where w: "write_gguf 3 sample_metadata sample_tensors = Inr out"
    using sample_write by (auto simp: is_ok_iff)
  obtain f where f: "read_gguf out = Inr f" using read_written [OF w sample_readable] by blast
  with w read_gguf_wf [OF f] show ?thesis by blast
qed

end
