(* ===== verification/GgufStream.thy ===== *)
theory GgufStream
  imports GgufRound
begin

text \<open>
  \<open>GgufStreamWriter\<close> of \<open>gguf_write.rs\<close>: a writer that emits the header at construction and then accepts the
  payloads chunk by chunk.  The destination is a parameter: \<open>wr\<close> is \<open>Write::write_all\<close>, which may fail after
  writing some of its bytes, and \<open>fl\<close> is \<open>Write::flush\<close>.  Every operation returns its result together with the
  writer it leaves, because a failed call may have changed it.  The locale \<open>io_writer\<close> states what the
  stream relies on (a successful \<open>write_all\<close> appends its bytes); it is interpreted on \<open>Vec<u8>\<close>.
\<close>

section \<open>The stream writer\<close>

datatype 'io GgufWriteError =
    WGguf GgufError
  | WIo 'io
  | TensorOutOfOrder nat nat
  | StreamComplete nat
  | TensorTooLong nat nat nat
  | TensorTooShort nat nat nat
  | Poisoned

record 'w GgufStreamWriter =
  sw_writer :: 'w
  sw_tensor_lengths :: "nat list"
  sw_offsets :: "nat list"
  sw_tensor_data_offset :: nat
  sw_position :: nat
  sw_next_tensor :: nat
  sw_tensor_written :: nat
  sw_poisoned :: bool

type_synonym ('io, 'w) write_all = "bytes \<Rightarrow> 'w \<Rightarrow> ('io + unit) \<times> 'w"
type_synonym ('io, 'w) step = "'w GgufStreamWriter \<Rightarrow> ('io GgufWriteError + unit) \<times> 'w GgufStreamWriter"

definition STREAM_WRITE_CHUNK_BYTES :: nat where "STREAM_WRITE_CHUNK_BYTES = 8 * 1024"

text \<open>\<open>bytes.chunks(n)\<close>.\<close>
function chunks :: "nat \<Rightarrow> bytes \<Rightarrow> bytes list" where
  "chunks n bs = (if n = 0 \<or> bs = [] then [] else take n bs # chunks n (drop n bs))"
  by pat_completeness auto
termination
  by (relation "measure (\<lambda>(n, bs). length bs)") (auto simp: neq_Nil_conv)

declare chunks.simps [simp del]

fun write_chunks :: "('io, 'w) write_all \<Rightarrow> bytes list \<Rightarrow> 'w \<Rightarrow> ('io + unit) \<times> 'w" where
  "write_chunks wr [] w = (Inr (), w)"
| "write_chunks wr (c # cs) w =
    (case wr c w of (Inl e, w) \<Rightarrow> (Inl e, w) | (Inr _, w) \<Rightarrow> write_chunks wr cs w)"

definition write_all_bounded :: "('io, 'w) write_all \<Rightarrow> bytes \<Rightarrow> 'w \<Rightarrow> ('io + unit) \<times> 'w" where
  "write_all_bounded wr bs w = write_chunks wr (chunks STREAM_WRITE_CHUNK_BYTES bs) w"

function pad_loop :: "('io, 'w) write_all \<Rightarrow> nat \<Rightarrow> ('io, 'w) step" where
  "pad_loop wr remaining sw =
    (if remaining = 0 then (Inr (), sw)
     else
       let count = min remaining STREAM_WRITE_CHUNK_BYTES in
       (case wr (replicate count 0) (sw_writer sw) of
          (Inl e, w) \<Rightarrow> (Inl (WIo e), sw\<lparr>sw_writer := w, sw_poisoned := True\<rparr>)
        | (Inr _, w) \<Rightarrow>
            pad_loop wr (remaining - count) (sw\<lparr>sw_writer := w, sw_position := sw_position sw + count\<rparr>)))"
  by pat_completeness auto
termination
  by (relation "measure (\<lambda>(wr, remaining, sw). remaining)") (auto simp: STREAM_WRITE_CHUNK_BYTES_def)

declare pad_loop.simps [simp del]

definition stream_pad_to :: "('io, 'w) write_all \<Rightarrow> nat \<Rightarrow> ('io, 'w) step" where
  "stream_pad_to wr target sw =
    (case checked_sub target (sw_position sw) of
       None \<Rightarrow> (Inl (WGguf DimsOverflow), sw)
     | Some remaining \<Rightarrow> pad_loop wr remaining sw)"

lemma pad_loop_fields:
  "pad_loop wr n sw = (r, sw') \<Longrightarrow>
     sw_tensor_lengths sw' = sw_tensor_lengths sw \<and> sw_next_tensor sw' = sw_next_tensor sw \<and>
     sw_offsets sw' = sw_offsets sw \<and> sw_tensor_data_offset sw' = sw_tensor_data_offset sw \<and>
     sw_tensor_written sw' = sw_tensor_written sw \<and>
     (sw_poisoned sw' \<longleftrightarrow> sw_poisoned sw \<or> (\<exists>e. r = Inl (WIo e))) \<and> (\<forall>e. r = Inl e \<longrightarrow> (\<exists>io. e = WIo io))"
proof (induction wr n sw arbitrary: r sw' rule: pad_loop.induct)
  case (1 wr n sw)
  show ?case
  proof (cases "n = 0")
    case True
    with 1 show ?thesis by (auto simp: pad_loop.simps [of wr 0])
  next
    case False
    obtain r' w where w: "wr (replicate (min n STREAM_WRITE_CHUNK_BYTES) 0) (sw_writer sw) = (r', w)"
      by (metis surj_pair)
    show ?thesis
    proof (cases r')
      case (Inl e)
      with 1 False w show ?thesis by (auto simp: pad_loop.simps [of wr n] Let_def)
    next
      case (Inr u)
      with 1(2) False w have "pad_loop wr (n - min n STREAM_WRITE_CHUNK_BYTES)
          (sw\<lparr>sw_writer := w, sw_position := sw_position sw + min n STREAM_WRITE_CHUNK_BYTES\<rparr>) = (r, sw')"
        by (simp add: pad_loop.simps [of wr n] Let_def)
      from 1(1) [OF False refl w [symmetric] Inr this] show ?thesis by simp
    qed
  qed
qed

lemma stream_pad_to_fields:
  "stream_pad_to wr n sw = (r, sw') \<Longrightarrow>
     sw_tensor_lengths sw' = sw_tensor_lengths sw \<and> sw_next_tensor sw' = sw_next_tensor sw \<and>
     sw_offsets sw' = sw_offsets sw \<and> sw_tensor_data_offset sw' = sw_tensor_data_offset sw \<and>
     sw_tensor_written sw' = sw_tensor_written sw \<and>
     (sw_poisoned sw' \<longleftrightarrow> sw_poisoned sw \<or> (\<exists>e. r = Inl (WIo e))) \<and>
     (\<forall>e. r = Inl e \<longrightarrow> (\<exists>io. e = WIo io) \<or> e = WGguf DimsOverflow)"
  using pad_loop_fields [of wr "n - sw_position sw" sw r sw']
  by (auto simp: stream_pad_to_def checked_sub_def split: option.splits if_splits)

function prepare_next_tensor :: "('io, 'w) write_all \<Rightarrow> ('io, 'w) step" where
  "prepare_next_tensor wr sw =
    (if sw_next_tensor sw < length (sw_tensor_lengths sw) then
       (case checked_add (sw_tensor_data_offset sw) (sw_offsets sw ! sw_next_tensor sw) of
          None \<Rightarrow> (Inl (WGguf DimsOverflow), sw)
        | Some target \<Rightarrow>
            (case stream_pad_to wr target sw of
               (Inl e, sw') \<Rightarrow> (Inl e, sw')
             | (Inr _, sw') \<Rightarrow>
                 if sw_tensor_lengths sw' ! sw_next_tensor sw' \<noteq> 0 then (Inr (), sw')
                 else prepare_next_tensor wr (sw'\<lparr>sw_next_tensor := sw_next_tensor sw' + 1\<rparr>)))
     else (Inr (), sw))"
  by pat_completeness auto
termination
  by (relation "measure (\<lambda>(wr, sw). length (sw_tensor_lengths sw) - sw_next_tensor sw)")
    (auto dest!: sym [THEN stream_pad_to_fields])

declare prepare_next_tensor.simps [simp del]

definition stream_new :: "('io, 'w) write_all \<Rightarrow> 'w \<Rightarrow> u32 \<Rightarrow> GgufValue btree \<Rightarrow> GgufTensorSpec list
    \<Rightarrow> 'io GgufWriteError + 'w GgufStreamWriter" where
  "stream_new wr w version metadata tensors =
    rbind (map_err WGguf (build_layout version metadata tensors)) (\<lambda>layout.
    (case write_all_bounded wr (la_header layout) w of
       (Inl e, w) \<Rightarrow> Inl (WIo e)
     | (Inr _, w) \<Rightarrow>
         (let stream = \<lparr>sw_writer = w, sw_tensor_lengths = map sp_data_len tensors, sw_offsets = la_offsets layout,
                sw_tensor_data_offset = la_tensor_data_offset layout, sw_position = length (la_header layout),
                sw_next_tensor = 0, sw_tensor_written = 0, sw_poisoned = False\<rparr> in
          case stream_pad_to wr (sw_tensor_data_offset stream) stream of
            (Inl e, _) \<Rightarrow> Inl e
          | (Inr _, stream) \<Rightarrow>
              (case prepare_next_tensor wr stream of
                 (Inl e, _) \<Rightarrow> Inl e
               | (Inr _, stream) \<Rightarrow> Inr stream))))"

definition write_tensor_chunk :: "('io, 'w) write_all \<Rightarrow> nat \<Rightarrow> bytes \<Rightarrow> ('io, 'w) step" where
  "write_tensor_chunk wr tensor_index chunk sw =
    (if sw_poisoned sw then (Inl Poisoned, sw)
     else if sw_next_tensor sw = length (sw_tensor_lengths sw) then (Inl (StreamComplete tensor_index), sw)
     else if tensor_index \<noteq> sw_next_tensor sw then
       (Inl (TensorOutOfOrder (sw_next_tensor sw) tensor_index), sw)
     else
       let expected = sw_tensor_lengths sw ! tensor_index in
       (case checked_add (sw_tensor_written sw) (length chunk) of
          None \<Rightarrow> (Inl (TensorTooLong tensor_index expected usize_MAX), sw)
        | Some attempted \<Rightarrow>
            if expected < attempted then (Inl (TensorTooLong tensor_index expected attempted), sw)
            else
              (case write_all_bounded wr chunk (sw_writer sw) of
                 (Inl e, w) \<Rightarrow> (Inl (WIo e), sw\<lparr>sw_writer := w, sw_poisoned := True\<rparr>)
               | (Inr _, w) \<Rightarrow>
                   let sw = sw\<lparr>sw_writer := w\<rparr> in
                   (case checked_add (sw_position sw) (length chunk) of
                      None \<Rightarrow> (Inl (WGguf DimsOverflow), sw)
                    | Some pos \<Rightarrow>
                        let sw = sw\<lparr>sw_position := pos, sw_tensor_written := attempted\<rparr> in
                        if attempted = expected
                        then prepare_next_tensor wr
                               (sw\<lparr>sw_next_tensor := sw_next_tensor sw + 1, sw_tensor_written := 0\<rparr>)
                        else (Inr (), sw)))))"

definition stream_finish :: "('w \<Rightarrow> 'io + 'w) \<Rightarrow> 'w GgufStreamWriter \<Rightarrow> 'io GgufWriteError + 'w" where
  "stream_finish fl sw =
    (if sw_poisoned sw then Inl Poisoned
     else if sw_next_tensor sw < length (sw_tensor_lengths sw) then
       Inl (TensorTooShort (sw_next_tensor sw) (sw_tensor_lengths sw ! sw_next_tensor sw) (sw_tensor_written sw))
     else map_err WIo (fl (sw_writer sw)))"

text \<open>A caller that feeds chunks in order and stops at the first error.\<close>
fun run_chunks :: "('io, 'w) write_all \<Rightarrow> (nat \<times> bytes) list \<Rightarrow> ('io, 'w) step" where
  "run_chunks wr [] sw = (Inr (), sw)"
| "run_chunks wr ((i, chunk) # calls) sw =
    (case write_tensor_chunk wr i chunk sw of (Inl e, sw) \<Rightarrow> (Inl e, sw) | (Inr _, sw) \<Rightarrow> run_chunks wr calls sw)"

text \<open>A caller that goes on after errors: the result of every call and the stream at the end.\<close>
fun write_calls :: "('io, 'w) write_all \<Rightarrow> (nat \<times> bytes) list \<Rightarrow> 'w GgufStreamWriter
    \<Rightarrow> ('io GgufWriteError + unit) list \<times> 'w GgufStreamWriter" where
  "write_calls wr [] sw = ([], sw)"
| "write_calls wr ((i, chunk) # calls) sw =
    (let (r, sw) = write_tensor_chunk wr i chunk sw; (rs, sw) = write_calls wr calls sw in (r # rs, sw))"

text \<open>The errors that say that a chunk does not belong here.\<close>
fun refused :: "'io GgufWriteError + unit \<Rightarrow> bool" where
  "refused (Inl (StreamComplete _)) = True"
| "refused (Inl (TensorOutOfOrder _ _)) = True"
| "refused (Inl (TensorTooLong _ _ _)) = True"
| "refused _ = False"

text \<open>The calls whose result satisfies \<open>P\<close>.\<close>
definition calls_with :: "('r \<Rightarrow> bool) \<Rightarrow> 'c list \<Rightarrow> 'r list \<Rightarrow> 'c list" where
  "calls_with P calls rs = map fst (filter (\<lambda>(call, r). P r) (zip calls rs))"

section \<open>The destination's contract\<close>

text \<open>A step whose error is passed on succeeded.\<close>
lemma step_ok:
  "(case p of (Inl e, w) \<Rightarrow> Inl (h e) | (Inr u, w) \<Rightarrow> k u w) = Inr y \<Longrightarrow> \<exists>w. p = (Inr (), w) \<and> k () w = Inr y"
  by (auto split: prod.splits sum.splits)

lemma step_ok2:
  "(case p of (Inl e, w) \<Rightarrow> (Inl (h e), g e w) | (Inr u, w) \<Rightarrow> k u w) = (Inr (), y) \<Longrightarrow>
   \<exists>w. p = (Inr (), w) \<and> k () w = (Inr (), y)"
  by (auto split: prod.splits sum.splits)

lemma concat_chunks: "0 < n \<Longrightarrow> concat (chunks n bs) = bs"
proof (induction n bs rule: chunks.induct)
  case (1 n bs)
  then show ?case
    by (cases "bs = []") (simp_all add: chunks.simps [of n bs] chunks.simps [of n "[]"])
qed

text \<open>The payload bytes a list of calls carries for tensor \<open>i\<close>.\<close>
definition payload :: "(nat \<times> bytes) list \<Rightarrow> nat \<Rightarrow> bytes" where
  "payload calls i = concat (map snd (filter (\<lambda>call. fst call = i) calls))"

lemma payload_snoc [simp]: "payload (calls @ [(j, c)]) i = payload calls i @ (if j = i then c else [])"
  by (simp add: payload_def)

lemma payload_before:
  "map (payload (calls @ [(k, c)])) [0..<k] = map (payload calls) [0..<k]"
  "map (length \<circ> payload (calls @ [(k, c)])) [0..<k] = map (length \<circ> payload calls) [0..<k]"
  by simp_all

lemma payload_absent: "\<forall>call\<in>set calls. fst call \<noteq> i \<Longrightarrow> payload calls i = []"
  by (auto simp: payload_def)

lemma payload_Nil [simp]: "payload [] i = []"
  by (simp add: payload_def)

text \<open>The first \<open>k\<close> tensors of the data section.\<close>
definition section_upto :: "(nat \<times> bytes) list \<Rightarrow> nat list \<Rightarrow> nat \<Rightarrow> bytes" where
  "section_upto calls os k = data_section 0 (map (payload calls) [0..<k]) (take k os)"

lemma data_section_snoc:
  "placed a r (map length ds) os fin \<Longrightarrow>
   data_section r (ds @ [d]) (os @ [off]) = data_section r ds os @ replicate (off - fin) 0 @ d"
proof (induction r ds os rule: data_section.induct)
  case (1 r os)
  then show ?case by (cases os) auto
qed simp_all

lemma placed_take: "placed a r ls os fin \<Longrightarrow> \<exists>fin'. placed a r (take k ls) (take k os) fin'"
proof (induction a r ls os fin arbitrary: k rule: placed.induct)
  case (2 a start l ls off os fin)
  then show ?case by (cases k) auto
qed auto

lemma section_upto_Suc:
  assumes "placed a 0 ls os fin" "k < length ls" "map (length \<circ> payload calls) [0..<k] = take k ls"
  shows "section_upto calls os (Suc k)
    = section_upto calls os k @ replicate (os ! k - length (section_upto calls os k)) 0 @ payload calls k"
proof -
  obtain fin' where p: "placed a 0 (map length (map (payload calls) [0..<k])) (take k os) fin'"
    using placed_take [OF assms(1), of k] assms(3) by auto
  have "take (Suc k) os = take k os @ [os ! k]"
    using assms(2) placed_length [OF assms(1)] by (simp add: take_Suc_conv_app_nth)
  then show ?thesis using data_section_snoc [OF p] data_section_length [OF p] by (simp add: section_upto_def)
qed

locale io_writer =
  fixes wr :: "('io, 'w) write_all" and fl :: "'w \<Rightarrow> 'io + 'w" and contents :: "'w \<Rightarrow> bytes"
  assumes wr_appends: "wr bs w = (Inr (), w') \<Longrightarrow> contents w' = contents w @ bs"
    and fl_keeps: "fl w = Inr w' \<Longrightarrow> contents w' = contents w"
begin

lemma write_chunks_appends:
  "write_chunks wr cs w = (Inr (), w') \<Longrightarrow> contents w' = contents w @ concat cs"
  by (induction cs arbitrary: w) (auto split: prod.splits sum.splits dest!: wr_appends)

lemma write_all_bounded_appends:
  "write_all_bounded wr bs w = (Inr (), w') \<Longrightarrow> contents w' = contents w @ bs"
  using write_chunks_appends concat_chunks [of STREAM_WRITE_CHUNK_BYTES bs]
  by (fastforce simp: write_all_bounded_def STREAM_WRITE_CHUNK_BYTES_def)

lemma pad_loop_appends:
  "pad_loop wr n sw = (Inr (), sw') \<Longrightarrow>
     contents (sw_writer sw') = contents (sw_writer sw) @ replicate n 0 \<and> sw_position sw' = sw_position sw + n"
proof (induction n arbitrary: sw rule: less_induct)
  case (less n)
  let ?c = "min n STREAM_WRITE_CHUNK_BYTES"
  show ?case
  proof (cases "n = 0")
    case True
    with less.prems show ?thesis by (simp add: pad_loop.simps [of wr 0])
  next
    case False
    then obtain w where w: "wr (replicate ?c 0) (sw_writer sw) = (Inr (), w)"
      and r: "pad_loop wr (n - ?c) (sw\<lparr>sw_writer := w, sw_position := sw_position sw + ?c\<rparr>) = (Inr (), sw')"
      using less.prems by (auto simp: pad_loop.simps [of wr n] Let_def split: prod.splits sum.splits)
    have "n - ?c < n" using False by (simp add: STREAM_WRITE_CHUNK_BYTES_def)
    moreover have "replicate n (0 :: u8) = replicate ?c 0 @ replicate (n - ?c) 0"
      by (simp add: replicate_add [symmetric])
    ultimately show ?thesis using less.IH [OF _ r] wr_appends [OF w] by simp
  qed
qed

lemma pad_to_appends:
  assumes "stream_pad_to wr target sw = (Inr (), sw')"
  shows "contents (sw_writer sw') = contents (sw_writer sw) @ replicate (target - sw_position sw) 0 \<and>
    sw_position sw' = target \<and> sw_position sw \<le> target"
  using assms pad_loop_appends [of "target - sw_position sw" sw sw']
  by (auto simp: stream_pad_to_def checked_sub_def split: option.splits if_splits)

text \<open>Every tensor before \<open>k\<close> is complete and what has been written is the base and their payloads.\<close>
definition stream_at :: "bytes \<Rightarrow> nat list \<Rightarrow> nat list \<Rightarrow> (nat \<times> bytes) list \<Rightarrow> nat \<Rightarrow> 'w GgufStreamWriter \<Rightarrow> bool" where
  "stream_at base ls os calls k sw \<longleftrightarrow>
     \<not> sw_poisoned sw \<and> sw_tensor_lengths sw = ls \<and> sw_offsets sw = os \<and>
     sw_tensor_data_offset sw = length base \<and> k \<le> length ls \<and>
     map (length \<circ> payload calls) [0..<sw_next_tensor sw] = take (sw_next_tensor sw) ls \<and>
     sw_tensor_written sw = length (payload calls (sw_next_tensor sw)) \<and>
     contents (sw_writer sw) = base @ section_upto calls os k \<and>
     sw_position sw = length (contents (sw_writer sw))"

text \<open>Between calls: the padding before the current tensor and its partial payload are written too.\<close>
definition stream_inv :: "bytes \<Rightarrow> nat list \<Rightarrow> nat list \<Rightarrow> (nat \<times> bytes) list \<Rightarrow> 'w GgufStreamWriter \<Rightarrow> bool" where
  "stream_inv base ls os calls sw \<longleftrightarrow>
     sw_next_tensor sw \<le> length ls \<and>
     stream_at base ls os calls (min (Suc (sw_next_tensor sw)) (length ls)) sw \<and>
     (\<forall>call\<in>set calls. fst call \<le> sw_next_tensor sw \<and> fst call < length ls)"

text \<open>Padding up to the next tensor, which has no bytes yet.\<close>
lemma pad_step:
  assumes pl: "placed a 0 ls os fin" and at: "stream_at base ls os calls (sw_next_tensor sw) sw"
    and lt: "sw_next_tensor sw < length ls" and calls: "\<forall>call\<in>set calls. fst call < sw_next_tensor sw"
    and pad: "stream_pad_to wr (length base + os ! sw_next_tensor sw) sw = (Inr (), sw1)"
  shows "sw_next_tensor sw1 = sw_next_tensor sw" "stream_at base ls os calls (Suc (sw_next_tensor sw)) sw1"
    "ls ! sw_next_tensor sw = 0 \<Longrightarrow>
       stream_at base ls os calls (Suc (sw_next_tensor sw)) (sw1\<lparr>sw_next_tensor := Suc (sw_next_tensor sw)\<rparr>)"
proof -
  let ?k = "sw_next_tensor sw"
  have empty: "payload calls ?k = []" "payload calls (Suc ?k) = []"
    using calls by (auto intro!: payload_absent)
  have lens: "map (length \<circ> payload calls) [0..<?k] = take ?k ls" using at by (simp add: stream_at_def)
  have f: "sw_tensor_lengths sw1 = ls" "sw_offsets sw1 = os"
    "sw_tensor_data_offset sw1 = length base" "sw_tensor_written sw1 = 0" "\<not> sw_poisoned sw1"
    and nx: "sw_next_tensor sw1 = ?k"
    using stream_pad_to_fields [OF pad] at empty by (auto simp: stream_at_def)
  have w: "contents (sw_writer sw1) = base @ section_upto calls os (Suc ?k)"
    "sw_position sw1 = length (contents (sw_writer sw1))"
    using pad_to_appends [OF pad] section_upto_Suc [OF pl lt lens] at empty by (auto simp: stream_at_def)
  show "sw_next_tensor sw1 = ?k" by (rule nx)
  show "stream_at base ls os calls (Suc ?k) sw1" using f w nx lt empty lens by (simp add: stream_at_def)
  assume "ls ! ?k = 0"
  then have "map (length \<circ> payload calls) [0..<Suc ?k] = take (Suc ?k) ls"
    using lens lt empty by (simp add: take_Suc_conv_app_nth)
  then show "stream_at base ls os calls (Suc ?k) (sw1\<lparr>sw_next_tensor := Suc ?k\<rparr>)"
    using f w lt empty by (simp add: stream_at_def)
qed

lemma prepare_inv:
  assumes pl: "placed a 0 ls os fin"
  shows "prepare_next_tensor wr sw = (Inr (), sw') \<Longrightarrow> stream_at base ls os calls (sw_next_tensor sw) sw \<Longrightarrow>
    \<forall>call\<in>set calls. fst call < sw_next_tensor sw \<Longrightarrow> stream_inv base ls os calls sw'"
proof (induction "length ls - sw_next_tensor sw" arbitrary: sw rule: less_induct)
  case (less sw)
  let ?k = "sw_next_tensor sw"
  have at: "sw_tensor_lengths sw = ls" "sw_offsets sw = os" "sw_tensor_data_offset sw = length base" "?k \<le> length ls"
    using less.prems(2) by (simp_all add: stream_at_def)
  show ?case
  proof (cases "?k < length ls")
    case False
    then have "sw' = sw" "?k = length ls" using less.prems(1) at by (simp_all add: prepare_next_tensor.simps [of wr sw])
    then show ?thesis using less.prems(2,3) by (auto simp: stream_inv_def)
  next
    case True
    then obtain sw1 where pad: "stream_pad_to wr (length base + os ! ?k) sw = (Inr (), sw1)"
      and go: "(if sw_tensor_lengths sw1 ! sw_next_tensor sw1 \<noteq> 0 then (Inr (), sw1)
         else prepare_next_tensor wr (sw1\<lparr>sw_next_tensor := sw_next_tensor sw1 + 1\<rparr>)) = (Inr (), sw')"
      using less.prems(1) at(1-3)
      by (auto simp: prepare_next_tensor.simps [of wr sw] split: option.splits prod.splits sum.splits)
    note step = pad_step [OF pl less.prems(2) True less.prems(3) pad]
    have ls: "sw_tensor_lengths sw1 = ls" using step(2) by (simp add: stream_at_def)
    show ?thesis
    proof (cases "ls ! ?k = 0")
      case zero: True
      let ?sw = "sw1\<lparr>sw_next_tensor := Suc ?k\<rparr>"
      have "prepare_next_tensor wr ?sw = (Inr (), sw')" using go step(1) ls zero by simp
      moreover have "stream_at base ls os calls (sw_next_tensor ?sw) ?sw" using step(3) [OF zero] by simp
      ultimately show ?thesis using less.hyps [of ?sw] True less.prems(3) by fastforce
    next
      case False
      with go step(1) ls have "sw' = sw1" by simp
      then show ?thesis using step True less.prems(3) by (fastforce simp: stream_inv_def min_def)
    qed
  qed
qed

lemma section_upto_chunk:
  assumes "placed a 0 ls os fin" "k < length ls" "map (length \<circ> payload calls) [0..<k] = take k ls"
  shows "section_upto (calls @ [(k, c)]) os (Suc k) = section_upto calls os (Suc k) @ c"
proof -
  have "section_upto (calls @ [(k, c)]) os k = section_upto calls os k"
    by (simp only: section_upto_def payload_before)
  moreover have "map (length \<circ> payload (calls @ [(k, c)])) [0..<k] = take k ls"
    using assms(3) by (simp only: payload_before)
  ultimately show ?thesis
    using section_upto_Suc [OF assms] section_upto_Suc [OF assms(1,2), of "calls @ [(k, c)]"] by simp
qed

lemma chunk_inv:
  assumes pl: "placed a 0 ls os fin" and inv: "stream_inv base ls os calls sw"
    and run: "write_tensor_chunk wr i c sw = (Inr (), sw')"
  shows "stream_inv base ls os (calls @ [(i, c)]) sw'"
proof -
  let ?k = "sw_next_tensor sw" and ?calls = "calls @ [(i, c)]"
  have at: "sw_tensor_lengths sw = ls" "sw_offsets sw = os" "sw_tensor_data_offset sw = length base" "?k \<le> length ls"
    "map (length \<circ> payload calls) [0..<?k] = take ?k ls" "\<not> sw_poisoned sw"
    "sw_tensor_written sw = length (payload calls ?k)"
    "contents (sw_writer sw) = base @ section_upto calls os (min (Suc ?k) (length ls))"
    "sw_position sw = length (contents (sw_writer sw))" "\<forall>call\<in>set calls. fst call \<le> ?k \<and> fst call < length ls"
    using inv by (simp_all add: stream_inv_def stream_at_def)
  obtain w where i: "i = ?k" "?k < length ls" and w: "write_all_bounded wr c (sw_writer sw) = (Inr (), w)"
    and go: "(let sw = sw\<lparr>sw_writer := w, sw_position := sw_position sw + length c,
                sw_tensor_written := length (payload ?calls ?k)\<rparr> in
         if length (payload ?calls ?k) = ls ! ?k
         then prepare_next_tensor wr (sw\<lparr>sw_next_tensor := ?k + 1, sw_tensor_written := 0\<rparr>)
         else (Inr (), sw)) = (Inr (), sw')"
    using run at(1,4,7) by (auto simp: write_tensor_chunk_def Let_def split: if_splits option.splits prod.splits sum.splits)
  have sec: "section_upto ?calls os (Suc ?k) = section_upto calls os (Suc ?k) @ c"
    using section_upto_chunk [OF pl i(2) at(5)] i(1) by simp
  have con: "contents w = base @ section_upto ?calls os (Suc ?k)"
    using write_all_bounded_appends [OF w] at(8) i(2) sec by (simp add: min_def)
  have len: "map (length \<circ> payload ?calls) [0..<?k] = take ?k ls"
    using at(5) unfolding i(1) payload_before .
  have pos: "sw_position sw + length c = length (contents w)"
    using at(9) write_all_bounded_appends [OF w] by simp
  show ?thesis
  proof (cases "length (payload ?calls ?k) = ls ! ?k")
    case True
    let ?sw = "sw\<lparr>sw_writer := w, sw_position := sw_position sw + length c, sw_next_tensor := ?k + 1, sw_tensor_written := 0\<rparr>"
    have "payload ?calls (Suc ?k) = []" using at(10) i(1) by (intro payload_absent) auto
    moreover have "map (length \<circ> payload ?calls) [0..<Suc ?k] = take (Suc ?k) ls"
      using len True i(2) by (simp add: take_Suc_conv_app_nth)
    ultimately have "stream_at base ls os ?calls (sw_next_tensor ?sw) ?sw"
      using at con pos i by (simp add: stream_at_def)
    moreover have "prepare_next_tensor wr ?sw = (Inr (), sw')" using go True by (simp add: Let_def)
    ultimately show ?thesis using at(10) i(1) by (intro prepare_inv [OF pl]) auto
  next
    case False
    then show ?thesis using go at con pos len i by (auto simp: stream_inv_def stream_at_def min_def Let_def)
  qed
qed

lemma run_inv:
  assumes pl: "placed a 0 ls os fin"
  shows "stream_inv base ls os calls sw \<Longrightarrow> run_chunks wr more_calls sw = (Inr (), sw') \<Longrightarrow>
    stream_inv base ls os (calls @ more_calls) sw'"
proof (induction more_calls arbitrary: calls sw)
  case (Cons call more_calls)
  obtain i c where call: "call = (i, c)" by (cases call)
  obtain sw1 where 1: "write_tensor_chunk wr i c sw = (Inr (), sw1)" and 2: "run_chunks wr more_calls sw1 = (Inr (), sw')"
    using Cons.prems(2) call by (auto split: prod.splits sum.splits)
  show ?case using Cons.IH [OF chunk_inv [OF pl Cons.prems(1) 1] 2] call by simp
qed simp

lemma new_inv:
  assumes "stream_new wr w version md ts = Inr sw" and "contents w = []"
  shows "\<exists>a rel L. layout_ok version md ts a rel L \<and> build_layout version md ts = Inr L \<and>
    stream_inv (resize (la_tensor_data_offset L) (la_header L)) (map sp_data_len ts) (la_offsets L) [] sw"
proof -
  obtain L w1 sw1 where L: "build_layout version md ts = Inr L"
    and w1: "write_all_bounded wr (la_header L) w = (Inr (), w1)"
    and p: "stream_pad_to wr (la_tensor_data_offset L) \<lparr>sw_writer = w1, sw_tensor_lengths = map sp_data_len ts,
        sw_offsets = la_offsets L, sw_tensor_data_offset = la_tensor_data_offset L,
        sw_position = length (la_header L), sw_next_tensor = 0, sw_tensor_written = 0, sw_poisoned = False\<rparr> = (Inr (), sw1)"
    and n: "prepare_next_tensor wr sw1 = (Inr (), sw)"
    using assms(1) by (auto simp: stream_new_def rbind_eq_Inr Let_def dest!: step_ok step_ok2)
  obtain a rel where ok: "layout_ok version md ts a rel L" using build_layout_ok [OF L] by blast
  let ?base = "resize (la_tensor_data_offset L) (la_header L)"
  have base: "contents (sw_writer sw1) = ?base" "length ?base = la_tensor_data_offset L"
    using pad_to_appends [OF p] write_all_bounded_appends [OF w1] assms(2) by (simp_all add: resize_def)
  have "stream_at ?base (map sp_data_len ts) (la_offsets L) [] (sw_next_tensor sw1) sw1"
    using stream_pad_to_fields [OF p] pad_to_appends [OF p] base by (simp add: stream_at_def section_upto_def)
  moreover have "placed a 0 (map sp_data_len ts) (la_offsets L) rel" using ok by (simp add: layout_ok_def)
  ultimately show ?thesis using prepare_inv [OF _ n] ok L by auto
qed

text \<open>A stream that was fed without error and finished has written the one-shot container.\<close>
lemma stream_contents:
  assumes new: "stream_new wr w version md ts = Inr sw" and "contents w = []"
    and run: "run_chunks wr calls sw = (Inr (), sw')" and fin: "stream_finish fl sw' = Inr w'"
  shows "write_gguf version md (map2 (\<lambda>t i. \<lparr>to_name = sp_name t, to_dims = sp_dims t, to_ggml_type = sp_ggml_type t,
    to_data = payload calls i\<rparr>) ts [0..<length ts]) = Inr (contents w')" (is "write_gguf version md ?ts = _")
proof -
  obtain a rel L where ok: "layout_ok version md ts a rel L" and L: "build_layout version md ts = Inr L"
    and inv: "stream_inv (resize (la_tensor_data_offset L) (la_header L)) (map sp_data_len ts) (la_offsets L) [] sw"
    using new_inv [OF new assms(2)] by blast
  have p: "placed a 0 (map sp_data_len ts) (la_offsets L) rel" using ok by (simp add: layout_ok_def)
  let ?n = "length ts" and ?os = "la_offsets L" and ?base = "resize (la_tensor_data_offset L) (la_header L)"
  have inv': "stream_inv ?base (map sp_data_len ts) ?os calls sw'" using run_inv [OF p inv run] by simp
  have at_end: "sw_next_tensor sw' = ?n" and w': "contents w' = contents (sw_writer sw')"
    using fin inv' fl_keeps by (auto simp: stream_finish_def stream_inv_def stream_at_def split: if_splits)
  have lens: "map (length \<circ> payload calls) [0..<?n] = map sp_data_len ts"
    and con: "contents w' = ?base @ section_upto calls ?os ?n"
    using inv' at_end w' by (simp_all add: stream_inv_def stream_at_def)
  have "map spec_of ?ts = ts"
  proof (rule nth_equalityI)
    fix i
    assume i: "i < length (map spec_of ?ts)"
    then have "length (payload calls i) = sp_data_len (ts ! i)"
      using arg_cong [OF lens, of "\<lambda>xs. xs ! i"] by simp
    with i show "map spec_of ?ts ! i = ts ! i" by (simp add: spec_of_def)
  qed simp
  moreover have datas: "map to_data ?ts = map (payload calls) [0..<?n]"
    by (rule nth_equalityI) simp_all
  moreover have "foldR (append_payload (la_tensor_data_offset L)) (zip ?ts ?os) ?base
      = Inr (?base @ data_section 0 (map to_data ?ts) ?os)"
  proof (rule append_payload_fold)
    show "placed a 0 (map length (map to_data ?ts)) ?os rel"
      unfolding datas unfolding map_map lens by (rule p)
    show "length ?base = la_tensor_data_offset L + 0" by (simp add: resize_def)
    show "la_tensor_data_offset L + rel \<le> usize_MAX" using ok by (simp add: layout_ok_def)
  qed
  moreover have "take ?n ?os = ?os" using placed_length [OF p] by simp
  ultimately show ?thesis using L con by (simp add: write_gguf_def section_upto_def)
qed

end

section \<open>Streaming into a vector\<close>

text \<open>\<open>impl Write for Vec<u8>\<close>: writing appends and never fails, flushing does nothing.\<close>
definition vec_write_all :: "bytes \<Rightarrow> bytes \<Rightarrow> (unit + unit) \<times> bytes" where
  "vec_write_all bs w = (Inr (), w @ bs)"

definition vec_flush :: "bytes \<Rightarrow> unit + bytes" where
  "vec_flush w = Inr w"

interpretation vec: io_writer vec_write_all vec_flush "\<lambda>w. w"
  by unfold_locales (simp_all add: vec_write_all_def vec_flush_def)

definition tensor_of :: "GgufTensorSpec \<Rightarrow> bytes \<Rightarrow> TensorOut" where
  "tensor_of t d = \<lparr>to_name = sp_name t, to_dims = sp_dims t, to_ggml_type = sp_ggml_type t, to_data = d\<rparr>"

text \<open>C18: streaming refines the one-shot writer: however the payloads are split into chunks, a stream that accepts
  them and finishes has written exactly what \<open>write_gguf\<close> produces for the concatenated payloads.\<close>
theorem stream_refines_write_gguf:
  assumes "stream_new vec_write_all [] version md ts = Inr sw"
    and "run_chunks vec_write_all calls sw = (Inr (), sw')"
    and "stream_finish vec_flush sw' = Inr out"
  shows "write_gguf version md (map2 (\<lambda>t i. tensor_of t (payload calls i)) ts [0..<length ts]) = Inr out"
  using vec.stream_contents [OF assms(1) refl assms(2,3)] by (simp add: tensor_of_def)

section \<open>Failed calls\<close>

lemma prepare_fields:
  "prepare_next_tensor wr sw = (r, sw') \<Longrightarrow>
     (sw_poisoned sw' \<longleftrightarrow> sw_poisoned sw \<or> (\<exists>e. r = Inl (WIo e))) \<and>
     (\<forall>e. r = Inl e \<longrightarrow> (\<exists>io. e = WIo io) \<or> e = WGguf DimsOverflow) \<and>
     sw_tensor_lengths sw' = sw_tensor_lengths sw \<and> sw_tensor_written sw' = sw_tensor_written sw \<and>
     sw_next_tensor sw \<le> sw_next_tensor sw' \<and>
     (sw_next_tensor sw \<le> length (sw_tensor_lengths sw) \<longrightarrow> sw_next_tensor sw' \<le> length (sw_tensor_lengths sw))"
proof (induction wr sw arbitrary: r sw' rule: prepare_next_tensor.induct)
  case (1 wr sw)
  show ?case
  proof (cases "sw_next_tensor sw < length (sw_tensor_lengths sw)")
    case False
    with 1(2) show ?thesis by (auto simp: prepare_next_tensor.simps [of wr sw])
  next
    case lt: True
    show ?thesis
    proof (cases "checked_add (sw_tensor_data_offset sw) (sw_offsets sw ! sw_next_tensor sw)")
      case None
      with 1(2) lt show ?thesis by (auto simp: prepare_next_tensor.simps [of wr sw])
    next
      case (Some target)
      obtain r1 sw1 where p: "stream_pad_to wr target sw = (r1, sw1)" by (metis surj_pair)
      note f = stream_pad_to_fields [OF p]
      show ?thesis
      proof (cases r1)
        case (Inl e)
        with 1(2) lt Some p f show ?thesis by (auto simp: prepare_next_tensor.simps [of wr sw])
      next
        case (Inr u)
        show ?thesis
        proof (cases "sw_tensor_lengths sw1 ! sw_next_tensor sw1 = 0")
          case True
          then have "prepare_next_tensor wr (sw1\<lparr>sw_next_tensor := sw_next_tensor sw1 + 1\<rparr>) = (r, sw')"
            using 1(2) lt Some p Inr by (simp add: prepare_next_tensor.simps [of wr sw])
          from 1(1) [OF lt Some p [symmetric] Inr _ this] True show ?thesis using f Inr lt by auto
        next
          case False
          then show ?thesis using 1(2) lt Some p Inr f by (auto simp: prepare_next_tensor.simps [of wr sw])
        qed
      qed
    qed
  qed
qed

lemma chunk_io_poisons:
  assumes "write_tensor_chunk wr i c sw = (Inl (WIo e), sw')"
  shows "sw_poisoned sw'"
proof -
  obtain r w where w: "write_all_bounded wr c (sw_writer sw) = (r, w)" by (metis surj_pair)
  show ?thesis using assms w prepare_fields
    by (fastforce simp: write_tensor_chunk_def Let_def split: if_splits option.splits sum.splits)
qed

text \<open>C27: for any destination, once a call reports an I/O failure the stream is dead: every later chunk and
  \<open>finish\<close> report \<open>Poisoned\<close> and nothing more reaches the destination.\<close>
theorem stream_poisoned_after_io_error:
  assumes "write_tensor_chunk wr i c sw = (Inl (WIo e), sw')"
  shows "write_tensor_chunk wr j d sw' = (Inl Poisoned, sw') \<and> stream_finish fl sw' = Inl Poisoned"
  using chunk_io_poisons [OF assms] by (simp add: write_tensor_chunk_def stream_finish_def)

theorem stream_poisoned_after_io_error_witness:
  "write_tensor_chunk (\<lambda>bs w. (Inl (), w @ take 1 bs)) 0 [5]
     \<lparr>sw_writer = [], sw_tensor_lengths = [2], sw_offsets = [0], sw_tensor_data_offset = 0, sw_position = 0,
       sw_next_tensor = 0, sw_tensor_written = 0, sw_poisoned = False\<rparr>
   = (Inl (WIo ()), \<lparr>sw_writer = [5], sw_tensor_lengths = [2], sw_offsets = [0], sw_tensor_data_offset = 0,
       sw_position = 0, sw_next_tensor = 0, sw_tensor_written = 0, sw_poisoned = True\<rparr>) \<and>
   write_tensor_chunk (\<lambda>bs w. (Inl (), w @ take 1 bs)) 0 [6]
     \<lparr>sw_writer = [5], sw_tensor_lengths = [2], sw_offsets = [0], sw_tensor_data_offset = 0,
       sw_position = 0, sw_next_tensor = 0, sw_tensor_written = 0, sw_poisoned = True\<rparr>
   = (Inl Poisoned, \<lparr>sw_writer = [5], sw_tensor_lengths = [2], sw_offsets = [0], sw_tensor_data_offset = 0,
       sw_position = 0, sw_next_tensor = 0, sw_tensor_written = 0, sw_poisoned = True\<rparr>)"
  (is "?run = ?res \<and> _")
proof -
  have run: "?run = ?res"
    by (simp add: write_tensor_chunk_def checked_add_def usize_MAX_def write_all_bounded_def
        chunks.simps [of _ "[5]"] STREAM_WRITE_CHUNK_BYTES_def)
  from run stream_poisoned_after_io_error [OF run] show ?thesis by blast
qed

text \<open>What the calls accepted so far allow: their tensors come in order and each has at most its declared bytes.\<close>
definition within :: "nat list \<Rightarrow> (nat \<times> bytes) list \<Rightarrow> 'w GgufStreamWriter \<Rightarrow> bool" where
  "within lens acc sw \<longleftrightarrow> sw_tensor_lengths sw = lens \<and> sw_next_tensor sw \<le> length lens \<and> sorted (map fst acc)
     \<and> (\<forall>call\<in>set acc. fst call \<le> sw_next_tensor sw \<and> fst call < length lens)
     \<and> (\<forall>i < sw_next_tensor sw. length (payload acc i) \<le> lens ! i)
     \<and> length (payload acc (sw_next_tensor sw)) \<le> sw_tensor_written sw
     \<and> (sw_next_tensor sw < length lens \<longrightarrow> sw_tensor_written sw \<le> lens ! sw_next_tensor sw)"

lemma within_bounds:
  assumes "within lens acc sw"
  shows "sorted (map fst acc)" "i < length lens \<Longrightarrow> length (payload acc i) \<le> lens ! i" "length lens \<le> i \<Longrightarrow> payload acc i = []"
proof -
  show "sorted (map fst acc)" using assms by (simp add: within_def)
  show "payload acc i = []" if "length lens \<le> i" using assms that by (intro payload_absent) (auto simp: within_def)
  show "length (payload acc i) \<le> lens ! i" if i: "i < length lens"
  proof (cases "sw_next_tensor sw" i rule: linorder_cases)
    case less
    then have "payload acc i = []" using assms by (intro payload_absent) (auto simp: within_def)
    then show ?thesis by simp
  qed (use assms i in \<open>auto simp: within_def\<close>)
qed

text \<open>A stream that moves on to a later tensor, of which nothing has been accepted.\<close>
lemma within_next:
  assumes "sw_tensor_lengths sw' = lens" "sw_next_tensor sw' \<le> length lens" "sorted (map fst acc)"
    and k: "\<forall>call\<in>set acc. fst call \<le> k \<and> fst call < length lens" "k < sw_next_tensor sw'" "sw_tensor_written sw' = 0"
    and "\<And>i. i \<le> k \<Longrightarrow> length (payload acc i) \<le> lens ! i"
  shows "within lens acc sw'"
proof -
  have "payload acc i = []" if "k < i" for i using k(1) that by (intro payload_absent) auto
  then have "length (payload acc i) \<le> lens ! i" for i using assms(7) by (cases "i \<le> k") auto
  moreover have "payload acc (sw_next_tensor sw') = []" using k(1,2) by (intro payload_absent) auto
  ultimately show ?thesis using assms by (auto simp: within_def)
qed

lemma within_extend:
  assumes "within lens acc sw" "i = sw_next_tensor sw" "i < length lens"
  shows "sorted (map fst (acc @ [(i, c)]))" "\<forall>call\<in>set (acc @ [(i, c)]). fst call \<le> i \<and> fst call < length lens"
    "j < i \<Longrightarrow> length (payload (acc @ [(i, c)]) j) \<le> lens ! j"
    "length (payload (acc @ [(i, c)]) i) \<le> sw_tensor_written sw + length c"
  using assms by (auto simp: within_def sorted_append)

text \<open>How a call ends: refused with the stream as it was, failed in the destination or the position, or the chunk is taken.\<close>
lemma write_tensor_chunk_cases:
  assumes run: "write_tensor_chunk wr i c sw = (r, sw')" and w: "write_all_bounded wr c (sw_writer sw) = (q, w)"
    and k: "sw_next_tensor sw \<le> length (sw_tensor_lengths sw)"
  obtains (stop) e where "r = Inl e" "sw' = sw \<or> \<not> refused r \<and> (sw' = sw\<lparr>sw_writer := w\<rparr> \<or> sw' = sw\<lparr>sw_writer := w, sw_poisoned := True\<rparr>)"
    | (part) "i = sw_next_tensor sw" "i < length (sw_tensor_lengths sw)"
        "sw_tensor_written sw + length c < sw_tensor_lengths sw ! i" "r = Inr ()"
        "sw' = sw\<lparr>sw_writer := w, sw_position := sw_position sw + length c, sw_tensor_written := sw_tensor_written sw + length c\<rparr>"
    | (full) "i = sw_next_tensor sw" "i < length (sw_tensor_lengths sw)"
        "sw_tensor_written sw + length c = sw_tensor_lengths sw ! i"
        "prepare_next_tensor wr (sw\<lparr>sw_writer := w, sw_position := sw_position sw + length c,
          sw_next_tensor := Suc i, sw_tensor_written := 0\<rparr>) = (r, sw')"
proof (cases "sw_poisoned sw \<or> sw_next_tensor sw = length (sw_tensor_lengths sw) \<or> i \<noteq> sw_next_tensor sw
    \<or> \<not> (sw_tensor_written sw + length c \<le> usize_MAX \<and> sw_tensor_written sw + length c \<le> sw_tensor_lengths sw ! i)")
  case True
  then obtain e where "r = Inl e" "sw' = sw"
    using run by (auto simp: write_tensor_chunk_def Let_def checked_add_def split: if_splits)
  then show ?thesis by (intro stop) auto
next
  case False
  then have i: "i = sw_next_tensor sw" "i < length (sw_tensor_lengths sw)" using k by auto
  show ?thesis
  proof (cases "q = Inr () \<and> sw_position sw + length c \<le> usize_MAX")
    case True
    then show ?thesis using run w False i
      by (cases "sw_tensor_written sw + length c = sw_tensor_lengths sw ! i")
        (auto simp: write_tensor_chunk_def Let_def checked_add_def intro: part full)
  next
    case err: False
    then obtain e where "r = Inl e" "\<not> refused r" "sw' = sw\<lparr>sw_writer := w\<rparr> \<or> sw' = sw\<lparr>sw_writer := w, sw_poisoned := True\<rparr>"
      using run w False by (cases q) (auto simp: write_tensor_chunk_def Let_def checked_add_def)
    then show ?thesis by (intro stop) auto
  qed
qed

lemma chunk_within:
  assumes inv: "within lens acc sw" and run: "write_tensor_chunk wr i c sw = (r, sw')"
  shows "within lens (if r = Inr () then acc @ [(i, c)] else acc) sw'" "refused r \<Longrightarrow> sw' = sw"
proof -
  let ?acc = "if r = Inr () then acc @ [(i, c)] else acc"
  obtain q w where w: "write_all_bounded wr c (sw_writer sw) = (q, w)" by (metis surj_pair)
  have lens: "sw_tensor_lengths sw = lens" and k: "sw_next_tensor sw \<le> length (sw_tensor_lengths sw)"
    using inv by (simp_all add: within_def)
  from run w k have "within lens ?acc sw' \<and> (refused r \<longrightarrow> sw' = sw)"
  proof (cases rule: write_tensor_chunk_cases)
    case stop
    then show ?thesis using inv by (auto simp: within_def)
  next
    case part
    then show ?thesis using within_extend [OF inv part(1) part(2) [unfolded lens], where c = c] lens by (auto simp: within_def)
  next
    case full
    note f = prepare_fields [OF full(4)] and i = full(1) full(2) [unfolded lens]
    have "\<not> refused r" using f by (cases r) auto
    moreover have "within lens ?acc sw'"
    proof (rule within_next [where k = i])
      show "length (payload ?acc j) \<le> lens ! j" if "j \<le> i" for j
        using that within_extend(3,4) [OF inv i, where c = c] full(3) lens by (cases "j = i") (auto split: if_splits)
    qed (use f lens full i within_extend(1,2) [OF inv i, where c = c] in \<open>auto simp: sorted_append split: if_splits\<close>)
    ultimately show ?thesis by simp
  qed
  then show "within lens ?acc sw'" "refused r \<Longrightarrow> sw' = sw" by blast+
qed

lemma calls_with_simps [simp]:
  "calls_with P [] rs = []"
  "calls_with P (call # calls) (r # rs) = (if P r then [call] else []) @ calls_with P calls rs"
  by (simp_all add: calls_with_def)

lemma write_calls_within:
  "within lens acc sw \<Longrightarrow> write_calls wr calls sw = (rs, sw') \<Longrightarrow>
     within lens (acc @ calls_with (\<lambda>r. r = Inr ()) calls rs) sw' \<and>
     write_calls wr (calls_with (\<lambda>r. \<not> refused r) calls rs) sw = (filter (\<lambda>r. \<not> refused r) rs, sw')"
proof (induction calls arbitrary: acc sw rs)
  case (Cons call calls)
  obtain i c where call: "call = (i, c)" by (cases call)
  obtain r sw1 where 1: "write_tensor_chunk wr i c sw = (r, sw1)" by (metis surj_pair)
  obtain rs' where 2: "write_calls wr calls sw1 = (rs', sw')" and rs: "rs = r # rs'"
    using Cons.prems(2) 1 call by (auto simp: Let_def split: prod.splits)
  note in1 = chunk_within [OF Cons.prems(1) 1]
  show ?case using Cons.IH [OF in1(1) 2] in1(2) 1 call rs by (cases "refused r") (auto simp: Let_def split: if_splits)
qed auto

lemma stream_new_within:
  assumes "stream_new wr w version md ts = Inr sw"
  shows "within (map sp_data_len ts) [] sw" "\<forall>t\<in>set ts. sp_data_len t \<le> usize_MAX"
proof -
  obtain L w1 sw1 where L: "build_layout version md ts = Inr L"
    and p: "stream_pad_to wr (la_tensor_data_offset L) \<lparr>sw_writer = w1, sw_tensor_lengths = map sp_data_len ts,
        sw_offsets = la_offsets L, sw_tensor_data_offset = la_tensor_data_offset L,
        sw_position = length (la_header L), sw_next_tensor = 0, sw_tensor_written = 0, sw_poisoned = False\<rparr> = (Inr (), sw1)"
    and n: "prepare_next_tensor wr sw1 = (Inr (), sw)"
    using assms by (auto simp: stream_new_def rbind_eq_Inr Let_def dest!: step_ok step_ok2)
  show "within (map sp_data_len ts) [] sw"
    using prepare_fields [OF n] stream_pad_to_fields [OF p] by (auto simp: within_def)
  obtain a rel where ok: "layout_ok version md ts a rel L" using build_layout_ok [OF L] by blast
  show "\<forall>t\<in>set ts. sp_data_len t \<le> usize_MAX"
  proof
    fix t
    assume "t \<in> set ts"
    then obtain j where "j < length ts" "t = ts ! j" by (auto simp: in_set_conv_nth)
    then show "sp_data_len t \<le> usize_MAX" using ok placed_nth [of a 0 "map sp_data_len ts" "la_offsets L" rel j] by (simp add: layout_ok_def)
  qed
qed

text \<open>A stream that is not dead refuses exactly the chunks that do not fit.\<close>
lemma refused_iff:
  assumes "within lens acc sw" "\<not> sw_poisoned sw" "\<forall>l\<in>set lens. l \<le> usize_MAX"
  shows "refused (fst (write_tensor_chunk wr i c sw)) \<longleftrightarrow>
    \<not> (i = sw_next_tensor sw \<and> i < length lens \<and> sw_tensor_written sw + length c \<le> lens ! i)"
proof (cases "i = sw_next_tensor sw \<and> i < length lens \<and> sw_tensor_written sw + length c \<le> lens ! i")
  case True
  have p: "\<not> refused (fst (prepare_next_tensor wr s))" for s
    using prepare_fields [of wr s] by (cases "prepare_next_tensor wr s"; cases "fst (prepare_next_tensor wr s)") auto
  have "lens ! i \<le> usize_MAX" using True assms(3) by simp
  then have "\<not> refused (fst (write_tensor_chunk wr i c sw))" using True assms(1,2) p
    by (auto simp: write_tensor_chunk_def Let_def within_def checked_add_def split: prod.splits sum.splits)
  with True show ?thesis by blast
next
  case False
  then have "refused (fst (write_tensor_chunk wr i c sw))"
    using assms(1,2) by (auto simp: write_tensor_chunk_def Let_def within_def split: option.splits)
  with False show ?thesis by blast
qed

text \<open>C28: refused chunks.  For any destination, take a new stream and a caller that goes on after errors.  At every point where the stream
  is not poisoned it refuses a chunk (\<open>StreamComplete\<close>, \<open>TensorOutOfOrder\<close> or \<open>TensorTooLong\<close>) exactly if the chunk is not for the
  current tensor or would take it past its declared length.  The refused calls leave no trace: without them the other calls have the same results
  and the same stream and destination at the end.  The accepted calls name the tensors in order, none past the last, and carry for each
  at most its declared length.\<close>
theorem stream_refusal_is_clean:
  assumes "stream_new wr w version md ts = Inr sw0" and "write_calls wr calls sw0 = (rs, sw)"
  shows "(\<not> sw_poisoned sw \<longrightarrow> (\<forall>i c. refused (fst (write_tensor_chunk wr i c sw)) \<longleftrightarrow>
        \<not> (i = sw_next_tensor sw \<and> i < length ts \<and> sw_tensor_written sw + length c \<le> sp_data_len (ts ! i))))
    \<and> write_calls wr (calls_with (\<lambda>r. \<not> refused r) calls rs) sw0 = (filter (\<lambda>r. \<not> refused r) rs, sw)
    \<and> sorted (map fst (calls_with (\<lambda>r. r = Inr ()) calls rs))
    \<and> (\<forall>i. length (payload (calls_with (\<lambda>r. r = Inr ()) calls rs) i) \<le> (if i < length ts then sp_data_len (ts ! i) else 0))"
proof -
  have inv: "within (map sp_data_len ts) (calls_with (\<lambda>r. r = Inr ()) calls rs) sw"
    and clean: "write_calls wr (calls_with (\<lambda>r. \<not> refused r) calls rs) sw0 = (filter (\<lambda>r. \<not> refused r) rs, sw)"
    using write_calls_within [OF stream_new_within(1) [OF assms(1)] assms(2)] by simp_all
  have "length (payload (calls_with (\<lambda>r. r = Inr ()) calls rs) i) \<le> (if i < length ts then sp_data_len (ts ! i) else 0)" for i
    using within_bounds(2,3) [OF inv, of i] by auto
  moreover have "refused (fst (write_tensor_chunk wr i c sw)) \<longleftrightarrow>
      \<not> (i = sw_next_tensor sw \<and> i < length ts \<and> sw_tensor_written sw + length c \<le> sp_data_len (ts ! i))" if "\<not> sw_poisoned sw" for i c
    using refused_iff [OF inv that] stream_new_within(2) [OF assms(1)] by auto
  ultimately show ?thesis using clean within_bounds(1) [OF inv] by blast
qed

end
