(* ===== verification/GgufLive.thy ===== *)
theory GgufLive
  imports GgufStream
begin

text \<open>
  Total correctness of \<open>GgufStreamWriter\<close> over a vector: every way of cutting the payloads into nonempty chunks,
  offered in tensor order, is accepted to the end and yields the one-shot container.
\<close>

section \<open>A vector never refuses\<close>

lemma vec_write_chunks: "write_chunks vec_write_all cs w = (Inr (), w @ concat cs)"
  by (induction cs arbitrary: w) (simp_all add: vec_write_all_def)

lemma vec_write_all_bounded: "write_all_bounded vec_write_all bs w = (Inr (), w @ bs)"
  by (simp add: write_all_bounded_def vec_write_chunks concat_chunks STREAM_WRITE_CHUNK_BYTES_def)

lemma vec_pad_loop: "\<exists>sw'. pad_loop vec_write_all n sw = (Inr (), sw')"
proof (induction n arbitrary: sw rule: less_induct)
  case (less n)
  then show ?case
    by (cases "n = 0")
      (simp_all add: pad_loop.simps [of _ n] pad_loop.simps [of _ 0] Let_def vec_write_all_def STREAM_WRITE_CHUNK_BYTES_def)
qed

lemma vec_pad_to: "sw_position sw \<le> target \<Longrightarrow> \<exists>sw'. stream_pad_to vec_write_all target sw = (Inr (), sw')"
  using vec_pad_loop by (simp add: stream_pad_to_def checked_sub_def)

section \<open>Progress\<close>

lemma prepare_next_mono:
  "prepare_next_tensor wr sw = (r, sw') \<Longrightarrow> sw_next_tensor sw \<le> sw_next_tensor sw'"
proof (induction wr sw arbitrary: r sw' rule: prepare_next_tensor.induct)
  case (1 wr sw)
  show ?case
  proof (cases "sw_next_tensor sw < length (sw_tensor_lengths sw) \<and>
      checked_add (sw_tensor_data_offset sw) (sw_offsets sw ! sw_next_tensor sw) \<noteq> None")
    case False
    with 1(2) show ?thesis
      by (auto simp: prepare_next_tensor.simps [of wr sw] checked_add_def split: if_splits)
  next
    case True
    then obtain target where lt: "sw_next_tensor sw < length (sw_tensor_lengths sw)"
      and t: "checked_add (sw_tensor_data_offset sw) (sw_offsets sw ! sw_next_tensor sw) = Some target" by auto
    obtain r1 sw1 where p: "stream_pad_to wr target sw = (r1, sw1)" by (metis surj_pair)
    have nx: "sw_next_tensor sw1 = sw_next_tensor sw" using stream_pad_to_fields [OF p] by simp
    show ?thesis
    proof (cases "\<exists>u. r1 = Inr u \<and> sw_tensor_lengths sw1 ! sw_next_tensor sw1 = 0")
      case True
      then obtain u where u: "r1 = Inr u" "\<not> sw_tensor_lengths sw1 ! sw_next_tensor sw1 \<noteq> 0" by blast
      have "prepare_next_tensor wr (sw1\<lparr>sw_next_tensor := sw_next_tensor sw1 + 1\<rparr>) = (r, sw')"
        using 1(2) lt t p u by (simp add: prepare_next_tensor.simps [of wr sw])
      from 1(1) [OF lt t p [symmetric] u(1,2) this] nx show ?thesis by simp
    next
      case False
      then show ?thesis using 1(2) lt t p nx
        by (auto simp: prepare_next_tensor.simps [of wr sw] split: sum.splits if_splits)
    qed
  qed
qed

lemma section_length:
  assumes "placed a 0 ls os fin" "k < length ls" "map (length \<circ> payload calls) [0..<k] = take k ls"
  shows "length (section_upto calls os k) \<le> os ! k"
    "length (section_upto calls os (Suc k)) = os ! k + length (payload calls k)"
proof -
  have "placed a 0 (take k ls) (take k os) (length (section_upto calls os k)) \<and> length (section_upto calls os k) \<le> os ! k"
    using assms
  proof (induction k)
    case 0
    show ?case by (simp add: section_upto_def)
  next
    case (Suc k)
    have lens: "map (length \<circ> payload calls) [0..<k] = take k ls" "length (payload calls k) = ls ! k"
      using Suc.prems(2,3) by (simp_all add: take_Suc_conv_app_nth comp_def)
    note IH = Suc.IH [OF Suc.prems(1) _ lens(1)]
    obtain fin' where p: "placed a 0 (take (Suc k) ls) (take (Suc k) os) fin'"
      using placed_take [OF Suc.prems(1)] by blast
    have "map length (map (payload calls) [0..<Suc k]) = take (Suc k) ls" using Suc.prems(3) by (simp add: comp_def)
    then have "fin' = length (section_upto calls os (Suc k))"
      using data_section_length [of a 0 "map (payload calls) [0..<Suc k]" "take (Suc k) os" fin'] p
      by (simp add: section_upto_def)
    moreover have "length (section_upto calls os (Suc k)) = os ! k + ls ! k"
      using section_upto_Suc [OF Suc.prems(1) _ lens(1)] IH Suc.prems(2) lens(2) by simp
    moreover have "os ! k + ls ! k \<le> os ! Suc k"
      using placed_next [OF Suc.prems(1)] Suc.prems(2) by blast
    ultimately show ?case using p by simp
  qed
  then show le: "length (section_upto calls os k) \<le> os ! k" ..
  then show "length (section_upto calls os (Suc k)) = os ! k + length (payload calls k)"
    using section_upto_Suc [OF assms] by simp
qed

lemma vec_prepare:
  assumes pl: "placed a 0 ls os fin" and fits: "length base + fin \<le> usize_MAX"
  shows "vec.stream_at base ls os calls (sw_next_tensor sw) sw \<Longrightarrow> \<forall>call\<in>set calls. fst call < sw_next_tensor sw \<Longrightarrow>
    \<exists>sw'. prepare_next_tensor vec_write_all sw = (Inr (), sw') \<and>
      (sw_next_tensor sw' < length ls \<longrightarrow> ls ! sw_next_tensor sw' \<noteq> 0)"
proof (induction "length ls - sw_next_tensor sw" arbitrary: sw rule: less_induct)
  case (less sw)
  let ?k = "sw_next_tensor sw"
  have at: "sw_tensor_lengths sw = ls" "sw_offsets sw = os" "sw_tensor_data_offset sw = length base"
    "map (length \<circ> payload calls) [0..<?k] = take ?k ls"
    "sw_position sw = length base + length (section_upto calls os ?k)"
    using less.prems(1) by (simp_all add: vec.stream_at_def)
  show ?case
  proof (cases "?k < length ls")
    case False
    then show ?thesis using at by (simp add: prepare_next_tensor.simps [of _ sw])
  next
    case True
    have t: "length base + os ! ?k \<le> usize_MAX"
      using placed_nth [OF pl True] fits by simp
    obtain sw1 where pad: "stream_pad_to vec_write_all (length base + os ! ?k) sw = (Inr (), sw1)"
      using vec_pad_to [of sw "length base + os ! ?k"] section_length(1) [OF pl True at(4)] at(5) by auto
    note step = vec.pad_step [OF pl less.prems(1) True less.prems(2) pad]
    have ls: "sw_tensor_lengths sw1 = ls" using step(2) by (simp add: vec.stream_at_def)
    show ?thesis
    proof (cases "ls ! ?k = 0")
      case zero: True
      let ?sw = "sw1\<lparr>sw_next_tensor := Suc ?k\<rparr>"
      have "prepare_next_tensor vec_write_all sw = prepare_next_tensor vec_write_all ?sw"
        using t at(1-3) True pad step(1) ls zero
        by (simp add: prepare_next_tensor.simps [of _ sw] checked_add_def)
      moreover have "vec.stream_at base ls os calls (sw_next_tensor ?sw) ?sw" using step(3) [OF zero] by simp
      ultimately show ?thesis using less.hyps [of ?sw] True less.prems(2) by fastforce
    next
      case False
      then show ?thesis using t at(1-3) True pad step(1) ls
        by (simp add: prepare_next_tensor.simps [of _ sw] checked_add_def)
    qed
  qed
qed

text \<open>Between calls the current tensor still wants bytes.\<close>
definition wants_more :: "nat list \<Rightarrow> bytes GgufStreamWriter \<Rightarrow> bool" where
  "wants_more ls sw \<longleftrightarrow> (sw_next_tensor sw < length ls \<longrightarrow> sw_tensor_written sw < ls ! sw_next_tensor sw)"

lemma vec_chunk:
  assumes pl: "placed a 0 ls os fin" and fits: "length base + fin \<le> usize_MAX"
    and inv: "vec.stream_inv base ls os calls sw" and k: "sw_next_tensor sw < length ls"
    and len: "length (payload calls (sw_next_tensor sw)) + length c \<le> ls ! sw_next_tensor sw"
  shows "\<exists>sw'. write_tensor_chunk vec_write_all (sw_next_tensor sw) c sw = (Inr (), sw') \<and> wants_more ls sw'"
proof -
  let ?k = "sw_next_tensor sw" and ?calls = "calls @ [(sw_next_tensor sw, c)]"
  have at: "sw_tensor_lengths sw = ls" "sw_offsets sw = os" "sw_tensor_data_offset sw = length base" "\<not> sw_poisoned sw"
    "map (length \<circ> payload calls) [0..<?k] = take ?k ls" "sw_tensor_written sw = length (payload calls ?k)"
    "sw_writer sw = base @ section_upto calls os (Suc ?k)" "sw_position sw = length (sw_writer sw)"
    "\<forall>call\<in>set calls. fst call \<le> ?k"
    using inv k by (simp_all add: vec.stream_inv_def vec.stream_at_def min_def)
  have "os ! ?k + ls ! ?k \<le> fin" "ls ! ?k \<le> usize_MAX" using placed_nth [OF pl k] by auto
  then have ov: "length (payload calls ?k) + length c \<le> usize_MAX" "sw_position sw + length c \<le> usize_MAX"
    using len fits at(7,8) section_length(2) [OF pl k at(5)] by simp_all
  have upto: "section_upto ?calls os (Suc ?k) = section_upto calls os (Suc ?k) @ c"
    by (rule vec.section_upto_chunk [OF pl k at(5)])
  let ?sw = "sw\<lparr>sw_writer := sw_writer sw @ c, sw_position := sw_position sw + length c,
    sw_next_tensor := Suc ?k, sw_tensor_written := 0\<rparr>"
  show ?thesis
  proof (cases "length (payload calls ?k) + length c = ls ! ?k")
    case True
    have before: "map (length \<circ> payload ?calls) [0..<?k] = take ?k ls" using at(5) unfolding payload_before .
    have "payload ?calls (Suc ?k) = []" using at(9) by (intro payload_absent) auto
    moreover have "map (length \<circ> payload ?calls) [0..<Suc ?k] = take (Suc ?k) ls"
      using before True k by (simp add: take_Suc_conv_app_nth)
    ultimately have "vec.stream_at base ls os ?calls (sw_next_tensor ?sw) ?sw"
      using at k upto by (simp add: vec.stream_at_def)
    moreover have "\<forall>call\<in>set ?calls. fst call < sw_next_tensor ?sw" using at(9) by auto
    ultimately obtain sw' where p: "prepare_next_tensor vec_write_all ?sw = (Inr (), sw')"
      and nz: "sw_next_tensor sw' < length ls \<longrightarrow> ls ! sw_next_tensor sw' \<noteq> 0"
      using vec_prepare [OF pl fits] by blast
    have run: "write_tensor_chunk vec_write_all ?k c sw = (Inr (), sw')"
      using at ov True k p by (simp add: write_tensor_chunk_def Let_def checked_add_def vec_write_all_bounded)
    have "vec.stream_inv base ls os ?calls sw'" by (rule vec.chunk_inv [OF pl inv run])
    moreover have "Suc ?k \<le> sw_next_tensor sw'" using prepare_next_mono [OF p] by simp
    ultimately have "sw_tensor_written sw' = 0"
      using at(9) by (auto simp: vec.stream_inv_def vec.stream_at_def intro!: payload_absent)
    with nz run show ?thesis by (auto simp: wants_more_def)
  next
    case False
    then show ?thesis using at ov len k
      by (simp add: write_tensor_chunk_def Let_def checked_add_def vec_write_all_bounded wants_more_def)
  qed
qed

section \<open>Runs\<close>

lemma payload_append: "payload (xs @ ys) i = payload xs i @ payload ys i"
  by (simp add: payload_def)

lemma payload_Cons: "payload ((j, c) # calls) i = (if j = i then c else []) @ payload calls i"
  by (simp add: payload_def)

text \<open>In-order calls always offer the tensor the stream is waiting for.\<close>
lemma next_call_index:
  assumes inv: "vec.stream_inv base ls os past sw" and more: "wants_more ls sw"
    and ord: "sorted (map fst ((i, c) # todo))" and c: "c \<noteq> []" "i < length ls"
    and total: "\<forall>j<length ls. length (payload (past @ (i, c) # todo) j) = ls ! j"
  shows "i = sw_next_tensor sw"
proof -
  let ?k = "sw_next_tensor sw"
  have lens: "map (length \<circ> payload past) [0..<?k] = take ?k ls" and k: "?k \<le> length ls"
    and wr: "sw_tensor_written sw = length (payload past ?k)"
    using inv by (simp_all add: vec.stream_inv_def vec.stream_at_def)
  have "\<not> i < ?k"
  proof
    assume i: "i < ?k"
    have "length (payload past i) = ls ! i"
      using arg_cong [OF lens, of "\<lambda>xs. xs ! i"] i k by simp
    moreover have "length (payload past i) + length c \<le> ls ! i"
      using total c(2) by (auto simp: payload_append payload_Cons)
    ultimately show False using c(1) by simp
  qed
  moreover have "\<not> ?k < i"
  proof
    assume k: "?k < i"
    then have "payload ((i, c) # todo) ?k = []" using ord by (intro payload_absent) auto
    moreover have "length (payload (past @ (i, c) # todo) ?k) = ls ! ?k"
      using total [rule_format, of ?k] k c(2) by simp
    ultimately have "length (payload past ?k) = ls ! ?k" by (simp add: payload_append)
    then show False using more wr k c(2) by (simp add: wants_more_def)
  qed
  ultimately show ?thesis by simp
qed

lemma vec_run:
  assumes pl: "placed a 0 ls os fin" and fits: "length base + fin \<le> usize_MAX"
  shows "vec.stream_inv base ls os past sw \<Longrightarrow> wants_more ls sw \<Longrightarrow> sorted (map fst todo) \<Longrightarrow>
    \<forall>call\<in>set todo. snd call \<noteq> [] \<and> fst call < length ls \<Longrightarrow>
    \<forall>i<length ls. length (payload (past @ todo) i) = ls ! i \<Longrightarrow>
    \<exists>sw'. run_chunks vec_write_all todo sw = (Inr (), sw') \<and> \<not> sw_poisoned sw' \<and>
      sw_tensor_lengths sw' = ls \<and> sw_next_tensor sw' = length ls"
proof (induction todo arbitrary: past sw)
  case Nil
  have "\<not> sw_next_tensor sw < length ls"
  proof
    assume lt: "sw_next_tensor sw < length ls"
    then have "sw_tensor_written sw = ls ! sw_next_tensor sw"
      using Nil.prems(1,5) by (simp add: vec.stream_inv_def vec.stream_at_def)
    with Nil.prems(2) lt show False by (simp add: wants_more_def)
  qed
  with Nil.prems(1) show ?case by (simp add: vec.stream_inv_def vec.stream_at_def)
next
  case (Cons call todo)
  obtain i c where call: "call = (i, c)" by (cases call)
  have i: "i = sw_next_tensor sw" and lt: "i < length ls"
    using next_call_index [OF Cons.prems(1,2)] Cons.prems(3-5) call by auto
  have "length (payload past i) + length c \<le> ls ! i"
    using Cons.prems(5) lt call by (auto simp: payload_append payload_Cons)
  then obtain sw1 where run: "write_tensor_chunk vec_write_all i c sw = (Inr (), sw1)" and more: "wants_more ls sw1"
    using vec_chunk [OF pl fits Cons.prems(1), of c] i lt by auto
  have "vec.stream_inv base ls os (past @ [(i, c)]) sw1" by (rule vec.chunk_inv [OF pl Cons.prems(1) run])
  then obtain sw' where "run_chunks vec_write_all todo sw1 = (Inr (), sw')" "\<not> sw_poisoned sw'"
      "sw_tensor_lengths sw' = ls" "sw_next_tensor sw' = length ls"
    using Cons.IH [OF _ more, of "past @ [(i, c)]"] Cons.prems(3-5) call by auto
  with run call show ?case by simp
qed

lemma vec_new:
  assumes L: "build_layout version md ts = Inr L"
  shows "\<exists>sw. stream_new vec_write_all [] version md ts = Inr sw \<and> wants_more (map sp_data_len ts) sw"
proof -
  obtain a rel where ok: "layout_ok version md ts a rel L" using build_layout_ok [OF L] by blast
  have pl: "placed a 0 (map sp_data_len ts) (la_offsets L) rel" using ok by (simp add: layout_ok_def)
  let ?base = "resize (la_tensor_data_offset L) (la_header L)" and ?ls = "map sp_data_len ts"
  let ?sw0 = "\<lparr>sw_writer = la_header L, sw_tensor_lengths = ?ls,
        sw_offsets = la_offsets L, sw_tensor_data_offset = la_tensor_data_offset L,
        sw_position = length (la_header L), sw_next_tensor = 0, sw_tensor_written = 0, sw_poisoned = False\<rparr>"
  have le: "length (la_header L) \<le> la_tensor_data_offset L" using ok align_up_eq_Inr by (auto simp: layout_ok_def)
  then obtain sw1 where pad: "stream_pad_to vec_write_all (la_tensor_data_offset L) ?sw0 = (Inr (), sw1)"
    using vec_pad_to [of ?sw0] by auto
  have "vec.stream_at ?base ?ls (la_offsets L) [] (sw_next_tensor sw1) sw1"
    using stream_pad_to_fields [OF pad] vec.pad_to_appends [OF pad] le
    by (simp add: vec.stream_at_def section_upto_def resize_def)
  moreover have "length ?base + rel \<le> usize_MAX" using ok le by (simp add: layout_ok_def resize_def)
  ultimately obtain sw where p: "prepare_next_tensor vec_write_all sw1 = (Inr (), sw)"
    and nz: "sw_next_tensor sw < length ?ls \<longrightarrow> ?ls ! sw_next_tensor sw \<noteq> 0"
    using vec_prepare [OF pl, of ?base "[]" sw1] by auto
  have new: "stream_new vec_write_all [] version md ts = Inr sw"
    using L pad p by (simp add: stream_new_def vec_write_all_bounded)
  have "sw_tensor_written sw = 0" using vec.new_inv [OF new refl]
    by (auto simp: vec.stream_inv_def vec.stream_at_def)
  with nz new show ?thesis by (auto simp: wants_more_def)
qed

lemma vec_stream_total:
  assumes w: "write_gguf version md ts = Inr out"
    and ord: "sorted (map fst calls)" and ne: "\<forall>call\<in>set calls. snd call \<noteq> [] \<and> fst call < length ts"
    and data: "\<forall>i<length ts. payload calls i = to_data (ts ! i)"
  shows "\<exists>sw sw'. stream_new vec_write_all [] version md (map spec_of ts) = Inr sw \<and>
    run_chunks vec_write_all calls sw = (Inr (), sw') \<and> stream_finish vec_flush sw' = Inr out"
proof -
  let ?specs = "map spec_of ts" and ?ls = "map sp_data_len (map spec_of ts)"
  obtain L where L: "build_layout version md ?specs = Inr L" using w by (auto simp: write_gguf_def rbind_eq_Inr)
  obtain sw where new: "stream_new vec_write_all [] version md ?specs = Inr sw" and more: "wants_more ?ls sw"
    using vec_new [OF L] by blast
  obtain a rel L' where ok: "layout_ok version md ?specs a rel L'"
    and inv: "vec.stream_inv (resize (la_tensor_data_offset L') (la_header L')) ?ls (la_offsets L') [] sw"
    using vec.new_inv [OF new] by auto
  have pl: "placed a 0 ?ls (la_offsets L') rel" and fits: "la_tensor_data_offset L' + rel \<le> usize_MAX"
    using ok by (simp_all only: layout_ok_def)
  have "length (la_header L') \<le> la_tensor_data_offset L'" using ok align_up_eq_Inr by (auto simp: layout_ok_def)
  then obtain sw' where run: "run_chunks vec_write_all calls sw = (Inr (), sw')" and "\<not> sw_poisoned sw'"
      "sw_tensor_lengths sw' = ?ls" "sw_next_tensor sw' = length ?ls"
    using vec_run [OF pl _ inv more ord] fits ne data by (auto simp: resize_def spec_of_def)
  then have fin: "stream_finish vec_flush sw' = Inr (sw_writer sw')" by (simp add: stream_finish_def vec_flush_def)
  have "map2 (\<lambda>t i. \<lparr>to_name = sp_name t, to_dims = sp_dims t, to_ggml_type = sp_ggml_type t,
      to_data = payload calls i\<rparr>) ?specs [0..<length ?specs] = ts"
    by (rule nth_equalityI) (use data in \<open>simp_all add: spec_of_def\<close>)
  then have "sw_writer sw' = out" using vec.stream_contents [OF new refl run fin] w by simp
  with new run fin show ?thesis by blast
qed

text \<open>C19: whatever container the one-shot writer produces, the stream produces too, for every way of cutting the
  payloads into nonempty chunks offered in tensor order: construction, every chunk and \<open>finish\<close> succeed.\<close>
theorem stream_accepts_any_chunking:
  assumes "write_gguf version md ts = Inr out"
    and "sorted (map fst calls)" and "\<forall>call\<in>set calls. snd call \<noteq> [] \<and> fst call < length ts"
    and "\<forall>i<length ts. payload calls i = to_data (ts ! i)"
  shows "\<exists>sw sw'. stream_new vec_write_all [] version md (map spec_of ts) = Inr sw \<and>
    run_chunks vec_write_all calls sw = (Inr (), sw') \<and> stream_finish vec_flush sw' = Inr out"
  by (rule vec_stream_total [OF assms])

text \<open>The sample container, its payload cut in two.\<close>
lemma sample_chunks:
  "sorted (map fst [(0 :: nat, [1 :: u8]), (0, [255])])"
  "\<forall>call\<in>set [(0 :: nat, [1 :: u8]), (0, [255])]. snd call \<noteq> [] \<and> fst call < length sample_tensors"
  "\<forall>i<length sample_tensors. payload [(0, [1]), (0, [255])] i = to_data (sample_tensors ! i)"
  by (simp_all add: sample_tensors_def payload_def)

theorem stream_accepts_any_chunking_witness:
  "\<exists>out sw sw'. write_gguf 3 sample_metadata sample_tensors = Inr out \<and>
     stream_new vec_write_all [] 3 sample_metadata (map spec_of sample_tensors) = Inr sw \<and>
     run_chunks vec_write_all [(0, [1]), (0, [255])] sw = (Inr (), sw') \<and> stream_finish vec_flush sw' = Inr out"
proof -
  obtain out where w: "write_gguf 3 sample_metadata sample_tensors = Inr out"
    using sample_write by (auto simp: is_ok_iff)
  with stream_accepts_any_chunking [OF w sample_chunks] show ?thesis by blast
qed

theorem stream_refines_write_gguf_witness:
  "\<exists>out sw sw'. stream_new vec_write_all [] 3 sample_metadata (map spec_of sample_tensors) = Inr sw \<and>
     run_chunks vec_write_all [(0, [1]), (0, [255])] sw = (Inr (), sw') \<and> stream_finish vec_flush sw' = Inr out \<and>
     write_gguf 3 sample_metadata (map2 (\<lambda>t i. tensor_of t (payload [(0, [1]), (0, [255])] i))
       (map spec_of sample_tensors) [0..<length (map spec_of sample_tensors)]) = Inr out"
proof -
  obtain out where w: "write_gguf 3 sample_metadata sample_tensors = Inr out"
    using sample_write by (auto simp: is_ok_iff)
  obtain sw sw' where "stream_new vec_write_all [] 3 sample_metadata (map spec_of sample_tensors) = Inr sw"
    "run_chunks vec_write_all [(0, [1]), (0, [255])] sw = (Inr (), sw')" "stream_finish vec_flush sw' = Inr out"
    using vec_stream_total [OF w sample_chunks] by blast
  with stream_refines_write_gguf [OF this] show ?thesis by blast
qed

theorem stream_refusal_is_clean_witness:
  "\<exists>sw0 rs sw. stream_new vec_write_all [] 3 sample_metadata (map spec_of sample_tensors) = Inr sw0
     \<and> refused (fst (write_tensor_chunk vec_write_all 1 [9] sw0)) \<and> refused (fst (write_tensor_chunk vec_write_all 0 [1, 2, 3] sw0))
     \<and> write_calls vec_write_all [(1, [9]), (0, [1, 2, 3]), (0, [1]), (0, [255])] sw0 = (rs, sw)
     \<and> write_calls vec_write_all (calls_with (\<lambda>r. \<not> refused r) [(1, [9]), (0, [1, 2, 3]), (0, [1]), (0, [255])] rs) sw0
       = (filter (\<lambda>r. \<not> refused r) rs, sw)"
proof -
  obtain out where w: "write_gguf 3 sample_metadata sample_tensors = Inr out"
    using sample_write by (auto simp: is_ok_iff)
  obtain sw0 sw' where new: "stream_new vec_write_all [] 3 sample_metadata (map spec_of sample_tensors) = Inr sw0"
    and run: "run_chunks vec_write_all [(0, [1]), (0, [255])] sw0 = (Inr (), sw')"
    using vec_stream_total [OF w sample_chunks] by blast
  obtain rs sw where calls: "write_calls vec_write_all [(1, [9]), (0, [1, 2, 3]), (0, [1]), (0, [255])] sw0 = (rs, sw)" by (metis surj_pair)
  have "\<not> sw_poisoned sw0" using run by (auto simp: write_tensor_chunk_def)
  then have "refused (fst (write_tensor_chunk vec_write_all 1 [9] sw0))" "refused (fst (write_tensor_chunk vec_write_all 0 [1, 2, 3] sw0))"
    using stream_refusal_is_clean [OF new, of "[]" "[]" sw0] by (simp_all add: sample_tensors_def spec_of_def)
  then show ?thesis using new calls stream_refusal_is_clean [OF new calls] by blast
qed

end
