(* ===== verification/Evidence.thy ===== *)
theory Evidence
  imports BTree
begin

unbundle bit_operations_syntax

text \<open>
  The evidence log of \<open>tritium-evidence\<close>: a recorder that appends events to per-span digest chains, the
  verifier of a log, the run root and the aggregation of claim verdicts.  Three third-party functions are
  parameters: \<open>canon\<close> is \<open>serde_json_canonicalizer::to_vec\<close> on a digest body, \<open>h\<close> is BLAKE3 and the payload of
  an event arrives as the result of \<open>serde_json::to_value\<close>.  A \<open>u64\<close> or \<open>u16\<close> field is a natural number.
  The verifier walks up the span hierarchy in a loop that need not end, so it is a partial function: \<^const>\<open>None\<close>
  means that verification does not return.
\<close>

section \<open>Values and errors\<close>

datatype UnknownReason = NotEvaluated | MissingEvidence | MissingCapability | AwaitingIndependentReview | OtherReason

datatype Verdict = Pass | VFail | Unknown UnknownReason

text \<open>\<open>serde_json::Value\<close>; a number is a nonnegative integer, a negative integer or a float.\<close>
datatype json_number = PosInt nat | NegInt int | Float u64

datatype Value =
    Null
  | Bool bool
  | Number json_number
  | JString rstring
  | JArray "Value list"
  | JObject "(rstring \<times> Value) list"

datatype EvidenceError =
    RootMismatch
  | InvalidPayload rstring rstring
  | InvalidRunId
  | InvalidSchemaId rstring
  | UnregisteredSchema rstring
  | DuplicateRegistration rstring
  | InvalidSpan
  | InvalidParent rstring
  | ParentMismatch rstring
  | MissingParent rstring
  | ParentCycle rstring
  | InvalidVersion
  | UnsafeInteger string
  | NonMonotonicTime rstring
  | Canonicalization rstring
  | Serialization rstring
  | EmptyLine nat
  | InvalidJson nat rstring
  | NonCanonicalLine nat
  | InvalidDigest
  | InvalidSequence rstring nat nat
  | SequenceOverflow
  | DigestMismatch rstring nat
  | EmptyRun

definition astr :: "string \<Rightarrow> rstring" where
  "astr s = map of_char s"

definition EVENT_DOMAIN :: bytes where "EVENT_DOMAIN = astr ''tritium.evidence.event.v1'' @ [0]"
definition ROOT_DOMAIN :: bytes where "ROOT_DOMAIN = astr ''tritium.evidence.run-root.v1'' @ [0]"
definition ZERO_DIGEST :: bytes where "ZERO_DIGEST = replicate 32 0"
definition MAX_SAFE_JSON_INTEGER :: nat where "MAX_SAFE_JSON_INTEGER = 2 ^ 53 - 1"

record DigestBody =
  db_schema :: rstring
  db_v :: nat
  db_run :: rstring
  db_seq :: nat
  db_span :: rstring
  db_parent :: "rstring option"
  db_t :: nat
  db_payload :: Value

record EvidenceEnvelope =
  ev_schema :: rstring
  ev_v :: nat
  ev_run :: rstring
  ev_seq :: nat
  ev_span :: rstring
  ev_parent :: "rstring option"
  ev_t :: nat
  ev_payload :: Value
  ev_digest :: rstring

record EventRegistration =
  er_schema :: rstring
  er_version :: nat

record EvidenceRecorder =
  rc_run :: rstring
  rc_registered :: "nat btree"
  rc_next_seq :: "nat btree"
  rc_last_digest :: "bytes btree"
  rc_last_time :: "nat btree"
  rc_span_parent :: "(rstring option) btree"
  rc_events :: "EvidenceEnvelope list"

section \<open>Field validation\<close>

text \<open>\<open>str::split('.')\<close>.\<close>
fun split_dot :: "rstring \<Rightarrow> rstring list" where
  "split_dot [] = [[]]"
| "split_dot (b # bs) =
    (if b = 0x2E then [] # split_dot bs
     else (case split_dot bs of part # parts \<Rightarrow> (b # part) # parts | [] \<Rightarrow> [[b]]))"

definition is_ascii_alphanumeric :: "u8 \<Rightarrow> bool" where
  "is_ascii_alphanumeric b =
    (0x30 \<le> unat b \<and> unat b \<le> 0x39 \<or> 0x41 \<le> unat b \<and> unat b \<le> 0x5A \<or> 0x61 \<le> unat b \<and> unat b \<le> 0x7A)"

definition validate_schema_id :: "rstring \<Rightarrow> EvidenceError + unit" where
  "validate_schema_id schema =
    (let parts = split_dot schema in
     ensure (take 8 schema = astr ''tritium.'' \<and> 3 \<le> length parts \<and>
             list_all (\<lambda>part. part \<noteq> [] \<and>
               list_all (\<lambda>b. is_ascii_alphanumeric b \<or> b = 0x5F \<or> b = 0x2D) part) parts)
       (InvalidSchemaId schema))"

fun json_as_u64 :: "json_number \<Rightarrow> nat option" where
  "json_as_u64 (PosInt n) = Some n"
| "json_as_u64 _ = None"

fun json_as_i64 :: "json_number \<Rightarrow> int option" where
  "json_as_i64 (PosInt n) = (if n < 2 ^ 63 then Some (int n) else None)"
| "json_as_i64 (NegInt i) = Some i"
| "json_as_i64 (Float _) = None"

definition opt_any :: "('a \<Rightarrow> bool) \<Rightarrow> 'a option \<Rightarrow> bool" where
  "opt_any P x = (case x of None \<Rightarrow> False | Some y \<Rightarrow> P y)"

text \<open>The recursion returns the first error in order; only one error is possible.\<close>
fun validate_json_numbers :: "Value \<Rightarrow> EvidenceError + unit" where
  "validate_json_numbers (Number n) =
    ensure (\<not> (opt_any (\<lambda>i. MAX_SAFE_JSON_INTEGER < i) (json_as_u64 n) \<or>
               opt_any (\<lambda>i. int MAX_SAFE_JSON_INTEGER < \<bar>i\<bar>) (json_as_i64 n)))
      (UnsafeInteger ''payload'')"
| "validate_json_numbers (JArray vs) = foldR (\<lambda>v _. validate_json_numbers v) vs ()"
| "validate_json_numbers (JObject kvs) = foldR (\<lambda>kv _. validate_json_numbers (snd kv)) kvs ()"
| "validate_json_numbers Null = Inr ()"
| "validate_json_numbers (Bool _) = Inr ()"
| "validate_json_numbers (JString _) = Inr ()"

section \<open>Digests\<close>

type_synonym canonicalizer = "DigestBody \<Rightarrow> rstring + bytes"

definition event_digest :: "canonicalizer \<Rightarrow> (bytes \<Rightarrow> bytes) \<Rightarrow> bytes \<Rightarrow> DigestBody \<Rightarrow> EvidenceError + bytes" where
  "event_digest canon h previous body =
    rbind (map_err Canonicalization (canon body)) (\<lambda>canonical. Inr (h (EVENT_DOMAIN @ previous @ canonical)))"

definition HEX :: rstring where "HEX = astr ''0123456789abcdef''"

definition hex_byte :: "u8 \<Rightarrow> rstring" where
  "hex_byte b = [HEX ! unat (drop_bit 4 b), HEX ! unat (b AND 0x0F)]"

definition encode_hex :: "bytes \<Rightarrow> rstring" where
  "encode_hex bs = concat (map hex_byte bs)"

definition hex_nibble :: "u8 \<Rightarrow> u8 option" where
  "hex_nibble b =
    (if 0x30 \<le> unat b \<and> unat b \<le> 0x39 then Some (b - 0x30)
     else if 0x61 \<le> unat b \<and> unat b \<le> 0x66 then Some (b - 0x61 + 10)
     else None)"

definition decode_hex :: "rstring \<Rightarrow> EvidenceError + bytes" where
  "decode_hex value =
    (if length value \<noteq> 64 \<or>
        \<not> list_all (\<lambda>b. 0x30 \<le> unat b \<and> unat b \<le> 0x39 \<or> 0x61 \<le> unat b \<and> unat b \<le> 0x66) value
     then Inl InvalidDigest
     else mapR (\<lambda>i.
       rbind (ok_or (hex_nibble (value ! (2 * i))) InvalidDigest) (\<lambda>high.
       rbind (ok_or (hex_nibble (value ! (2 * i + 1))) InvalidDigest) (\<lambda>low.
       Inr (push_bit 4 high OR low)))) [0..<32])"

definition root_digest :: "(bytes \<Rightarrow> bytes) \<Rightarrow> bytes btree \<Rightarrow> EvidenceError + rstring" where
  "root_digest h spans =
    (if spans = [] then Inl EmptyRun
     else Inr (encode_hex (h (ROOT_DOMAIN
       @ concat (map (\<lambda>(span, digest). le64 (of_nat (length span)) @ span @ digest) spans)))))"

definition final_digests :: "EvidenceEnvelope list \<Rightarrow> EvidenceError + bytes btree" where
  "final_digests events =
    foldR (\<lambda>event roots. rbind (decode_hex (ev_digest event)) (\<lambda>d. Inr (btree_insert (ev_span event) d roots))) events []"

section \<open>The recorder\<close>

fun show_nat :: "nat \<Rightarrow> rstring" where
  "show_nat n = (if n < 10 then [of_nat (48 + n)] else show_nat (n div 10) @ [of_nat (48 + n mod 10)])"

declare show_nat.simps [simp del]

definition register :: "EventRegistration \<Rightarrow> nat btree \<Rightarrow> EvidenceError + nat btree" where
  "register r schemas =
    rbind (validate_schema_id (er_schema r)) (\<lambda>_.
    rbind (ensure (er_version r \<noteq> 0) InvalidVersion) (\<lambda>_.
    rbind (ensure (btree_get (er_schema r) schemas = None) (DuplicateRegistration (er_schema r))) (\<lambda>_.
    Inr (btree_insert (er_schema r) (er_version r) schemas))))"

definition recorder_new :: "rstring \<Rightarrow> EventRegistration list \<Rightarrow> EvidenceError + EvidenceRecorder" where
  "recorder_new run registered =
    (if run = [] then Inl InvalidRunId
     else rbind (foldR register registered []) (\<lambda>schemas.
       Inr \<lparr>rc_run = run, rc_registered = schemas, rc_next_seq = [], rc_last_digest = [], rc_last_time = [],
            rc_span_parent = [], rc_events = []\<rparr>))"

definition unwrap_or :: "'a \<Rightarrow> 'a option \<Rightarrow> 'a" where
  "unwrap_or d x = (case x of None \<Rightarrow> d | Some y \<Rightarrow> y)"

definition check_emit :: "rstring \<Rightarrow> nat \<Rightarrow> rstring \<Rightarrow> rstring option \<Rightarrow> nat \<Rightarrow> EvidenceRecorder \<Rightarrow> EvidenceError + unit" where
  "check_emit schema version span parent logical_time r =
    rbind (ensure (btree_get schema (rc_registered r) = Some version)
             (UnregisteredSchema (schema @ [0x40] @ show_nat version))) (\<lambda>_.
    rbind (ensure (\<not> (span = [] \<or> parent = Some [])) InvalidSpan) (\<lambda>_.
    rbind (ensure (parent \<noteq> Some span) (InvalidParent span)) (\<lambda>_.
    rbind (ensure (\<not> opt_any (\<lambda>previous. previous \<noteq> parent) (btree_get span (rc_span_parent r)))
             (ParentMismatch span)) (\<lambda>_.
    rbind (ensure (version \<noteq> 0) InvalidVersion) (\<lambda>_.
    rbind (ensure (logical_time \<le> MAX_SAFE_JSON_INTEGER) (UnsafeInteger ''t'')) (\<lambda>_.
    rbind (ensure (\<not> opt_any (\<lambda>previous_time. logical_time < previous_time) (btree_get span (rc_last_time r)))
             (NonMonotonicTime span)) (\<lambda>_.
    let seq = unwrap_or 0 (btree_get span (rc_next_seq r)) in
    rbind (ensure (seq \<le> MAX_SAFE_JSON_INTEGER) (UnsafeInteger ''seq'')) (\<lambda>_.
    rbind (ok_or (checked_add seq 1) SequenceOverflow) (\<lambda>_. Inr ())))))))))"

definition or_insert :: "rstring \<Rightarrow> 'v \<Rightarrow> 'v btree \<Rightarrow> 'v btree" where
  "or_insert k v m = (case btree_get k m of None \<Rightarrow> btree_insert k v m | Some _ \<Rightarrow> m)"

definition emit :: "canonicalizer \<Rightarrow> (bytes \<Rightarrow> bytes) \<Rightarrow> rstring \<Rightarrow> nat \<Rightarrow> rstring \<Rightarrow> rstring option \<Rightarrow> nat
    \<Rightarrow> rstring + Value \<Rightarrow> EvidenceRecorder \<Rightarrow> EvidenceError + EvidenceRecorder" where
  "emit canon h schema version span parent logical_time to_value r =
    rbind (check_emit schema version span parent logical_time r) (\<lambda>_.
    rbind (map_err Serialization to_value) (\<lambda>payload.
    rbind (validate_json_numbers payload) (\<lambda>_.
    let seq = unwrap_or 0 (btree_get span (rc_next_seq r)) in
    rbind (ok_or (checked_add seq 1) SequenceOverflow) (\<lambda>next_seq.
    let body = \<lparr>db_schema = schema, db_v = version, db_run = rc_run r, db_seq = seq, db_span = span,
          db_parent = parent, db_t = logical_time, db_payload = payload\<rparr>;
        previous = unwrap_or ZERO_DIGEST (btree_get span (rc_last_digest r)) in
    rbind (event_digest canon h previous body) (\<lambda>digest.
    let envelope = \<lparr>ev_schema = schema, ev_v = version, ev_run = rc_run r, ev_seq = seq, ev_span = span,
          ev_parent = parent, ev_t = logical_time, ev_payload = payload, ev_digest = encode_hex digest\<rparr> in
    Inr (r\<lparr>rc_span_parent := or_insert span parent (rc_span_parent r),
           rc_next_seq := btree_insert span next_seq (rc_next_seq r),
           rc_last_digest := btree_insert span digest (rc_last_digest r),
           rc_last_time := btree_insert span logical_time (rc_last_time r),
           rc_events := rc_events r @ [envelope]\<rparr>))))))"

section \<open>The verifier\<close>

record verify_state =
  vs_next_seq :: "nat btree"
  vs_last_digest :: "bytes btree"
  vs_last_time :: "nat btree"
  vs_span_parent :: "(rstring option) btree"
  vs_run :: "rstring option"

definition body_of :: "EvidenceEnvelope \<Rightarrow> DigestBody" where
  "body_of e = \<lparr>db_schema = ev_schema e, db_v = ev_v e, db_run = ev_run e, db_seq = ev_seq e, db_span = ev_span e,
     db_parent = ev_parent e, db_t = ev_t e, db_payload = ev_payload e\<rparr>"

definition check_fields :: "EvidenceEnvelope \<Rightarrow> verify_state \<Rightarrow> EvidenceError + unit" where
  "check_fields e st =
    rbind (validate_schema_id (ev_schema e)) (\<lambda>_.
    rbind (ensure (ev_v e \<noteq> 0) InvalidVersion) (\<lambda>_.
    rbind (ensure (ev_seq e \<le> MAX_SAFE_JSON_INTEGER) (UnsafeInteger ''seq'')) (\<lambda>_.
    rbind (ensure (ev_t e \<le> MAX_SAFE_JSON_INTEGER) (UnsafeInteger ''t'')) (\<lambda>_.
    rbind (ensure (\<not> opt_any (\<lambda>previous_time. ev_t e < previous_time) (btree_get (ev_span e) (vs_last_time st)))
             (NonMonotonicTime (ev_span e))) (\<lambda>_.
    rbind (validate_json_numbers (ev_payload e)) (\<lambda>_.
    rbind (ensure (\<not> (ev_span e = [] \<or> ev_parent e = Some [])) InvalidSpan) (\<lambda>_.
    rbind (ensure (ev_parent e \<noteq> Some (ev_span e)) (InvalidParent (ev_span e))) (\<lambda>_.
    rbind (ensure (\<not> opt_any (\<lambda>previous. previous \<noteq> ev_parent e) (btree_get (ev_span e) (vs_span_parent st)))
             (ParentMismatch (ev_span e))) (\<lambda>_.
    ensure (case vs_run st of Some expected_v \<Rightarrow> expected_v = ev_run e | None \<Rightarrow> ev_run e \<noteq> []) InvalidRunId)))))))))"

definition verify_event :: "canonicalizer \<Rightarrow> (bytes \<Rightarrow> bytes) \<Rightarrow> EvidenceEnvelope \<Rightarrow> verify_state \<Rightarrow> EvidenceError + verify_state" where
  "verify_event canon h e st =
    rbind (check_fields e st) (\<lambda>_.
    let expected_v = unwrap_or 0 (btree_get (ev_span e) (vs_next_seq st)) in
    rbind (ensure (ev_seq e = expected_v) (InvalidSequence (ev_span e) expected_v (ev_seq e))) (\<lambda>_.
    let previous = unwrap_or ZERO_DIGEST (btree_get (ev_span e) (vs_last_digest st)) in
    rbind (event_digest canon h previous (body_of e)) (\<lambda>digest.
    rbind (ensure (ev_digest e = encode_hex digest) (DigestMismatch (ev_span e) (ev_seq e))) (\<lambda>_.
    rbind (ok_or (checked_add expected_v 1) SequenceOverflow) (\<lambda>next_seq.
    Inr \<lparr>vs_next_seq = btree_insert (ev_span e) next_seq (vs_next_seq st),
         vs_last_digest = btree_insert (ev_span e) digest (vs_last_digest st),
         vs_last_time = btree_insert (ev_span e) (ev_t e) (vs_last_time st),
         vs_span_parent = or_insert (ev_span e) (ev_parent e) (vs_span_parent st),
         vs_run = Some (ev_run e)\<rparr>)))))"

definition verify_start :: verify_state where
  "verify_start = \<lparr>vs_next_seq = [], vs_last_digest = [], vs_last_time = [], vs_span_parent = [], vs_run = None\<rparr>"

text \<open>The walk from a span to its root.\<close>
partial_function (option) ancestor_walk ::
  "(rstring option) btree \<Rightarrow> rstring \<Rightarrow> rstring option \<Rightarrow> (EvidenceError + unit) option" where
  "ancestor_walk parents span ancestor =
    (case ancestor of None \<Rightarrow> Some (Inr ())
     | Some current \<Rightarrow>
         if current = span then Some (Inl (ParentCycle span))
         else ancestor_walk parents span (Option.bind (btree_get current parents) (\<lambda>p. p)))"

declare ancestor_walk.simps [code]

fun verify_spans :: "(rstring option) btree \<Rightarrow> (rstring \<times> rstring option) list \<Rightarrow> (EvidenceError + unit) option" where
  "verify_spans parents [] = Some (Inr ())"
| "verify_spans parents ((span, None) # rest) = verify_spans parents rest"
| "verify_spans parents ((span, Some parent) # rest) =
    (if btree_get parent parents = None then Some (Inl (MissingParent parent))
     else (case ancestor_walk parents span (Some parent) of
             None \<Rightarrow> None
           | Some (Inl e) \<Rightarrow> Some (Inl e)
           | Some (Inr _) \<Rightarrow> verify_spans parents rest))"

definition verify_events :: "canonicalizer \<Rightarrow> (bytes \<Rightarrow> bytes) \<Rightarrow> EvidenceEnvelope list \<Rightarrow> (EvidenceError + unit) option" where
  "verify_events canon h events =
    (case foldR (verify_event canon h) events verify_start of
       Inl e \<Rightarrow> Some (Inl e)
     | Inr st \<Rightarrow>
         if events = [] then Some (Inl EmptyRun)
         else verify_spans (vs_span_parent st) (vs_span_parent st))"

definition recorder_root_digest :: "canonicalizer \<Rightarrow> (bytes \<Rightarrow> bytes) \<Rightarrow> EvidenceRecorder \<Rightarrow> (EvidenceError + rstring) option" where
  "recorder_root_digest canon h r =
    (case verify_events canon h (rc_events r) of
       None \<Rightarrow> None
     | Some (Inl e) \<Rightarrow> Some (Inl e)
     | Some (Inr _) \<Rightarrow> Some (root_digest h (rc_last_digest r)))"

record VerifiedLog =
  vl_events :: "EvidenceEnvelope list"
  vl_root_digest :: rstring

definition verify_log :: "canonicalizer \<Rightarrow> (bytes \<Rightarrow> bytes) \<Rightarrow> VerifiedLog \<Rightarrow> (EvidenceError + unit) option" where
  "verify_log canon h log =
    (case verify_events canon h (vl_events log) of
       None \<Rightarrow> None
     | Some (Inl e) \<Rightarrow> Some (Inl e)
     | Some (Inr _) \<Rightarrow> Some (
         rbind (final_digests (vl_events log)) (\<lambda>digests.
         rbind (root_digest h digests) (\<lambda>root.
         ensure (root = vl_root_digest log) RootMismatch))))"

section \<open>The JSON Lines form\<close>

text \<open>
  The wire functions are \<open>serde_json::from_str\<close> and \<open>serde_json_canonicalizer::to_string\<close> on an envelope, again
  parameters.  \<open>str::lines\<close> and the test \<open>trim().is_empty()\<close> are written out on UTF-8 bytes.
\<close>

type_synonym wire_parser = "rstring \<Rightarrow> rstring + EvidenceEnvelope"
type_synonym wire_printer = "EvidenceEnvelope \<Rightarrow> rstring + rstring"

fun split_inclusive_nl :: "rstring \<Rightarrow> rstring list" where
  "split_inclusive_nl [] = []"
| "split_inclusive_nl (b # bs) =
    (if b = 0x0A then [b] # split_inclusive_nl bs
     else (case split_inclusive_nl bs of line # rest \<Rightarrow> (b # line) # rest | [] \<Rightarrow> [[b]]))"

definition strip_suffix :: "u8 \<Rightarrow> rstring \<Rightarrow> rstring option" where
  "strip_suffix b line = (if line \<noteq> [] \<and> last line = b then Some (butlast line) else None)"

definition strip_eol :: "rstring \<Rightarrow> rstring" where
  "strip_eol line = (case strip_suffix 0x0A line of None \<Rightarrow> line
     | Some l \<Rightarrow> (case strip_suffix 0x0D l of None \<Rightarrow> l | Some l' \<Rightarrow> l'))"

definition str_lines :: "rstring \<Rightarrow> rstring list" where
  "str_lines input = map strip_eol (split_inclusive_nl input)"

text \<open>The UTF-8 encodings of the characters with the property White\_Space.\<close>
definition white_space :: "rstring list" where
  "white_space = [[0x09], [0x0A], [0x0B], [0x0C], [0x0D], [0x20], [0xC2, 0x85], [0xC2, 0xA0], [0xE1, 0x9A, 0x80]]
    @ map (\<lambda>b. [0xE2, 0x80, b]) [0x80, 0x81, 0x82, 0x83, 0x84, 0x85, 0x86, 0x87, 0x88, 0x89, 0x8A, 0xA8, 0xA9, 0xAF]
    @ [[0xE2, 0x81, 0x9F], [0xE3, 0x80, 0x80]]"

definition ws_len :: "rstring \<Rightarrow> nat" where
  "ws_len bs = (case find (\<lambda>w. take (length w) bs = w) white_space of None \<Rightarrow> 0 | Some w \<Rightarrow> length w)"

function trim_is_empty :: "rstring \<Rightarrow> bool" where
  "trim_is_empty bs = (if bs = [] then True else if ws_len bs = 0 then False else trim_is_empty (drop (ws_len bs) bs))"
  by pat_completeness auto
termination by (relation "measure length") auto

declare trim_is_empty.simps [simp del]

definition parse_line :: "wire_parser \<Rightarrow> wire_printer \<Rightarrow> nat \<times> rstring \<Rightarrow> EvidenceError + EvidenceEnvelope" where
  "parse_line from_str to_str il =
    (case il of (line_index, line) \<Rightarrow>
    rbind (ensure (\<not> trim_is_empty line) (EmptyLine (line_index + 1))) (\<lambda>_.
    rbind (map_err (InvalidJson (line_index + 1)) (from_str line)) (\<lambda>event.
    rbind (map_err Canonicalization (to_str event)) (\<lambda>canonical.
    rbind (ensure (canonical = line) (NonCanonicalLine (line_index + 1))) (\<lambda>_.
    Inr event)))))"

definition verify_jsonl :: "canonicalizer \<Rightarrow> (bytes \<Rightarrow> bytes) \<Rightarrow> wire_parser \<Rightarrow> wire_printer \<Rightarrow> rstring
    \<Rightarrow> (EvidenceError + VerifiedLog) option" where
  "verify_jsonl canon h from_str to_str input =
    (case mapR (parse_line from_str to_str) (List.enumerate 0 (str_lines input)) of
       Inl e \<Rightarrow> Some (Inl e)
     | Inr events \<Rightarrow>
         (case verify_events canon h events of
            None \<Rightarrow> None
          | Some (Inl e) \<Rightarrow> Some (Inl e)
          | Some (Inr _) \<Rightarrow> Some (
              rbind (final_digests events) (\<lambda>digests.
              rbind (root_digest h digests) (\<lambda>root.
              Inr \<lparr>vl_events = events, vl_root_digest = root\<rparr>)))))"

definition check_registered :: "nat btree \<Rightarrow> EvidenceEnvelope \<Rightarrow> EvidenceError \<Rightarrow> EvidenceError + unit" where
  "check_registered registry event err = ensure (btree_get (ev_schema event) registry = Some (ev_v event)) err"

definition verify_jsonl_with_registry :: "canonicalizer \<Rightarrow> (bytes \<Rightarrow> bytes) \<Rightarrow> wire_parser \<Rightarrow> wire_printer \<Rightarrow> rstring
    \<Rightarrow> EventRegistration list \<Rightarrow> (EvidenceError + VerifiedLog) option" where
  "verify_jsonl_with_registry canon h from_str to_str input registered =
    (case foldR register registered [] of
       Inl e \<Rightarrow> Some (Inl e)
     | Inr registry \<Rightarrow> map_option (\<lambda>res.
         rbind res (\<lambda>verified.
         rbind (foldR (\<lambda>event _. check_registered registry event
                  (UnregisteredSchema (ev_schema event @ [0x40] @ show_nat (ev_v event)))) (vl_events verified) ()) (\<lambda>_.
         Inr verified))) (verify_jsonl canon h from_str to_str input))"

definition to_jsonl :: "wire_printer \<Rightarrow> EvidenceRecorder \<Rightarrow> EvidenceError + rstring" where
  "to_jsonl to_str r =
    foldR (\<lambda>event output. rbind (map_err Canonicalization (to_str event)) (\<lambda>text. Inr (output @ text @ [0x0A])))
      (rc_events r) []"

record SealedEvidence =
  se_run :: rstring
  se_jsonl :: rstring
  se_log :: VerifiedLog
  se_root :: bytes

definition seal :: "canonicalizer \<Rightarrow> (bytes \<Rightarrow> bytes) \<Rightarrow> wire_parser \<Rightarrow> wire_printer \<Rightarrow> EvidenceRecorder
    \<Rightarrow> (EvidenceError + SealedEvidence) option" where
  "seal canon h from_str to_str r =
    (case to_jsonl to_str r of
       Inl e \<Rightarrow> Some (Inl e)
     | Inr jsonl \<Rightarrow> map_option (\<lambda>res.
         rbind res (\<lambda>log.
         rbind (foldR (\<lambda>event _. check_registered (rc_registered r) event (UnregisteredSchema (ev_schema event)))
                  (vl_events log) ()) (\<lambda>_.
         rbind (decode_hex (vl_root_digest log)) (\<lambda>root.
         Inr \<lparr>se_run = rc_run r, se_jsonl = jsonl, se_log = log, se_root = root\<rparr>))))
         (verify_jsonl canon h from_str to_str jsonl))"

section \<open>Claims\<close>

record ClaimVerdict =
  cv_required :: bool
  cv_requires_independent :: bool
  cv_independently_cleared :: bool
  cv_verdict :: Verdict

fun first_unknown :: "ClaimVerdict list \<Rightarrow> Verdict" where
  "first_unknown [] = Pass"
| "first_unknown (claim # claims) =
    (if cv_requires_independent claim \<and> \<not> cv_independently_cleared claim then Unknown AwaitingIndependentReview
     else (case cv_verdict claim of Unknown reason \<Rightarrow> Unknown reason | _ \<Rightarrow> first_unknown claims))"

definition aggregate_required :: "ClaimVerdict list \<Rightarrow> Verdict" where
  "aggregate_required claims =
    (let required = filter cv_required claims in
     if required = [] then Unknown MissingEvidence
     else if list_ex (\<lambda>claim. cv_verdict claim = VFail) required then VFail
     else first_unknown required)"

end
