(* ===== verification/EvidenceLog.thy ===== *)
theory EvidenceLog
  imports Evidence
begin

unbundle bit_operations_syntax

text \<open>
  Correctness of the evidence log: the hexadecimal codec, the recorder as a transition system with its invariant,
  the span hierarchy test, sealing and the binding of a log to its run root.
\<close>

section \<open>The hexadecimal codec\<close>

definition hex_char :: "u8 \<Rightarrow> bool" where
  "hex_char x \<longleftrightarrow> 0x30 \<le> unat x \<and> unat x \<le> 0x39 \<or> 0x61 \<le> unat x \<and> unat x \<le> 0x66"

lemma hex_digits: "list_all (\<lambda>n. hex_char (HEX ! n) \<and> hex_nibble (HEX ! n) = Some (of_nat n)) [0..<16]"
  by code_simp

lemma hex_digit: "n < 16 \<Longrightarrow> hex_char (HEX ! n) \<and> hex_nibble (HEX ! n) = Some (of_nat n)"
  using hex_digits by (simp add: list_all_iff)

lemma nibbles: "push_bit 4 (drop_bit 4 b) OR (b AND 0x0F) = (b :: u8)"
proof -
  have "(0x0F :: u8) = mask 4" by (simp add: mask_eq_exp_minus_1)
  then show ?thesis by (simp add: bit_eq_iff bit_simps) auto
qed

lemma hex_byteE:
  obtains a c hi lo where "hex_byte b = [a, c]" "hex_nibble a = Some hi" "hex_nibble c = Some lo" "push_bit 4 hi OR lo = b"
    "hex_char a" "hex_char c"
proof -
  have "unat b < 2 ^ LENGTH(8)" by (rule unsigned_less)
  then have hi: "unat (drop_bit 4 b) < 16" by (simp add: drop_bit_eq_div unat_div less_mult_imp_div_less)
  have "unat (b AND 0x0F) \<le> unat (0x0F :: u8)" by (metis word_and_le1 word_le_nat_alt)
  then have lo: "unat (b AND 0x0F) < 16" by simp
  show thesis using that hex_digit [OF hi] hex_digit [OF lo] nibbles [of b] by (simp add: hex_byte_def)
qed

lemma length_hex_byte [simp]: "length (hex_byte b) = 2"
  by (simp add: hex_byte_def)

lemma length_encode_hex [simp]: "length (encode_hex bs) = 2 * length bs"
  by (induction bs) (simp_all add: encode_hex_def)

lemma encode_hex_Cons: "encode_hex (b # bs) = hex_byte b @ encode_hex bs"
  by (simp add: encode_hex_def)

lemma encode_hex_nth: "i < length bs \<Longrightarrow>
    encode_hex bs ! (2 * i) = hex_byte (bs ! i) ! 0 \<and> encode_hex bs ! (2 * i + 1) = hex_byte (bs ! i) ! 1"
proof (induction bs arbitrary: i)
  case (Cons b bs)
  then show ?case
    by (cases i) (auto simp: encode_hex_Cons nth_append)
qed simp

lemma encode_hex_chars: "list_all hex_char (encode_hex bs)"
proof (induction bs)
  case (Cons b bs)
  then show ?case by (cases rule: hex_byteE [of b]) (simp add: encode_hex_Cons)
qed (simp add: encode_hex_def)

lemma decode_encode_hex: "length bs = 32 \<Longrightarrow> decode_hex (encode_hex bs) = Inr bs"
proof -
  assume len: "length bs = 32"
  have "mapR (\<lambda>i. rbind (ok_or (hex_nibble (encode_hex bs ! (2 * i))) InvalidDigest) (\<lambda>high.
       rbind (ok_or (hex_nibble (encode_hex bs ! (2 * i + 1))) InvalidDigest) (\<lambda>low.
       Inr (push_bit 4 high OR low)))) [0..<32] = Inr (map ((!) bs) [0..<32])"
  proof (rule mapR_map)
    fix i assume "i \<in> set [0..<32::nat]"
    then have i: "i < length bs" using len by simp
    show "rbind (ok_or (hex_nibble (encode_hex bs ! (2 * i))) InvalidDigest) (\<lambda>high.
       rbind (ok_or (hex_nibble (encode_hex bs ! (2 * i + 1))) InvalidDigest) (\<lambda>low.
       Inr (push_bit 4 high OR low))) = Inr (bs ! i)"
      using encode_hex_nth [OF i] by (cases rule: hex_byteE [of "bs ! i"]) (simp add: ok_or_def)
  qed
  moreover have "map ((!) bs) [0..<32] = bs" using len by (metis map_nth)
  ultimately show ?thesis using encode_hex_chars [of bs] len by (simp add: decode_hex_def hex_char_def [abs_def])
qed

lemma encode_hex_inj: "length a = 32 \<Longrightarrow> length b = 32 \<Longrightarrow> encode_hex a = encode_hex b \<Longrightarrow> a = b"
  using decode_encode_hex by (metis sum.inject(2))

section \<open>The recorder as a transition system\<close>

inductive recorded :: "canonicalizer \<Rightarrow> (bytes \<Rightarrow> bytes) \<Rightarrow> EvidenceRecorder \<Rightarrow> bool" for canon h where
  rec_new: "recorder_new run registered = Inr r \<Longrightarrow> recorded canon h r"
| rec_emit: "recorded canon h r \<Longrightarrow> emit canon h schema version span parent t to_value r = Inr r' \<Longrightarrow> recorded canon h r'"

definition registry_ok :: "nat btree \<Rightarrow> bool" where
  "registry_ok m \<longleftrightarrow> btree_inv m \<and> (\<forall>s v. btree_get s m = Some v \<longrightarrow> validate_schema_id s = Inr () \<and> v \<noteq> 0)"

lemma register_ok: "register x m = Inr m' \<Longrightarrow> registry_ok m \<Longrightarrow> registry_ok m'"
  by (auto simp: register_def rbind_eq_Inr registry_ok_def bt.ins_inv bt.get_ins split: if_splits)

lemma registry_fold: "foldR register xs m = Inr m' \<Longrightarrow> registry_ok m \<Longrightarrow> registry_ok m'"
  by (rule foldR_invariant [where P = registry_ok]) (auto intro: register_ok)

lemma registry_empty: "registry_ok []"
  by (simp add: registry_ok_def bt.emp_inv bt.get_emp)

text \<open>What the verifier has accumulated after the events of a recorder.\<close>
definition verifier_view :: "EvidenceRecorder \<Rightarrow> verify_state" where
  "verifier_view r = \<lparr>vs_next_seq = rc_next_seq r, vs_last_digest = rc_last_digest r, vs_last_time = rc_last_time r,
     vs_span_parent = rc_span_parent r, vs_run = (if rc_events r = [] then None else Some (rc_run r))\<rparr>"

definition rec_inv :: "canonicalizer \<Rightarrow> (bytes \<Rightarrow> bytes) \<Rightarrow> EvidenceRecorder \<Rightarrow> bool" where
  "rec_inv canon h r \<longleftrightarrow> rc_run r \<noteq> [] \<and> registry_ok (rc_registered r) \<and>
     list_all (\<lambda>e. btree_get (ev_schema e) (rc_registered r) = Some (ev_v e)) (rc_events r) \<and>
     foldR (verify_event canon h) (rc_events r) verify_start = Inr (verifier_view r)"

lemma recorder_new_inv: "recorder_new run registered = Inr r \<Longrightarrow> rec_inv canon h r"
  by (auto simp: recorder_new_def rec_inv_def rbind_eq_Inr verifier_view_def verify_start_def
      intro: registry_fold registry_empty split: if_splits)

lemma emitD:
  assumes "emit canon h schema version span parent t to_value r = Inr r'"
  obtains payload digest where
    "check_emit schema version span parent t r = Inr ()" "to_value = Inr payload" "validate_json_numbers payload = Inr ()"
    "event_digest canon h (unwrap_or ZERO_DIGEST (btree_get span (rc_last_digest r)))
       \<lparr>db_schema = schema, db_v = version, db_run = rc_run r, db_seq = unwrap_or 0 (btree_get span (rc_next_seq r)),
        db_span = span, db_parent = parent, db_t = t, db_payload = payload\<rparr> = Inr digest"
    "r' = r\<lparr>rc_span_parent := or_insert span parent (rc_span_parent r),
        rc_next_seq := btree_insert span (unwrap_or 0 (btree_get span (rc_next_seq r)) + 1) (rc_next_seq r),
        rc_last_digest := btree_insert span digest (rc_last_digest r),
        rc_last_time := btree_insert span t (rc_last_time r),
        rc_events := rc_events r @ [\<lparr>ev_schema = schema, ev_v = version, ev_run = rc_run r,
          ev_seq = unwrap_or 0 (btree_get span (rc_next_seq r)), ev_span = span, ev_parent = parent, ev_t = t,
          ev_payload = payload, ev_digest = encode_hex digest\<rparr>]\<rparr>"
  using assms that
  by (cases to_value) (auto simp: emit_def rbind_eq_Inr Let_def ok_or_def map_err_def split: option.splits)

lemma emit_verified:
  assumes inv: "rec_inv canon h r" and emit: "emit canon h schema version span parent t to_value r = Inr r'"
  shows "rec_inv canon h r'"
proof -
  obtain payload digest where p: "check_emit schema version span parent t r = Inr ()" "to_value = Inr payload"
      "validate_json_numbers payload = Inr ()" and
    d: "event_digest canon h (unwrap_or ZERO_DIGEST (btree_get span (rc_last_digest r)))
       \<lparr>db_schema = schema, db_v = version, db_run = rc_run r, db_seq = unwrap_or 0 (btree_get span (rc_next_seq r)),
        db_span = span, db_parent = parent, db_t = t, db_payload = payload\<rparr> = Inr digest" and
    r': "r' = r\<lparr>rc_span_parent := or_insert span parent (rc_span_parent r),
        rc_next_seq := btree_insert span (unwrap_or 0 (btree_get span (rc_next_seq r)) + 1) (rc_next_seq r),
        rc_last_digest := btree_insert span digest (rc_last_digest r),
        rc_last_time := btree_insert span t (rc_last_time r),
        rc_events := rc_events r @ [\<lparr>ev_schema = schema, ev_v = version, ev_run = rc_run r,
          ev_seq = unwrap_or 0 (btree_get span (rc_next_seq r)), ev_span = span, ev_parent = parent, ev_t = t,
          ev_payload = payload, ev_digest = encode_hex digest\<rparr>]\<rparr>"
    using emit by (rule emitD)
  let ?e = "\<lparr>ev_schema = schema, ev_v = version, ev_run = rc_run r,
          ev_seq = unwrap_or 0 (btree_get span (rc_next_seq r)), ev_span = span, ev_parent = parent, ev_t = t,
          ev_payload = payload, ev_digest = encode_hex digest\<rparr>"
  have reg: "btree_get schema (rc_registered r) = Some version"
    and seq: "unwrap_or 0 (btree_get span (rc_next_seq r)) + 1 \<le> usize_MAX"
    using p(1) by (auto simp: check_emit_def rbind_eq_Inr Let_def ok_or_def split: option.splits)
  then have schema: "validate_schema_id schema = Inr ()" "version \<noteq> 0" using inv by (auto simp: rec_inv_def registry_ok_def)
  have f: "check_fields ?e (verifier_view r) = Inr ()"
    using p schema inv by (auto simp: check_emit_def check_fields_def rbind_eq_Inr Let_def verifier_view_def rec_inv_def)
  have "verify_event canon h ?e (verifier_view r) = Inr (verifier_view r')"
    using f d seq by (simp add: verify_event_def verifier_view_def r' body_of_def Let_def ok_or_def checked_add_def)
  then show ?thesis using inv reg by (simp add: rec_inv_def r' foldR_append)
qed

lemma recorded_inv: "recorded canon h r \<Longrightarrow> rec_inv canon h r"
  by (induction rule: recorded.induct) (auto intro: recorder_new_inv emit_verified)

lemma or_insert_inv: "btree_inv m \<Longrightarrow> btree_inv (or_insert k v m)"
  by (simp add: or_insert_def bt.ins_inv split: option.splits)

definition verify_inv :: "verify_state \<Rightarrow> bool" where
  "verify_inv st \<longleftrightarrow> btree_inv (vs_next_seq st) \<and> btree_inv (vs_last_digest st) \<and> btree_inv (vs_last_time st) \<and>
     btree_inv (vs_span_parent st)"

lemma verify_start_inv: "verify_inv verify_start"
  by (simp add: verify_inv_def verify_start_def bt.emp_inv)

lemma verify_event_inv: "verify_event canon h e st = Inr st' \<Longrightarrow> verify_inv st \<Longrightarrow> verify_inv st'"
  by (auto simp: verify_event_def rbind_eq_Inr Let_def verify_inv_def bt.ins_inv or_insert_inv)

lemma verify_fold_inv: "foldR (verify_event canon h) es verify_start = Inr st \<Longrightarrow> verify_inv st"
  by (rule foldR_invariant [where P = verify_inv]) (auto intro: verify_event_inv verify_start_inv)

lemma rec_inv_maps: "rec_inv canon h r \<Longrightarrow> verify_inv (verifier_view r)"
  by (auto simp: rec_inv_def intro: verify_fold_inv)

section \<open>The span hierarchy\<close>

definition parent_rel :: "(rstring option) btree \<Rightarrow> (rstring \<times> rstring) set" where
  "parent_rel m = {(s, p). btree_get s m = Some (Some p)}"

definition closed :: "(rstring option) btree \<Rightarrow> bool" where
  "closed m \<longleftrightarrow> list_all (\<lambda>(s, p). case p of None \<Rightarrow> True | Some q \<Rightarrow> btree_get q m \<noteq> None) m"

lemma finite_parent_rel: "btree_inv m \<Longrightarrow> finite (parent_rel m)"
proof -
  assume inv: "btree_inv m"
  have "parent_rel m \<subseteq> (\<lambda>(s, p). (s, the p)) ` set m"
    using inv by (force simp: parent_rel_def btree_get_in)
  then show ?thesis by (rule finite_subset) simp
qed

lemma walk_None: "ancestor_walk m s None = Some (Inr ())"
  by (simp add: ancestor_walk.simps)

lemma walk_hit: "ancestor_walk m s (Some s) = Some (Inl (ParentCycle s))"
  by (simp add: ancestor_walk.simps)

lemma walk_step: "c \<noteq> s \<Longrightarrow>
    ancestor_walk m s (Some c) = ancestor_walk m s (Option.bind (btree_get c m) (\<lambda>p. p))"
  by (subst ancestor_walk.simps) simp

lemma walk_returns:
  assumes "finite (parent_rel m)" "acyclic (parent_rel m)"
  shows "\<exists>x. ancestor_walk m s (Some c) = Some x"
proof -
  have "wf ((parent_rel m)\<inverse>)" using assms by (rule finite_acyclic_wf_converse)
  then show ?thesis
  proof (induction c rule: wf_induct_rule)
    case (less c)
    show ?case
    proof (cases "c = s")
      case False
      show ?thesis
      proof (cases "btree_get c m")
        case (Some p)
        with less False show ?thesis by (cases p) (auto simp: walk_step walk_None parent_rel_def)
      qed (simp add: walk_step [OF False] walk_None)
    qed (simp add: walk_hit)
  qed
qed

text \<open>What a returning walk says of the ancestors.\<close>
definition walk_spec :: "(rstring option) btree \<Rightarrow> rstring \<Rightarrow> rstring option \<Rightarrow> EvidenceError + unit \<Rightarrow> bool" where
  "walk_spec m s a x \<longleftrightarrow>
    (x = Inr () \<and> (\<forall>c. a = Some c \<longrightarrow> (c, s) \<notin> (parent_rel m)\<^sup>*)) \<or>
    (x = Inl (ParentCycle s) \<and> (\<exists>c. a = Some c \<and> (c, s) \<in> (parent_rel m)\<^sup>*))"

lemma parent_rtrancl_step: "c \<noteq> s \<Longrightarrow>
    (c, s) \<in> (parent_rel m)\<^sup>* \<longleftrightarrow> (\<exists>d. Option.bind (btree_get c m) (\<lambda>p. p) = Some d \<and> (d, s) \<in> (parent_rel m)\<^sup>*)"
  by (auto simp: parent_rel_def bind_eq_Some_conv elim: converse_rtranclE intro: converse_rtrancl_into_rtrancl)

lemma walk_sound: "ancestor_walk m s a = Some x \<Longrightarrow> walk_spec m s a x"
proof (induction rule: ancestor_walk.raw_induct [rotated, consumes 1, case_names walk])
  case (walk walk m s a x)
  show ?case
  proof (cases a)
    case None
    then show ?thesis using walk(2) by (simp add: walk_spec_def)
  next
    case (Some c)
    show ?thesis
    proof (cases "c = s")
      case False
      with walk Some have "walk_spec m s (Option.bind (btree_get c m) (\<lambda>p. p)) x" by simp
      then show ?thesis using Some parent_rtrancl_step [OF False, of m] by (auto simp: walk_spec_def)
    qed (use walk Some in \<open>auto simp: walk_spec_def\<close>)
  qed
qed

lemma verify_spans_ok: "verify_spans m es = Some (Inr ()) \<longleftrightarrow>
    (\<forall>s p. (s, Some p) \<in> set es \<longrightarrow> btree_get p m \<noteq> None \<and> ancestor_walk m s (Some p) = Some (Inr ()))"
proof (induction m es rule: verify_spans.induct)
  case (3 m span parent rest)
  then show ?case by (auto split: option.splits sum.splits)
qed auto

lemma verify_spans_returns:
  "btree_inv m \<Longrightarrow> acyclic (parent_rel m) \<Longrightarrow> \<exists>x. verify_spans m es = Some x"
proof (induction m es rule: verify_spans.induct)
  case (3 m span parent rest)
  then obtain x where "ancestor_walk m span (Some parent) = Some x" using walk_returns finite_parent_rel by blast
  with 3 show ?case by (auto split: option.splits sum.splits)
qed auto

lemma verify_spans_iff:
  assumes inv: "btree_inv m"
  shows "verify_spans m m = Some (Inr ()) \<longleftrightarrow> closed m \<and> acyclic (parent_rel m)"
proof -
  have c: "closed m \<longleftrightarrow> (\<forall>s p. (s, Some p) \<in> set m \<longrightarrow> btree_get p m \<noteq> None)"
    unfolding closed_def list_all_iff by (force split: option.splits)
  have mem: "(s, p) \<in> parent_rel m \<longleftrightarrow> (s, Some p) \<in> set m" for s p
    using inv by (simp add: parent_rel_def btree_get_in)
  have "(\<forall>s p. (s, Some p) \<in> set m \<longrightarrow> ancestor_walk m s (Some p) = Some (Inr ())) \<longleftrightarrow> acyclic (parent_rel m)"
  proof
    assume walks: "\<forall>s p. (s, Some p) \<in> set m \<longrightarrow> ancestor_walk m s (Some p) = Some (Inr ())"
    show "acyclic (parent_rel m)"
    proof (rule acyclicI, rule allI, rule notI)
      fix s assume "(s, s) \<in> (parent_rel m)\<^sup>+"
      then obtain p where p: "(s, p) \<in> parent_rel m" "(p, s) \<in> (parent_rel m)\<^sup>*" by (meson tranclD)
      with walks have "ancestor_walk m s (Some p) = Some (Inr ())" by (simp add: mem)
      from walk_sound [OF this] p(2) show False by (simp add: walk_spec_def)
    qed
  next
    assume ac: "acyclic (parent_rel m)"
    show "\<forall>s p. (s, Some p) \<in> set m \<longrightarrow> ancestor_walk m s (Some p) = Some (Inr ())"
    proof (intro allI impI)
      fix s p assume sp: "(s, Some p) \<in> set m"
      obtain x where x: "ancestor_walk m s (Some p) = Some x"
        using walk_returns [OF finite_parent_rel [OF inv] ac] by blast
      have "(p, s) \<notin> (parent_rel m)\<^sup>*"
        using ac sp by (metis acyclic_def mem rtrancl_into_trancl2)
      with walk_sound [OF x] x show "ancestor_walk m s (Some p) = Some (Inr ())" by (auto simp: walk_spec_def)
    qed
  qed
  then show ?thesis unfolding verify_spans_ok c by blast
qed

text \<open>A walk that always finds another ancestor, never the span itself, does not return.\<close>
lemma walk_escapes:
  "ancestor_walk m s a = Some x \<Longrightarrow> s \<notin> A \<Longrightarrow> \<forall>c\<in>A. \<exists>d\<in>A. btree_get c m = Some (Some d) \<Longrightarrow> a \<notin> Some ` A"
proof (induction rule: ancestor_walk.raw_induct [rotated, consumes 1, case_names walk])
  case (walk walk m s a x)
  show ?case
  proof (rule notI)
    assume "a \<in> Some ` A"
    then obtain c where c: "a = Some c" "c \<in> A" by blast
    with walk.prems obtain d where d: "d \<in> A" "btree_get c m = Some (Some d)" by blast
    have "walk m s (Some d) = Some x" using walk.hyps walk.prems c d by (auto split: if_splits)
    with walk.IH walk.prems d show False by blast
  qed
qed

lemma walk_diverges:
  "c \<in> A \<Longrightarrow> s \<notin> A \<Longrightarrow> \<forall>c\<in>A. \<exists>d\<in>A. btree_get c m = Some (Some d) \<Longrightarrow> ancestor_walk m s (Some c) = None"
  using walk_escapes [of m s "Some c" _ A] by (cases "ancestor_walk m s (Some c)") auto

end
