(* ===== verification/EvidenceChain.thy ===== *)
theory EvidenceChain
  imports EvidenceLog
begin

text \<open>
  What a verified log commits to: the chain of a span as a fold of hashes, the run root over the chains, and the
  properties of the evidence log.
\<close>

section \<open>The chain of a span\<close>

definition canonical_text :: "canonicalizer \<Rightarrow> EvidenceEnvelope \<Rightarrow> bytes" where
  "canonical_text canon e = (case canon (body_of e) of Inr t \<Rightarrow> t | Inl _ \<Rightarrow> [])"

definition chain_input :: "canonicalizer \<Rightarrow> EvidenceEnvelope \<Rightarrow> bytes \<Rightarrow> bytes" where
  "chain_input canon e previous = EVENT_DOMAIN @ previous @ canonical_text canon e"

primrec chain_inputs :: "canonicalizer \<Rightarrow> (bytes \<Rightarrow> bytes) \<Rightarrow> EvidenceEnvelope list \<Rightarrow> bytes \<Rightarrow> bytes list" where
  "chain_inputs canon h [] previous = []"
| "chain_inputs canon h (e # es) previous =
    chain_input canon e previous # chain_inputs canon h es (h (chain_input canon e previous))"

definition chain_end :: "canonicalizer \<Rightarrow> (bytes \<Rightarrow> bytes) \<Rightarrow> EvidenceEnvelope list \<Rightarrow> bytes \<Rightarrow> bytes" where
  "chain_end canon h es previous = fold (\<lambda>e d. h (chain_input canon e d)) es previous"

definition of_span :: "rstring \<Rightarrow> EvidenceEnvelope list \<Rightarrow> EvidenceEnvelope list" where
  "of_span s es = filter (\<lambda>e. ev_span e = s) es"

lemma of_span_simps [simp]: "of_span s [] = []" "of_span s (e # es) = (if ev_span e = s then e # of_span s es else of_span s es)"
  by (simp_all add: of_span_def)

lemma chain_end_simps [simp]: "chain_end canon h [] d = d"
  "chain_end canon h (e # es) d = chain_end canon h es (h (chain_input canon e d))"
  "chain_end canon h (es @ [e]) d = h (chain_input canon e (chain_end canon h es d))"
  by (simp_all add: chain_end_def)

lemma chain_inputs_snoc [simp]:
  "chain_inputs canon h (es @ [e]) d = chain_inputs canon h es d @ [chain_input canon e (chain_end canon h es d)]"
  by (induction es arbitrary: d) simp_all

lemma verify_eventD:
  assumes "verify_event canon h e st = Inr st'"
  shows "canon (body_of e) = Inr (canonical_text canon e)"
    and "ev_seq e = unwrap_or 0 (btree_get (ev_span e) (vs_next_seq st))" and "ev_seq e \<le> MAX_SAFE_JSON_INTEGER"
    and "vs_next_seq st' = btree_insert (ev_span e) (ev_seq e + 1) (vs_next_seq st)"
    and "vs_last_digest st' = btree_insert (ev_span e)
       (h (chain_input canon e (unwrap_or ZERO_DIGEST (btree_get (ev_span e) (vs_last_digest st))))) (vs_last_digest st)"
    and "ev_digest e = encode_hex (h (chain_input canon e (unwrap_or ZERO_DIGEST (btree_get (ev_span e) (vs_last_digest st)))))"
  using assms by (auto simp: verify_event_def check_fields_def event_digest_def canonical_text_def chain_input_def
      rbind_eq_Inr Let_def ok_or_def map_err_def split: option.splits sum.splits)

definition chain_ok :: "canonicalizer \<Rightarrow> nat \<Rightarrow> EvidenceEnvelope list \<Rightarrow> bool" where
  "chain_ok canon n es \<longleftrightarrow> map ev_seq es = [n..<n + length es] \<and>
     list_all (\<lambda>e. canon (body_of e) = Inr (canonical_text canon e) \<and> ev_seq e \<le> MAX_SAFE_JSON_INTEGER) es"

lemma chain_ok_Cons: "chain_ok canon n (e # es) \<longleftrightarrow> ev_seq e = n \<and> chain_ok canon (n + 1) es \<and>
    canon (body_of e) = Inr (canonical_text canon e) \<and> ev_seq e \<le> MAX_SAFE_JSON_INTEGER"
proof -
  have "[n..<n + length (e # es)] = n # [n + 1..<n + 1 + length es]" by (subst upt_conv_Cons) simp_all
  then show ?thesis unfolding chain_ok_def by auto
qed

lemma chain_ok_snoc: "chain_ok canon n (es @ [e]) \<longleftrightarrow> chain_ok canon n es \<and> ev_seq e = n + length es \<and>
    canon (body_of e) = Inr (canonical_text canon e) \<and> ev_seq e \<le> MAX_SAFE_JSON_INTEGER"
  by (auto simp: chain_ok_def)

lemma unwrap_or_Some [simp]: "unwrap_or d (Some x) = x"
  by (simp add: unwrap_or_def)

text \<open>A verified log holds, for every span, a gapless chain whose end the verifier has recorded.\<close>
lemma verify_chain:
  "foldR (verify_event canon h) es st = Inr st' \<Longrightarrow> verify_inv st \<Longrightarrow>
   chain_ok canon (unwrap_or 0 (btree_get s (vs_next_seq st))) (of_span s es) \<and>
   btree_get s (vs_last_digest st') = (if of_span s es = [] then btree_get s (vs_last_digest st)
     else Some (chain_end canon h (of_span s es) (unwrap_or ZERO_DIGEST (btree_get s (vs_last_digest st)))))"
proof (induction es arbitrary: st)
  case (Cons e es)
  then obtain u where u: "verify_event canon h e st = Inr u" "foldR (verify_event canon h) es u = Inr st'"
    by (auto split: sum.splits)
  note d = verify_eventD [OF u(1)]
  have iu: "verify_inv u" using verify_event_inv [OF u(1)] Cons.prems by simp
  have next_u: "btree_get s (vs_next_seq u) = (if s = ev_span e then Some (ev_seq e + 1) else btree_get s (vs_next_seq st))"
    and last_u: "btree_get s (vs_last_digest u) = (if s = ev_span e
       then Some (h (chain_input canon e (unwrap_or ZERO_DIGEST (btree_get s (vs_last_digest st)))))
       else btree_get s (vs_last_digest st))"
    using Cons.prems(2) by (auto simp: d(4,5) verify_inv_def bt.get_ins)
  show ?case
    using Cons.IH [OF u(2) iu] d(1-3) by (auto simp: next_u last_u chain_ok_Cons)
qed (simp add: chain_ok_def)

text \<open>The digests in the log are the recorded chain ends.\<close>
lemma final_digests_fold:
  assumes hash: "\<forall>x. length (h x) = 32"
  shows "foldR (verify_event canon h) es st = Inr st' \<Longrightarrow>
    foldR (\<lambda>event roots. rbind (decode_hex (ev_digest event)) (\<lambda>d. Inr (btree_insert (ev_span event) d roots)))
      es (vs_last_digest st) = Inr (vs_last_digest st')"
proof (induction es arbitrary: st)
  case (Cons e es)
  then obtain u where u: "verify_event canon h e st = Inr u" "foldR (verify_event canon h) es u = Inr st'"
    by (auto split: sum.splits)
  show ?case
    using Cons.IH [OF u(2)] verify_eventD(5,6) [OF u(1)] by (simp add: decode_encode_hex hash)
qed simp

lemma final_digests_verified:
  "\<forall>x. length (h x) = 32 \<Longrightarrow> foldR (verify_event canon h) es verify_start = Inr st \<Longrightarrow>
   final_digests es = Inr (vs_last_digest st)"
  using final_digests_fold [of h canon es verify_start st] by (simp add: final_digests_def verify_start_def)

section \<open>The run root\<close>

definition root_input :: "bytes btree \<Rightarrow> bytes" where
  "root_input m = ROOT_DOMAIN @ concat (map (\<lambda>(span, digest). le64 (of_nat (length span)) @ span @ digest) m)"

lemma root_digest_input: "root_digest h m = (if m = [] then Inl EmptyRun else Inr (encode_hex (h (root_input m))))"
  by (simp add: root_digest_def root_input_def)

lemma le64_inj: "a < 2 ^ 64 \<Longrightarrow> b < 2 ^ 64 \<Longrightarrow> le64 (of_nat a) = le64 (of_nat b) \<Longrightarrow> a = b"
proof -
  assume a: "a < 2 ^ 64" and b: "b < 2 ^ 64" and "le64 (of_nat a) = le64 (of_nat b)"
  then have "(of_nat a :: u64) = of_nat b" by (metis un_le64_le64)
  then have "unat (of_nat a :: u64) = unat (of_nat b :: u64)" by simp
  then show "a = b" using a b by (simp add: unat_of_nat)
qed

definition entry_ok :: "rstring \<times> bytes \<Rightarrow> bool" where
  "entry_ok e \<longleftrightarrow> length (fst e) < 2 ^ 64 \<and> length (snd e) = 32"

lemma root_input_inj:
  "list_all entry_ok m \<Longrightarrow> list_all entry_ok m' \<Longrightarrow> root_input m = root_input m' \<Longrightarrow> m = m'"
proof (induction m arbitrary: m')
  case Nil
  then show ?case by (cases m') (auto simp: root_input_def entry_ok_def)
next
  case (Cons e m)
  then obtain e' n' where m': "m' = e' # n'" by (cases m') (auto simp: root_input_def entry_ok_def split: prod.splits)
  obtain s d s' d' where e: "e = (s, d)" "e' = (s', d')" by (cases e, cases e') auto
  have ok: "length s < 2 ^ 64" "length s' < 2 ^ 64" "length d = 32" "length d' = 32"
    using Cons.prems by (auto simp: m' e entry_ok_def)
  have eq: "le64 (of_nat (length s)) @ s @ d @ drop (length ROOT_DOMAIN) (root_input m) =
      le64 (of_nat (length s')) @ s' @ d' @ drop (length ROOT_DOMAIN) (root_input n')"
    using Cons.prems(3) by (simp add: root_input_def m' e)
  then have "length s = length s'" using le64_inj ok by (metis append_eq_append_conv length_le(3))
  with eq ok have "s = s'" "d = d'" "drop (length ROOT_DOMAIN) (root_input m) = drop (length ROOT_DOMAIN) (root_input n')"
    by (auto simp: append_eq_append_conv)
  then have "root_input m = root_input n'" by (simp add: root_input_def)
  with Cons m' e \<open>s = s'\<close> \<open>d = d'\<close> show ?case by simp
qed

section \<open>Binding\<close>

definition seq_in_text :: "canonicalizer \<Rightarrow> bool" where
  "seq_in_text canon \<longleftrightarrow> (\<forall>b b' t. canon b = Inr t \<longrightarrow> canon b' = Inr t \<longrightarrow> db_seq b \<le> MAX_SAFE_JSON_INTEGER \<longrightarrow>
     db_seq b' \<le> MAX_SAFE_JSON_INTEGER \<longrightarrow> db_seq b = db_seq b')"

definition no_collision :: "(bytes \<Rightarrow> bytes) \<Rightarrow> bytes set \<Rightarrow> bytes set \<Rightarrow> bool" where
  "no_collision h X Y \<longleftrightarrow> (\<forall>x\<in>X. \<forall>y\<in>Y. h x = h y \<longrightarrow> x = y)"

lemma no_collision_mono: "no_collision h X Y \<Longrightarrow> X' \<subseteq> X \<Longrightarrow> Y' \<subseteq> Y \<Longrightarrow> no_collision h X' Y'"
  by (auto simp: no_collision_def)

lemma length_chain_end: "\<forall>x. length (h x) = 32 \<Longrightarrow> length d = 32 \<Longrightarrow> length (chain_end canon h es d) = 32"
  by (cases es rule: rev_cases) simp_all

lemma db_seq_body_of [simp]: "db_seq (body_of e) = ev_seq e"
  by (simp add: body_of_def)

text \<open>Two chains with the same end hold the same events, up to the canonical text, unless two hashed inputs collide.\<close>
lemma chain_binding:
  assumes hash: "\<forall>x. length (h x) = 32" and seq: "seq_in_text canon" and z: "length z = 32"
  shows "chain_ok canon 0 es \<Longrightarrow> chain_ok canon 0 es' \<Longrightarrow> es \<noteq> [] \<Longrightarrow> es' \<noteq> [] \<Longrightarrow>
    chain_end canon h es z = chain_end canon h es' z \<Longrightarrow>
    no_collision h (set (chain_inputs canon h es z)) (set (chain_inputs canon h es' z)) \<Longrightarrow>
    map (canonical_text canon) es = map (canonical_text canon) es'"
proof (induction es arbitrary: es' rule: rev_induct)
  case (snoc x xs)
  obtain ys y where es': "es' = ys @ [y]" using snoc.prems(4) by (cases es' rule: rev_cases) auto
  let ?X = "chain_end canon h xs z" and ?Y = "chain_end canon h ys z"
  have "chain_input canon x ?X = chain_input canon y ?Y"
    using snoc.prems(5,6) by (simp add: es' no_collision_def)
  then have d: "?X = ?Y" and t: "canonical_text canon x = canonical_text canon y"
    using length_chain_end [OF hash z] by (simp_all add: chain_input_def append_eq_append_conv)
  have "ev_seq x = ev_seq y"
    using seq [unfolded seq_in_text_def, rule_format, of "body_of x" "canonical_text canon y" "body_of y"]
      snoc.prems(1,2) t by (simp add: es' chain_ok_snoc)
  then have len: "length xs = length ys" using snoc.prems(1,2) by (simp add: es' chain_ok_snoc)
  show ?case
  proof (cases "xs = []")
    case False
    have "no_collision h (set (chain_inputs canon h xs z)) (set (chain_inputs canon h ys z))"
      using snoc.prems(6) by (rule no_collision_mono) (auto simp: es')
    moreover have "ys \<noteq> []" using len False by auto
    ultimately have "map (canonical_text canon) xs = map (canonical_text canon) ys"
      using snoc.IH [of ys] snoc.prems(1,2) d len False by (auto simp: es' chain_ok_snoc)
    then show ?thesis by (simp add: es' t)
  qed (use len t es' in simp)
qed simp

definition hashed :: "canonicalizer \<Rightarrow> (bytes \<Rightarrow> bytes) \<Rightarrow> EvidenceEnvelope list \<Rightarrow> bytes set" where
  "hashed canon h es = {root_input m | m. final_digests es = Inr m} \<union>
     (\<Union>s. set (chain_inputs canon h (of_span s es) ZERO_DIGEST))"

lemma verify_logD:
  assumes "\<forall>x. length (h x) = 32" "verify_log canon h log = Some (Inr ())"
  obtains st where "foldR (verify_event canon h) (vl_events log) verify_start = Inr st"
    "final_digests (vl_events log) = Inr (vs_last_digest st)" "vs_last_digest st \<noteq> []"
    "vl_root_digest log = encode_hex (h (root_input (vs_last_digest st)))"
proof -
  obtain st where st: "foldR (verify_event canon h) (vl_events log) verify_start = Inr st"
    using assms(2) by (auto simp: verify_log_def verify_events_def split: sum.splits option.splits)
  have f: "final_digests (vl_events log) = Inr (vs_last_digest st)"
    using final_digests_verified [OF assms(1) st] .
  show thesis using that [OF st f] assms(2) f
    by (auto simp: verify_log_def root_digest_input rbind_eq_Inr split: sum.splits option.splits if_splits)
qed

lemma last_digest_chain:
  assumes "foldR (verify_event canon h) es verify_start = Inr st"
  shows "chain_ok canon 0 (of_span s es)"
    and "btree_get s (vs_last_digest st) =
      (if of_span s es = [] then None else Some (chain_end canon h (of_span s es) ZERO_DIGEST))"
  using verify_chain [OF assms verify_start_inv, of s]
  by (simp_all add: verify_start_def unwrap_or_def bt.get_emp)

lemma last_digest_entries:
  assumes st: "foldR (verify_event canon h) es verify_start = Inr st" and hash: "\<forall>x. length (h x) = 32"
    and spans: "\<forall>e\<in>set es. length (ev_span e) < 2 ^ 64"
  shows "list_all entry_ok (vs_last_digest st)"
  unfolding list_all_iff
proof
  fix e assume e: "e \<in> set (vs_last_digest st)"
  have "btree_get (fst e) (vs_last_digest st) = Some (snd e)"
    using e verify_fold_inv [OF st] by (simp add: verify_inv_def btree_get_in)
  then have sp: "of_span (fst e) es \<noteq> []" and sn: "snd e = chain_end canon h (of_span (fst e) es) ZERO_DIGEST"
    using last_digest_chain(2) [OF st, of "fst e"] by (auto split: if_splits)
  obtain ev where "ev \<in> set es" "ev_span ev = fst e" using sp by (auto simp: of_span_def filter_empty_conv)
  with spans have "length (fst e) < 2 ^ 64" by metis
  then show "entry_ok e" using sn length_chain_end [OF hash, of ZERO_DIGEST] by (simp add: entry_ok_def ZERO_DIGEST_def)
qed

text \<open>C1: the run root binds the log.  Take two logs that both pass verification and carry the same run root.  If no
  two different inputs that verification of the two logs hashes have the same BLAKE3 digest, every span holds the same
  events in both: the same number, in the same order, with the same canonical text.  The hash is a parameter of which
  only its output length is used, and of canonical JSON only that a body's text determines its sequence number.\<close>
theorem run_root_binds_log:
  assumes hash: "\<forall>x. length (h x) = 32" and seq: "seq_in_text canon"
    and log: "verify_log canon h log = Some (Inr ())" and log': "verify_log canon h log' = Some (Inr ())"
    and root: "vl_root_digest log = vl_root_digest log'"
    and spans: "\<forall>e\<in>set (vl_events log) \<union> set (vl_events log'). length (ev_span e) < 2 ^ 64"
    and nc: "no_collision h (hashed canon h (vl_events log)) (hashed canon h (vl_events log'))"
  shows "map (canonical_text canon) (of_span s (vl_events log)) = map (canonical_text canon) (of_span s (vl_events log'))"
proof -
  let ?es = "vl_events log" and ?es' = "vl_events log'"
  obtain st where st: "foldR (verify_event canon h) ?es verify_start = Inr st"
    "final_digests ?es = Inr (vs_last_digest st)" "vl_root_digest log = encode_hex (h (root_input (vs_last_digest st)))"
    using verify_logD [OF hash log] .
  obtain st' where st': "foldR (verify_event canon h) ?es' verify_start = Inr st'"
    "final_digests ?es' = Inr (vs_last_digest st')" "vl_root_digest log' = encode_hex (h (root_input (vs_last_digest st')))"
    using verify_logD [OF hash log'] .
  have "h (root_input (vs_last_digest st)) = h (root_input (vs_last_digest st'))"
    using root st(3) st'(3) hash encode_hex_inj by metis
  moreover have "root_input (vs_last_digest st) \<in> hashed canon h ?es" "root_input (vs_last_digest st') \<in> hashed canon h ?es'"
    using st(2) st'(2) by (auto simp: hashed_def)
  ultimately have "root_input (vs_last_digest st) = root_input (vs_last_digest st')" using nc by (simp add: no_collision_def)
  then have eq: "vs_last_digest st = vs_last_digest st'"
    using last_digest_entries [OF st(1) hash] last_digest_entries [OF st'(1) hash] spans by (intro root_input_inj) auto
  have nc': "no_collision h (set (chain_inputs canon h (of_span s ?es) ZERO_DIGEST)) (set (chain_inputs canon h (of_span s ?es') ZERO_DIGEST))"
    using nc by (rule no_collision_mono) (auto simp: hashed_def)
  have z: "length ZERO_DIGEST = 32" by (simp add: ZERO_DIGEST_def)
  note l = last_digest_chain(2) [OF st(1), of s] and l' = last_digest_chain(2) [OF st'(1), of s]
  show ?thesis
  proof (cases "of_span s ?es = []")
    case True
    then show ?thesis using l l' eq by (auto split: if_splits)
  next
    case False
    then show ?thesis using l l' eq nc' last_digest_chain(1) [OF st(1)] last_digest_chain(1) [OF st'(1)]
      by (intro chain_binding [OF hash seq z]) (auto split: if_splits)
  qed
qed

end
