(* ===== verification/EvidenceRun.thy ===== *)
theory EvidenceRun
  imports EvidenceChain
begin

text \<open>
  Whole runs of the evidence log: what a recorder's log is worth to the verifier, when verification returns, that the
  interleaving of spans does not matter, sealing, and the aggregation of claims.
\<close>

section \<open>A recorder that starts three spans\<close>

definition sample_schema :: rstring where "sample_schema = astr ''tritium.run.step''"

definition sample_new :: EvidenceRecorder where
  "sample_new = \<lparr>rc_run = [0x72], rc_registered = [(sample_schema, 1)], rc_next_seq = [], rc_last_digest = [],
     rc_last_time = [], rc_span_parent = [], rc_events = []\<rparr>"

lemma sample_new_recorded: "recorded canon h sample_new"
proof (rule recorded.rec_new)
  show "recorder_new [0x72] [\<lparr>er_schema = sample_schema, er_version = 1\<rparr>] = Inr sample_new" by code_simp
qed

lemma emit_fresh:
  assumes "btree_get schema (rc_registered r) = Some 1" "btree_get span (rc_next_seq r) = None"
    "btree_get span (rc_last_digest r) = None" "btree_get span (rc_last_time r) = None"
    "btree_get span (rc_span_parent r) = None" "span \<noteq> []" "parent \<noteq> Some []" "parent \<noteq> Some span"
    "\<exists>t. canon \<lparr>db_schema = schema, db_v = 1, db_run = rc_run r, db_seq = 0, db_span = span, db_parent = parent,
        db_t = 0, db_payload = Null\<rparr> = Inr t"
  shows "\<exists>d. emit canon h schema 1 span parent 0 (Inr Null) r = Inr (r\<lparr>rc_span_parent := btree_insert span parent (rc_span_parent r),
        rc_next_seq := btree_insert span 1 (rc_next_seq r), rc_last_digest := btree_insert span d (rc_last_digest r),
        rc_last_time := btree_insert span 0 (rc_last_time r), rc_events := rc_events r @ [\<lparr>ev_schema = schema, ev_v = 1,
          ev_run = rc_run r, ev_seq = 0, ev_span = span, ev_parent = parent, ev_t = 0, ev_payload = Null, ev_digest = encode_hex d\<rparr>]\<rparr>)"
  using assms by (auto simp: emit_def check_emit_def event_digest_def unwrap_or_def ok_or_def map_err_def opt_any_def
      or_insert_def Let_def checked_add_def usize_MAX_num)

lemma three_spans:
  assumes canon: "\<forall>b. \<exists>t. canon b = Inr t"
  obtains r where "recorded canon h r" "rc_events r \<noteq> []"
    "rc_span_parent r = [([0x61], Some [0x62]), ([0x62], Some [0x63]), ([0x63], Some [0x62])]"
proof -
  obtain r1 d1 where r1: "emit canon h sample_schema 1 [0x61] (Some [0x62]) 0 (Inr Null) sample_new = Inr r1"
    "rc_registered r1 = [(sample_schema, 1)]" "rc_next_seq r1 = [([0x61], 1)]" "rc_last_digest r1 = [([0x61], d1)]"
    "rc_last_time r1 = [([0x61], 0)]" "rc_span_parent r1 = [([0x61], Some [0x62])]"
    using emit_fresh [of sample_schema sample_new "[0x61]" "Some [0x62]" canon h] canon
    by (auto simp: sample_new_def btree_get_def)
  obtain r2 d2 where r2: "emit canon h sample_schema 1 [0x62] (Some [0x63]) 0 (Inr Null) r1 = Inr r2"
    "rc_registered r2 = [(sample_schema, 1)]" "rc_next_seq r2 = [([0x61], 1), ([0x62], 1)]"
    "rc_last_digest r2 = [([0x61], d1), ([0x62], d2)]" "rc_last_time r2 = [([0x61], 0), ([0x62], 0)]"
    "rc_span_parent r2 = [([0x61], Some [0x62]), ([0x62], Some [0x63])]"
    using emit_fresh [of sample_schema r1 "[0x62]" "Some [0x63]" canon h] canon r1
    by (auto simp: btree_get_def)
  obtain r3 where r3: "emit canon h sample_schema 1 [0x63] (Some [0x62]) 0 (Inr Null) r2 = Inr r3"
    "rc_events r3 \<noteq> []" "rc_span_parent r3 = [([0x61], Some [0x62]), ([0x62], Some [0x63]), ([0x63], Some [0x62])]"
    using emit_fresh [of sample_schema r2 "[0x63]" "Some [0x62]" canon h] canon r2
    by (auto simp: btree_get_def)
  have "recorded canon h r3"
    using recorded.rec_emit [OF recorded.rec_emit [OF recorded.rec_emit [OF sample_new_recorded r1(1)] r2(1)] r3(1)] .
  then show thesis using that r3 by blast
qed

section \<open>When verification returns\<close>

lemma verify_events_recorded:
  "recorded canon h r \<Longrightarrow> verify_events canon h (rc_events r) =
     (if rc_events r = [] then Some (Inl EmptyRun) else verify_spans (rc_span_parent r) (rc_span_parent r))"
  using recorded_inv [of canon h r] by (simp add: verify_events_def rec_inv_def verifier_view_def)

text \<open>C4: the recorder only writes logs whose chains verify.  Verification of the log of any recorder, after any sequence of
  successful \<open>emit\<close> calls, accepts it exactly when it is not empty, every parent span has events of its own and
  no span is its own ancestor; no per-event check can fail.\<close>
theorem recorder_verifies_iff:
  assumes "recorded canon h r"
  shows "verify_events canon h (rc_events r) = Some (Inr ()) \<longleftrightarrow>
    rc_events r \<noteq> [] \<and> closed (rc_span_parent r) \<and> acyclic (parent_rel (rc_span_parent r))"
proof -
  have "btree_inv (rc_span_parent r)"
    using rec_inv_maps [OF recorded_inv [OF assms]] by (simp add: verify_inv_def verifier_view_def)
  then show ?thesis using verify_events_recorded [OF assms] verify_spans_iff by simp
qed

text \<open>C24: verification may not return.  Whatever the hash, a recorder accepts events that make span \<open>a\<close> a child of
  \<open>b\<close>, \<open>b\<close> of \<open>c\<close> and \<open>c\<close> of \<open>b\<close>, and the walk from \<open>a\<close> to its root then goes round \<open>b\<close> and \<open>c\<close> for ever, since it
  only stops at \<open>a\<close> or at a root.\<close>
theorem verify_may_not_return:
  assumes "\<forall>b. \<exists>t. canon b = Inr t"
  shows "\<exists>r. recorded canon h r \<and> verify_events canon h (rc_events r) = None"
proof -
  obtain r where r: "recorded canon h r" "rc_events r \<noteq> []"
    "rc_span_parent r = [([0x61], Some [0x62]), ([0x62], Some [0x63]), ([0x63], Some [0x62])]"
    using three_spans [OF assms] .
  have "ancestor_walk (rc_span_parent r) [0x61] (Some [0x62]) = None"
    by (rule walk_diverges [where A = "{[0x62], [0x63]}"]) (auto simp: r(3) btree_get_def)
  then have "verify_events canon h (rc_events r) = None"
    using verify_events_recorded [OF r(1)] r(2) by (simp add: r(3) btree_get_def)
  with r(1) show ?thesis by blast
qed

definition event_parents :: "EvidenceEnvelope list \<Rightarrow> (rstring \<times> rstring) set" where
  "event_parents es = {(ev_span e, p) | e p. e \<in> set es \<and> ev_parent e = Some p}"

lemma verify_event_parent: "verify_event canon h e st = Inr st' \<Longrightarrow>
    vs_span_parent st' = or_insert (ev_span e) (ev_parent e) (vs_span_parent st)"
  by (auto simp: verify_event_def rbind_eq_Inr Let_def)

lemma verified_parents:
  assumes "foldR (verify_event canon h) es verify_start = Inr st"
  shows "parent_rel (vs_span_parent st) \<subseteq> event_parents es"
proof -
  have "btree_inv (vs_span_parent st) \<and> parent_rel (vs_span_parent st) \<subseteq> event_parents es"
  proof (rule foldR_invariant [OF assms, where P = "\<lambda>st. btree_inv (vs_span_parent st) \<and> parent_rel (vs_span_parent st) \<subseteq> event_parents es"])
    show "btree_inv (vs_span_parent verify_start) \<and> parent_rel (vs_span_parent verify_start) \<subseteq> event_parents es"
      by (simp add: verify_start_def bt.emp_inv parent_rel_def bt.get_emp)
  next
    fix e u v
    assume e: "e \<in> set es" and u: "btree_inv (vs_span_parent u) \<and> parent_rel (vs_span_parent u) \<subseteq> event_parents es"
      and v: "verify_event canon h e u = Inr v"
    have "parent_rel (vs_span_parent v) \<subseteq> parent_rel (vs_span_parent u) \<union> {(ev_span e, p) | p. ev_parent e = Some p}"
      using u by (auto simp: verify_event_parent [OF v] or_insert_def parent_rel_def bt.get_ins split: option.splits if_splits)
    then show "btree_inv (vs_span_parent v) \<and> parent_rel (vs_span_parent v) \<subseteq> event_parents es"
      using u e by (auto simp: verify_event_parent [OF v] or_insert_inv event_parents_def)
  qed
  then show ?thesis by blast
qed

text \<open>C23: on the logs with a span hierarchy, verification is total.  For any list of events whatever, forged or not, if
  the parents they name form no cycle, verification returns a verdict.\<close>
theorem verify_returns_without_cycles:
  assumes "acyclic (event_parents es)"
  shows "\<exists>x. verify_events canon h es = Some x"
proof (cases "foldR (verify_event canon h) es verify_start")
  case (Inr st)
  have "btree_inv (vs_span_parent st)" "acyclic (parent_rel (vs_span_parent st))"
    using verify_fold_inv [OF Inr] acyclic_subset [OF assms verified_parents [OF Inr]] by (simp_all add: verify_inv_def)
  from verify_spans_returns [OF this] show ?thesis by (simp add: verify_events_def Inr)
qed (simp add: verify_events_def)

section \<open>Interleavings\<close>

lemma btree_insert_commute:
  "btree_inv m \<Longrightarrow> k \<noteq> k' \<Longrightarrow> btree_insert k v (btree_insert k' v' m) = btree_insert k' v' (btree_insert k v m)"
  by (rule btree_ext) (simp_all add: bt.ins_inv bt.get_ins)

lemma or_insert_commute:
  "btree_inv m \<Longrightarrow> k \<noteq> k' \<Longrightarrow> or_insert k v (or_insert k' v' m) = or_insert k' v' (or_insert k v m)"
  by (auto simp: or_insert_def bt.get_ins btree_insert_commute split: option.splits)

lemma or_insert_get: "btree_inv m \<Longrightarrow> k \<noteq> k' \<Longrightarrow> btree_get k (or_insert k' v m) = btree_get k m"
  by (simp add: or_insert_def bt.get_ins split: option.splits)

text \<open>Events of different spans may be exchanged.\<close>
lemma verify_swap:
  assumes inv: "verify_inv st" and ne: "ev_span a \<noteq> ev_span e"
    and a: "verify_event canon h a st = Inr u" and e: "verify_event canon h e u = Inr v"
  shows "\<exists>u'. verify_event canon h e st = Inr u' \<and> verify_event canon h a u' = Inr v"
proof -
  have i: "btree_inv (vs_next_seq st)" "btree_inv (vs_last_digest st)" "btree_inv (vs_last_time st)"
    "btree_inv (vs_span_parent st)" using inv by (simp_all add: verify_inv_def)
  have run: "vs_run u = Some (ev_run a)" "ev_run e = ev_run a" "vs_run st = None \<longrightarrow> ev_run a \<noteq> []"
    using a e by (auto simp: verify_event_def check_fields_def rbind_eq_Inr Let_def split: option.splits)
  show ?thesis
    using a e ne run i
    by (auto simp: verify_event_def check_fields_def rbind_eq_Inr Let_def bt.get_ins or_insert_get
        btree_insert_commute or_insert_commute split: option.splits)
qed

lemma verify_bubble:
  "foldR (verify_event canon h) (as @ e # bs) st = Inr v \<Longrightarrow> \<forall>a\<in>set as. ev_span a \<noteq> ev_span e \<Longrightarrow> verify_inv st \<Longrightarrow>
   \<exists>u. verify_event canon h e st = Inr u \<and> foldR (verify_event canon h) (as @ bs) u = Inr v"
proof (induction as arbitrary: st)
  case Nil
  then show ?case by (auto split: sum.splits)
next
  case (Cons a as)
  then obtain w where w: "verify_event canon h a st = Inr w" "foldR (verify_event canon h) (as @ e # bs) w = Inr v"
    by (auto split: sum.splits)
  then obtain u where u: "verify_event canon h e w = Inr u" "foldR (verify_event canon h) (as @ bs) u = Inr v"
    using Cons.IH Cons.prems verify_event_inv by (metis list.set_intros(2))
  obtain u' where "verify_event canon h e st = Inr u'" "verify_event canon h a u' = Inr u"
    using verify_swap [OF Cons.prems(3) _ w(1) u(1)] Cons.prems(2) by auto
  with u(2) show ?case by simp
qed

lemma verify_interleave:
  "foldR (verify_event canon h) es st = Inr v \<Longrightarrow> \<forall>s. of_span s es' = of_span s es \<Longrightarrow> verify_inv st \<Longrightarrow>
   foldR (verify_event canon h) es' st = Inr v"
proof (induction es' arbitrary: es st)
  case Nil
  have "es = []"
  proof (cases es)
    case (Cons e xs)
    have "of_span (ev_span e) es = of_span (ev_span e) []" using Nil.prems(2) by metis
    then show ?thesis by (simp add: Cons)
  qed
  with Nil show ?case by simp
next
  case (Cons e xs)
  have "filter (\<lambda>x. ev_span x = ev_span e) es = e # of_span (ev_span e) xs"
    using Cons.prems(2) [rule_format, of "ev_span e"] by (simp add: of_span_def)
  then obtain as bs where es: "es = as @ e # bs" "\<forall>a\<in>set as. ev_span a \<noteq> ev_span e" by (auto dest: filter_eq_ConsD)
  obtain u where u: "verify_event canon h e st = Inr u" "foldR (verify_event canon h) (as @ bs) u = Inr v"
    using verify_bubble Cons.prems(1,3) es by metis
  have "of_span s xs = of_span s (as @ bs)" for s
  proof (cases "s = ev_span e")
    case True
    have "filter (\<lambda>x. ev_span x = ev_span e) as = []" using es(2) by simp
    then show ?thesis using Cons.prems(2) [rule_format, of s] True by (simp add: es(1) of_span_def)
  qed (use Cons.prems(2) [rule_format, of s] in \<open>simp add: es(1) of_span_def\<close>)
  then have "foldR (verify_event canon h) xs u = Inr v" using Cons.IH u verify_event_inv Cons.prems(3) by metis
  then show ?case by (simp add: u(1))
qed

lemma interleaved_log:
  assumes hash: "\<forall>x. length (h x) = 32" and log: "verify_log canon h log = Some (Inr ())"
    and same: "\<forall>s. of_span s es = of_span s (vl_events log)"
  shows "verify_log canon h (log\<lparr>vl_events := es\<rparr>) = Some (Inr ())"
proof -
  obtain st where st: "foldR (verify_event canon h) (vl_events log) verify_start = Inr st"
    and fin: "final_digests (vl_events log) = Inr (vs_last_digest st)"
    using verify_logD [OF hash log] .
  have st': "foldR (verify_event canon h) es verify_start = Inr st"
    using verify_interleave [OF st same verify_start_inv] .
  have "final_digests es = Inr (vs_last_digest st)" using final_digests_verified [OF hash st'] .
  moreover have "es = [] \<longleftrightarrow> vl_events log = []"
  proof -
    have "es = [] \<longleftrightarrow> (\<forall>s. of_span s es = [])" for es by (cases es) (auto intro: exI)
    then show ?thesis using same by metis
  qed
  ultimately show ?thesis using log fin
    by (auto simp: verify_log_def verify_events_def st st' split: option.splits sum.splits if_splits)
qed

text \<open>C25: the order in which spans interleave does not matter.  A list of events that holds, span by span, the events of a
  verified log in the same order is a verified log with the same run root.\<close>
theorem interleaving_keeps_verdict:
  assumes "\<forall>x. length (h x) = 32" and "verify_log canon h log = Some (Inr ())"
    and "\<forall>s. of_span s es = of_span s (vl_events log)"
  shows "verify_log canon h (log\<lparr>vl_events := es\<rparr>) = Some (Inr ())"
  using assms by (rule interleaved_log)

section \<open>Sealing\<close>

definition json_line :: "rstring \<Rightarrow> bool" where
  "json_line s \<longleftrightarrow> s \<noteq> [] \<and> hd s = 0x7B \<and> last s = 0x7D \<and> 0x0A \<notin> set s"

definition wire_ok :: "wire_parser \<Rightarrow> wire_printer \<Rightarrow> EvidenceEnvelope \<Rightarrow> bool" where
  "wire_ok from_str to_str e \<longleftrightarrow> (case to_str e of Inr s \<Rightarrow> json_line s \<and> from_str s = Inr e | Inl _ \<Rightarrow> False)"

lemma json_line_not_blank: "json_line s \<Longrightarrow> \<not> trim_is_empty s"
proof -
  assume "json_line s"
  then obtain t where s: "s = 0x7B # t" by (cases s) (auto simp: json_line_def)
  have "list_all (\<lambda>w. w \<noteq> [] \<and> hd w \<noteq> 0x7B) white_space" by code_simp
  then have "find (\<lambda>w. take (length w) s = w) white_space = None"
    by (auto simp: find_None_iff list_all_iff s take_Cons' hd_conv_nth split: if_splits) (metis list.sel(1) take_Cons')
  then show ?thesis by (subst trim_is_empty.simps) (simp add: ws_len_def s)
qed

lemma split_inclusive_line: "0x0A \<notin> set s \<Longrightarrow> split_inclusive_nl (s @ 0x0A # rest) = (s @ [0x0A]) # split_inclusive_nl rest"
  by (induction s) auto

lemma strip_eol_line: "json_line s \<Longrightarrow> strip_eol (s @ [0x0A]) = s"
  by (simp add: strip_eol_def strip_suffix_def json_line_def)

lemma lines_of_jsonl: "list_all json_line ss \<Longrightarrow> str_lines (concat (map (\<lambda>s. s @ [0x0A]) ss)) = ss"
  by (induction ss) (auto simp: str_lines_def split_inclusive_line strip_eol_line, simp add: json_line_def split_inclusive_line strip_eol_line)

lemma to_jsonl_concat:
  assumes "list_all (\<lambda>e. to_str e = Inr (g e)) (rc_events r)"
  shows "to_jsonl to_str r = Inr (concat (map (\<lambda>e. g e @ [0x0A]) (rc_events r)))"
proof -
  have "list_all (\<lambda>e. to_str e = Inr (g e)) es \<Longrightarrow>
      foldR (\<lambda>event output. rbind (map_err Canonicalization (to_str event)) (\<lambda>text. Inr (output @ text @ [0x0A]))) es acc =
      Inr (acc @ concat (map (\<lambda>e. g e @ [0x0A]) es))" for es acc
    by (induction es arbitrary: acc) (simp_all add: map_err_def)
  then show ?thesis using assms by (simp add: to_jsonl_def)
qed

lemma foldR_checks: "list_all P xs \<Longrightarrow> foldR (\<lambda>x _. ensure (P x) (f x)) xs () = Inr ()"
  by (induction xs) simp_all

lemma mapR_parse_lines:
  "list_all (\<lambda>e. to_str e = Inr (g e) \<and> json_line (g e) \<and> from_str (g e) = Inr e) es \<Longrightarrow>
   mapR (parse_line from_str to_str) (List.enumerate n (map g es)) = Inr es"
proof (induction es arbitrary: n)
  case (Cons e es)
  then show ?case using json_line_not_blank [of "g e"] by (simp add: parse_line_def map_err_def)
qed simp

text \<open>The log of a recorder with a span hierarchy and its run root.\<close>
lemma recorded_root:
  assumes hash: "\<forall>x. length (h x) = 32" and rec: "recorded canon h r" and ne: "rc_events r \<noteq> []"
    and hier: "closed (rc_span_parent r)" "acyclic (parent_rel (rc_span_parent r))"
  shows "verify_events canon h (rc_events r) = Some (Inr ())" "final_digests (rc_events r) = Inr (rc_last_digest r)"
    "rc_last_digest r \<noteq> []"
proof -
  have inv: "rec_inv canon h r" using recorded_inv [OF rec] .
  then have st: "foldR (verify_event canon h) (rc_events r) verify_start = Inr (verifier_view r)" by (simp add: rec_inv_def)
  show "verify_events canon h (rc_events r) = Some (Inr ())"
    using verify_events_recorded [OF rec] ne hier rec_inv_maps [OF inv]
    by (simp add: verify_spans_iff verify_inv_def verifier_view_def)
  show "final_digests (rc_events r) = Inr (rc_last_digest r)"
    using final_digests_verified [OF hash st] by (simp add: verifier_view_def)
  show "rc_last_digest r \<noteq> []"
  proof
    assume empty: "rc_last_digest r = []"
    obtain e es where e: "rc_events r = e # es" using ne by (cases "rc_events r") auto
    show False using last_digest_chain(2) [OF st, of "ev_span e"] by (simp add: e verifier_view_def empty bt.get_emp)
  qed
qed

lemma recorded_log:
  assumes "\<forall>x. length (h x) = 32" "recorded canon h r" "rc_events r \<noteq> []" "closed (rc_span_parent r)"
    "acyclic (parent_rel (rc_span_parent r))"
  shows "verify_log canon h \<lparr>vl_events = rc_events r, vl_root_digest = encode_hex (h (root_input (rc_last_digest r)))\<rparr> = Some (Inr ())"
  using recorded_root [OF assms] by (simp add: verify_log_def root_digest_input)

text \<open>C21: a recorded run seals.  For every recorder with a nonempty log and a well-formed span hierarchy, and a JSON library
  that parses back the lines it prints for the log's events, \<open>seal\<close> succeeds, and its verified log holds the recorder's
  events, its run root is the hash over the recorder's chain ends, and its text is \<open>to_jsonl\<close>.\<close>
theorem seal_roundtrip:
  assumes hash: "\<forall>x. length (h x) = 32" and rec: "recorded canon h r" and ne: "rc_events r \<noteq> []"
    and hier: "closed (rc_span_parent r)" "acyclic (parent_rel (rc_span_parent r))"
    and wire: "list_all (wire_ok from_str to_str) (rc_events r)"
  shows "\<exists>jsonl. to_jsonl to_str r = Inr jsonl \<and>
    seal canon h from_str to_str r = Some (Inr \<lparr>se_run = rc_run r, se_jsonl = jsonl,
      se_log = \<lparr>vl_events = rc_events r, vl_root_digest = encode_hex (h (root_input (rc_last_digest r)))\<rparr>,
      se_root = h (root_input (rc_last_digest r))\<rparr>)"
proof -
  define g where "g e = (case to_str e of Inr s \<Rightarrow> s | Inl _ \<Rightarrow> [])" for e
  have g: "list_all (\<lambda>e. to_str e = Inr (g e) \<and> json_line (g e) \<and> from_str (g e) = Inr e) (rc_events r)"
    using wire by (auto simp: list_all_iff wire_ok_def g_def split: sum.splits)
  let ?j = "concat (map (\<lambda>e. g e @ [0x0A]) (rc_events r))"
  have j: "to_jsonl to_str r = Inr ?j" using g by (intro to_jsonl_concat) (simp add: list_all_iff)
  have "str_lines ?j = map g (rc_events r)"
    using lines_of_jsonl [of "map g (rc_events r)"] g by (simp add: list_all_iff comp_def)
  then have parsed: "mapR (parse_line from_str to_str) (List.enumerate 0 (str_lines ?j)) = Inr (rc_events r)"
    using mapR_parse_lines [OF g] by simp
  note root = recorded_root [OF hash rec ne hier]
  have inv: "rec_inv canon h r" using recorded_inv [OF rec] .
  have v: "verify_jsonl canon h from_str to_str ?j = Some (Inr \<lparr>vl_events = rc_events r,
      vl_root_digest = encode_hex (h (root_input (rc_last_digest r)))\<rparr>)"
    by (simp add: verify_jsonl_def parsed root root_digest_input)
  have "foldR (\<lambda>event _. check_registered (rc_registered r) event (UnregisteredSchema (ev_schema event))) (rc_events r) () = Inr ()"
    unfolding check_registered_def using inv by (intro foldR_checks) (simp add: rec_inv_def)
  then show ?thesis by (simp add: j seal_def v decode_encode_hex hash)
qed

section \<open>Claims\<close>

lemma first_unknown_Pass: "first_unknown cs = Pass \<longleftrightarrow>
    list_all (\<lambda>c. (cv_requires_independent c \<longrightarrow> cv_independently_cleared c) \<and> (\<forall>w. cv_verdict c \<noteq> Unknown w)) cs"
  by (induction cs) (auto split: Verdict.splits)

lemma first_unknown_not_VFail: "first_unknown cs \<noteq> VFail"
  by (induction cs) (auto split: Verdict.splits)

text \<open>Unknown evidence is never coerced to a pass.  The aggregate passes exactly when some claim is required and every
  required claim has itself passed and has its independent review if it needs one; it fails exactly when a required
  claim failed.\<close>
lemma aggregate_required_pass_iff:
  "(aggregate_required claims = Pass \<longleftrightarrow>
     list_ex cv_required claims \<and>
     list_all (\<lambda>c. cv_verdict c = Pass \<and> (if cv_requires_independent c then cv_independently_cleared c else True))
       (filter cv_required claims)) \<and>
   (aggregate_required claims = VFail \<longleftrightarrow> list_ex (\<lambda>c. cv_required c \<and> cv_verdict c = VFail) claims)"
proof -
  have v: "cv_verdict c = Pass \<longleftrightarrow> cv_verdict c \<noteq> VFail \<and> (\<forall>w. cv_verdict c \<noteq> Unknown w)" for c :: ClaimVerdict
    by (cases "cv_verdict c") auto
  show ?thesis
    by (auto simp: aggregate_required_def Let_def first_unknown_Pass first_unknown_not_VFail list_all_iff list_ex_iff
        filter_empty_conv v)
qed

section \<open>Instances\<close>

text \<open>A canonicalizer that prints the sequence number and a hash that separates the two domains.\<close>
definition seq_canon :: canonicalizer where "seq_canon b = Inr (le_enc 8 (db_seq b))"

definition domain_hash :: "bytes \<Rightarrow> bytes" where
  "domain_hash x = replicate 32 (if take 26 x = EVENT_DOMAIN then 1 else 0)"

lemma domain_hash_length: "\<forall>x. length (domain_hash x) = 32"
  by (simp add: domain_hash_def)

lemma seq_canon_total: "\<forall>b. \<exists>t. seq_canon b = Inr t"
  by (simp add: seq_canon_def)

lemma le_enc_inj: "le_enc n a = le_enc n b \<Longrightarrow> a < 256 ^ n \<Longrightarrow> b < 256 ^ n \<Longrightarrow> a = b"
  by (metis le_dec_enc_less)

lemma seq_canon_in_text: "seq_in_text seq_canon"
proof -
  have m: "n \<le> MAX_SAFE_JSON_INTEGER \<Longrightarrow> n < 256 ^ 8" for n by (simp add: MAX_SAFE_JSON_INTEGER_def)
  show ?thesis unfolding seq_in_text_def seq_canon_def by (blast intro: le_enc_inj m dest: sum.inject(2) [THEN iffD1])
qed

lemma two_roots:
  obtains r e e' where "recorded seq_canon h r" "rc_events r = [e, e']" "ev_span e = [0x61]" "ev_span e' = [0x62]"
    "ev_seq e = 0" "ev_seq e' = 0" "closed (rc_span_parent r)" "acyclic (parent_rel (rc_span_parent r))"
proof -
  obtain r1 d1 e where r1: "emit seq_canon h sample_schema 1 [0x61] None 0 (Inr Null) sample_new = Inr r1"
    "rc_registered r1 = [(sample_schema, 1)]" "rc_next_seq r1 = [([0x61], 1)]" "rc_last_digest r1 = [([0x61], d1)]"
    "rc_last_time r1 = [([0x61], 0)]" "rc_span_parent r1 = [([0x61], None)]"
    "rc_events r1 = [e]" "ev_span e = [0x61]" "ev_seq e = 0"
    using emit_fresh [of sample_schema sample_new "[0x61]" None seq_canon h] seq_canon_total
    by (auto simp: sample_new_def btree_get_def)
  obtain r2 e' where r2: "emit seq_canon h sample_schema 1 [0x62] None 0 (Inr Null) r1 = Inr r2"
    "rc_span_parent r2 = [([0x61], None), ([0x62], None)]" "rc_events r2 = [e, e']" "ev_span e' = [0x62]" "ev_seq e' = 0"
    using emit_fresh [of sample_schema r1 "[0x62]" None seq_canon h] seq_canon_total r1
    by (auto simp: btree_get_def)
  have "recorded seq_canon h r2" using recorded.rec_emit [OF recorded.rec_emit [OF sample_new_recorded r1(1)] r2(1)] .
  moreover have "parent_rel (rc_span_parent r2) = {}" by (auto simp: parent_rel_def r2(2) btree_get_def split: if_splits)
  then have "acyclic (parent_rel (rc_span_parent r2))" by (simp add: acyclic_def)
  ultimately show thesis using that r1(8,9) r2(2-) by (simp add: closed_def)
qed

lemma two_roots_hashed:
  assumes "ev_span e = [0x61]" "ev_span e' = [0x62]" "ev_seq e = 0" "ev_seq e' = 0" "set es \<subseteq> {e, e'}" "distinct es"
    "final_digests es = Inr m"
  shows "hashed seq_canon domain_hash es \<subseteq> {root_input m, EVENT_DOMAIN @ ZERO_DIGEST @ le_enc 8 0}"
proof -
  have one: "of_span s es \<in> {[], [e], [e']}" for s
  proof -
    have "distinct (of_span s es)" "set (of_span s es) \<subseteq> {e, e'}" "\<forall>x\<in>set (of_span s es). ev_span x = s"
      using assms(5,6) by (auto simp: of_span_def)
    moreover have "\<not> {e, e'} \<subseteq> set (of_span s es)" using assms(1,2) by (auto simp: of_span_def)
    ultimately show ?thesis
      by (cases "of_span s es"; cases "tl (of_span s es)") auto
  qed
  have "chain_input seq_canon x ZERO_DIGEST = EVENT_DOMAIN @ ZERO_DIGEST @ le_enc 8 0" if "ev_seq x = 0" for x
    using that by (simp add: chain_input_def canonical_text_def seq_canon_def)
  then have "set (chain_inputs seq_canon domain_hash (of_span s es) ZERO_DIGEST) \<subseteq> {EVENT_DOMAIN @ ZERO_DIGEST @ le_enc 8 0}" for s
    using one [of s] assms(3,4) by auto
  then show ?thesis using assms(7) by (auto simp: hashed_def)
qed

lemma domains_apart: "domain_hash (root_input m) \<noteq> domain_hash (EVENT_DOMAIN @ xs)"
proof -
  have "take 26 (root_input m) = take 26 ROOT_DOMAIN" "length EVENT_DOMAIN = 26"
    by (simp_all add: root_input_def ROOT_DOMAIN_def EVENT_DOMAIN_def astr_def)
  moreover have "take 26 ROOT_DOMAIN \<noteq> EVENT_DOMAIN" by code_simp
  ultimately show ?thesis by (simp add: domain_hash_def)
qed

lemma no_collision_pair: "X \<subseteq> {a, b} \<Longrightarrow> Y \<subseteq> {a, b} \<Longrightarrow> h a \<noteq> h b \<Longrightarrow> no_collision h X Y"
  unfolding no_collision_def by (metis insert_iff singletonD subsetD)

text \<open>Two interleavings of one run: both verify, and the theorem applies to the pair.\<close>
theorem run_root_binds_log_witness:
  "\<exists>log log'. vl_events log \<noteq> vl_events log' \<and> verify_log seq_canon domain_hash log = Some (Inr ()) \<and>
     verify_log seq_canon domain_hash log' = Some (Inr ()) \<and>
     map (canonical_text seq_canon) (of_span [0x62] (vl_events log)) = map (canonical_text seq_canon) (of_span [0x62] (vl_events log'))"
proof -
  note hash = domain_hash_length
  obtain r e e' where r: "recorded seq_canon domain_hash r" "rc_events r = [e, e']" and e: "ev_span e = [0x61]" "ev_span e' = [0x62]"
    "ev_seq e = 0" "ev_seq e' = 0" and hier: "closed (rc_span_parent r)" "acyclic (parent_rel (rc_span_parent r))"
    using two_roots [of domain_hash] .
  define log where "log = \<lparr>vl_events = [e, e'], vl_root_digest = encode_hex (domain_hash (root_input (rc_last_digest r)))\<rparr>"
  define log' where "log' = log\<lparr>vl_events := [e', e]\<rparr>"
  have log: "verify_log seq_canon domain_hash log = Some (Inr ())"
    using recorded_log [OF hash r(1) _ hier] by (simp add: r(2) log_def)
  have log': "verify_log seq_canon domain_hash log' = Some (Inr ())"
    unfolding log'_def using hash log by (rule interleaved_log) (simp add: log_def e)
  have ev: "vl_events log = [e, e']" by (simp add: log_def)
  obtain st where st: "foldR (verify_event seq_canon domain_hash) [e, e'] verify_start = Inr st"
    "final_digests [e, e'] = Inr (vs_last_digest st)"
    using verify_logD [OF hash log, unfolded ev] by blast
  have "foldR (verify_event seq_canon domain_hash) [e', e] verify_start = Inr st"
    using st(1) _ verify_start_inv by (rule verify_interleave) (simp add: e)
  then have st': "final_digests [e', e] = Inr (vs_last_digest st)" by (rule final_digests_verified [OF hash])
  have ne: "e \<noteq> e'" using e by auto
  have "hashed seq_canon domain_hash (vl_events log) \<subseteq> {root_input (vs_last_digest st), EVENT_DOMAIN @ ZERO_DIGEST @ le_enc 8 0}"
    "hashed seq_canon domain_hash (vl_events log') \<subseteq> {root_input (vs_last_digest st), EVENT_DOMAIN @ ZERO_DIGEST @ le_enc 8 0}"
    using two_roots_hashed [OF e _ _ st(2)] two_roots_hashed [OF e _ _ st'] ne by (simp_all add: log_def log'_def)
  then have nc: "no_collision domain_hash (hashed seq_canon domain_hash (vl_events log)) (hashed seq_canon domain_hash (vl_events log'))"
    using domains_apart by (rule no_collision_pair)
  have "map (canonical_text seq_canon) (of_span [0x62] (vl_events log)) = map (canonical_text seq_canon) (of_span [0x62] (vl_events log'))"
    using hash seq_canon_in_text log log' _ _ nc by (rule run_root_binds_log) (auto simp: log_def log'_def e)
  then show ?thesis using log log' e by (intro exI [of _ log] exI [of _ log']) (auto simp: log_def log'_def)
qed

theorem recorder_verifies_iff_witness:
  "\<exists>r. recorded seq_canon domain_hash r \<and> length (rc_events r) = 2 \<and>
     verify_events seq_canon domain_hash (rc_events r) = Some (Inr ())"
proof -
  obtain r e e' where "recorded seq_canon domain_hash r" "rc_events r = [e, e']"
    "closed (rc_span_parent r)" "acyclic (parent_rel (rc_span_parent r))"
    using two_roots [of domain_hash] .
  then show ?thesis using recorder_verifies_iff [of seq_canon domain_hash r] by auto
qed

theorem verify_may_not_return_witness:
  "(\<forall>b. \<exists>t. seq_canon b = Inr t) \<and> (\<exists>r. recorded seq_canon domain_hash r \<and> verify_events seq_canon domain_hash (rc_events r) = None)"
  using verify_may_not_return [OF seq_canon_total, of domain_hash] seq_canon_total by blast

definition sample_event :: "rstring \<Rightarrow> rstring option \<Rightarrow> EvidenceEnvelope" where
  "sample_event span parent = \<lparr>ev_schema = sample_schema, ev_v = 1, ev_run = [0x72], ev_seq = 0, ev_span = span,
     ev_parent = parent, ev_t = 0, ev_payload = Null, ev_digest = []\<rparr>"

text \<open>A forged log with a two-level hierarchy: verification rejects it, and returns.\<close>
theorem verify_returns_without_cycles_witness:
  "\<exists>x. verify_events seq_canon domain_hash [sample_event [0x61] (Some [0x62]), sample_event [0x62] None] = Some x"
proof (rule verify_returns_without_cycles)
  have "event_parents [sample_event [0x61] (Some [0x62]), sample_event [0x62] None] \<subseteq> {([0x61], [0x62])}"
    by (auto simp: event_parents_def sample_event_def)
  moreover have "acyclic {([0x61] :: rstring, [0x62] :: rstring)}" by (simp add: acyclic_insert) (simp add: acyclic_def)
  ultimately show "acyclic (event_parents [sample_event [0x61] (Some [0x62]), sample_event [0x62] None])"
    by (metis acyclic_subset)
qed

theorem interleaving_keeps_verdict_witness:
  "\<exists>log e e'. e \<noteq> e' \<and> vl_events log = [e, e'] \<and> verify_log seq_canon domain_hash (log\<lparr>vl_events := [e', e]\<rparr>) = Some (Inr ())"
proof -
  obtain r e e' where r: "recorded seq_canon domain_hash r" "rc_events r = [e, e']" and e: "ev_span e = [0x61]" "ev_span e' = [0x62]"
    and hier: "closed (rc_span_parent r)" "acyclic (parent_rel (rc_span_parent r))"
    using two_roots [of domain_hash] .
  define log where "log = \<lparr>vl_events = [e, e'], vl_root_digest = encode_hex (domain_hash (root_input (rc_last_digest r)))\<rparr>"
  have log: "verify_log seq_canon domain_hash log = Some (Inr ())"
    using recorded_log [OF domain_hash_length r(1) _ hier] by (simp add: r(2) log_def)
  have "verify_log seq_canon domain_hash (log\<lparr>vl_events := [e', e]\<rparr>) = Some (Inr ())"
    using domain_hash_length log by (rule interleaving_keeps_verdict) (simp add: log_def e)
  then show ?thesis using e by (intro exI [of _ log] exI [of _ e] exI [of _ e']) (auto simp: log_def)
qed

text \<open>Sealing the two-span run, with a wire format that prints a span's name in braces.\<close>
theorem seal_roundtrip_witness:
  "\<exists>from_str to_str r sealed. recorded seq_canon domain_hash r \<and>
     seal seq_canon domain_hash from_str to_str r = Some (Inr sealed) \<and> vl_events (se_log sealed) = rc_events r"
proof -
  obtain r e e' where r: "recorded seq_canon domain_hash r" "rc_events r = [e, e']" and e: "ev_span e = [0x61]" "ev_span e' = [0x62]"
    and hier: "closed (rc_span_parent r)" "acyclic (parent_rel (rc_span_parent r))"
    using two_roots [of domain_hash] .
  let ?to = "\<lambda>e. Inr ([0x7B] @ ev_span e @ [0x7D])" and ?from = "\<lambda>s. if s = [0x7B, 0x61, 0x7D] then Inr e else Inr e'"
  have "list_all (wire_ok ?from ?to) (rc_events r)" by (simp add: r(2) wire_ok_def e json_line_def)
  from seal_roundtrip [OF domain_hash_length r(1) _ hier this] show ?thesis using r by fastforce
qed

end
