(* ===== verification/Admission.thy ===== *)
theory Admission
  imports Errors
begin

unbundle bit_operations_syntax

text \<open>
  Admission control of the server (\<open>tritium-serve/src/admission.rs\<close>): the bearer-token set, the token buckets
  and the constant-time comparison.  An \<open>Instant\<close> is its number of nanoseconds; the \<open>u128\<close> arithmetic saturates where
  the code's does; BLAKE3 is the parameter \<open>h\<close>.  The mutex makes every \<open>check_at\<close> atomic, so a run is a sequence
  of checks in the order in which they take the lock.  The clock is read before that: a transition system of callers shows what
  depends on the order in which the lock is granted.
\<close>

section \<open>Policy and state\<close>

definition MAX_BEARER_TOKENS :: nat where "MAX_BEARER_TOKENS = 32"
definition MINUTE_NANOS :: nat where "MINUTE_NANOS = 60000000000"
definition u128_MAX :: nat where "u128_MAX = 2 ^ 128 - 1"

record PrincipalRateLimit =
  rl_requests_per_minute :: u32
  rl_burst :: u32

record AdmissionPolicy =
  ap_bearer_tokens :: "rstring list"
  ap_rate_limit :: "PrincipalRateLimit option"

record Bucket =
  bk_credit :: nat
  bk_last :: nat

record PrincipalLimiter =
  pl_requests_per_minute :: nat
  pl_capacity :: nat
  pl_buckets :: "Bucket list"

datatype AdmissionDecision = Allow | Reject nat

record Admission =
  ad_token_digests :: "bytes list"
  ad_limiter :: "PrincipalLimiter option"

text \<open>The messages of the \<open>InvalidInput\<close> errors.\<close>
datatype InvalidInput =
    RateLimitZero
  | BurstTooLarge
  | TooManyTokens
  | TokenLength nat
  | TokenCharacters nat
  | DuplicateTokens

section \<open>Construction\<close>

definition limiter_new :: "nat \<Rightarrow> PrincipalRateLimit \<Rightarrow> nat \<Rightarrow> InvalidInput + PrincipalLimiter" where
  "limiter_new now limit principal_count =
    (if rl_requests_per_minute limit = 0 \<or> rl_burst limit = 0 then Inl RateLimitZero
     else let capacity = unat (rl_burst limit) * MINUTE_NANOS in
       if u128_MAX < capacity then Inl BurstTooLarge
       else Inr \<lparr>pl_requests_per_minute = unat (rl_requests_per_minute limit), pl_capacity = capacity,
         pl_buckets = replicate principal_count \<lparr>bk_credit = capacity, bk_last = now\<rparr>\<rparr>)"

fun check_tokens :: "nat \<Rightarrow> rstring list \<Rightarrow> rstring list \<Rightarrow> InvalidInput + unit" where
  "check_tokens index prior [] = Inr ()"
| "check_tokens index prior (token # rest) =
    (if token = [] \<or> 4096 < length token then Inl (TokenLength index)
     else if list_ex (\<lambda>b. \<not> (0x21 \<le> unat b \<and> unat b \<le> 0x7E)) token then Inl (TokenCharacters index)
     else if token \<in> set prior then Inl DuplicateTokens
     else check_tokens (index + 1) (prior @ [token]) rest)"

definition validate_tokens :: "rstring list \<Rightarrow> InvalidInput + unit" where
  "validate_tokens tokens =
    (if MAX_BEARER_TOKENS < length tokens then Inl TooManyTokens else check_tokens 0 [] tokens)"

definition merge_legacy :: "rstring option \<Rightarrow> rstring list \<Rightarrow> rstring list" where
  "merge_legacy legacy tokens = (case legacy of None \<Rightarrow> tokens
     | Some token \<Rightarrow> if token \<in> set tokens then tokens else tokens @ [token])"

definition admission_new :: "(bytes \<Rightarrow> bytes) \<Rightarrow> nat \<Rightarrow> rstring option \<Rightarrow> AdmissionPolicy \<Rightarrow> InvalidInput + Admission" where
  "admission_new h now legacy_token policy =
    (let tokens = merge_legacy legacy_token (ap_bearer_tokens policy) in
     rbind (validate_tokens tokens) (\<lambda>_.
     let principal_count = max (length tokens) 1 in
     rbind (case ap_rate_limit policy of None \<Rightarrow> Inr None
            | Some limit \<Rightarrow> rbind (limiter_new now limit principal_count) (\<lambda>l. Inr (Some l))) (\<lambda>limiter.
     Inr \<lparr>ad_token_digests = map h tokens, ad_limiter = limiter\<rparr>)))"

definition admission_legacy :: "(bytes \<Rightarrow> bytes) \<Rightarrow> rstring option \<Rightarrow> Admission" where
  "admission_legacy h token = \<lparr>ad_token_digests = (case token of None \<Rightarrow> [] | Some t \<Rightarrow> [h t]), ad_limiter = None\<rparr>"

section \<open>Authentication\<close>

definition byte_or_zero :: "bytes \<Rightarrow> nat \<Rightarrow> u8" where
  "byte_or_zero xs i = (if i < length xs then xs ! i else 0)"

definition constant_time_eq :: "bytes \<Rightarrow> bytes \<Rightarrow> bool" where
  "constant_time_eq left right =
    (fold (\<lambda>index diff. diff OR ucast (byte_or_zero left index XOR byte_or_zero right index))
       [0..<max (length left) (length right)] (of_nat (length left) XOR of_nat (length right) :: u64) = 0)"

definition authenticate :: "(bytes \<Rightarrow> bytes) \<Rightarrow> Admission \<Rightarrow> rstring option \<Rightarrow> nat option" where
  "authenticate h ad presented =
    (if ad_token_digests ad = [] then Some 0
     else (case presented of None \<Rightarrow> None
       | Some p \<Rightarrow>
           if 4096 < length p then None
           else fold (\<lambda>(index, expected_digest) matched.
                  if constant_time_eq expected_digest (h p) then Some index else matched)
                (List.enumerate 0 (ad_token_digests ad)) None))"

section \<open>The token bucket\<close>

definition refilled :: "PrincipalLimiter \<Rightarrow> nat \<Rightarrow> Bucket \<Rightarrow> nat" where
  "refilled l now bucket =
    (let elapsed = now - bk_last bucket;
         refill = min (elapsed * pl_requests_per_minute l) u128_MAX in
     min (min (bk_credit bucket + refill) u128_MAX) (pl_capacity l))"

definition retry_after :: "PrincipalLimiter \<Rightarrow> nat \<Rightarrow> nat" where
  "retry_after l credit =
    (let missing = MINUTE_NANOS - credit;
         wait_nanos = div_ceil missing (pl_requests_per_minute l);
         wait_secs = max (div_ceil wait_nanos 1000000000) 1 in
     min wait_secs usize_MAX)"

definition check_at :: "nat \<Rightarrow> nat \<Rightarrow> PrincipalLimiter \<Rightarrow> AdmissionDecision \<times> PrincipalLimiter" where
  "check_at pid now l =
    (if length (pl_buckets l) \<le> pid then (Reject 60, l)
     else let credit = refilled l now (pl_buckets l ! pid) in
       if MINUTE_NANOS \<le> credit
       then (Allow, l\<lparr>pl_buckets := (pl_buckets l)[pid := \<lparr>bk_credit = credit - MINUTE_NANOS, bk_last = now\<rparr>]\<rparr>)
       else (Reject (retry_after l credit),
             l\<lparr>pl_buckets := (pl_buckets l)[pid := \<lparr>bk_credit = credit, bk_last = now\<rparr>]\<rparr>))"

definition admit :: "nat \<Rightarrow> nat \<Rightarrow> Admission \<Rightarrow> AdmissionDecision \<times> Admission" where
  "admit pid now ad =
    (case ad_limiter ad of None \<Rightarrow> (Allow, ad)
     | Some l \<Rightarrow> (case check_at pid now l of (d, l') \<Rightarrow> (d, ad\<lparr>ad_limiter := Some l'\<rparr>)))"

text \<open>A run: requests as principal and instant, in the order in which they are served.\<close>
fun check_all :: "(nat \<times> nat) list \<Rightarrow> PrincipalLimiter \<Rightarrow> AdmissionDecision list \<times> PrincipalLimiter" where
  "check_all [] l = ([], l)"
| "check_all ((p, now) # rest) l =
    (case check_at p now l of (d, l') \<Rightarrow> (case check_all rest l' of (ds, l'') \<Rightarrow> (d # ds, l'')))"

definition allowed :: "nat \<Rightarrow> (nat \<times> nat) list \<Rightarrow> PrincipalLimiter \<Rightarrow> nat" where
  "allowed p reqs l = length (filter (\<lambda>((q, t), d). q = p \<and> d = Allow) (zip reqs (fst (check_all reqs l))))"

section \<open>The rate is bounded\<close>

definition limiter_inv :: "PrincipalLimiter \<Rightarrow> bool" where
  "limiter_inv l \<longleftrightarrow> 0 < pl_requests_per_minute l \<and> MINUTE_NANOS \<le> pl_capacity l \<and> pl_capacity l \<le> u128_MAX \<and>
     list_all (\<lambda>b. bk_credit b \<le> pl_capacity l) (pl_buckets l)"

lemma limiter_new_inv: "limiter_new now limit n = Inr l \<Longrightarrow> limiter_inv l"
  by (auto simp: limiter_new_def limiter_inv_def Let_def unat_gt_0 list_all_iff split: if_splits)
    (metis Suc_leI mult_le_mono1 mult_1 unat_gt_0 One_nat_def)

lemma check_at_inv: "limiter_inv l \<Longrightarrow> check_at p now l = (d, l') \<Longrightarrow> limiter_inv l'"
  by (auto simp: check_at_def limiter_inv_def Let_def refilled_def list_all_iff dest!: set_update_subset_insert [THEN subsetD]
      split: if_splits)

lemma check_at_frame:
  "check_at p now l = (d, l') \<Longrightarrow> pl_requests_per_minute l' = pl_requests_per_minute l \<and> pl_capacity l' = pl_capacity l \<and>
     length (pl_buckets l') = length (pl_buckets l) \<and> (\<forall>q. q \<noteq> p \<longrightarrow> pl_buckets l' ! q = pl_buckets l ! q)"
  by (auto simp: check_at_def Let_def split: if_splits)

text \<open>One check of the bucket it is about: credit spent and kept is covered by the credit there was and the time passed.\<close>
lemma check_at_credit:
  assumes "check_at p now l = (d, l')" "p < length (pl_buckets l)" "bk_last (pl_buckets l ! p) \<le> now"
  shows "(if d = Allow then MINUTE_NANOS else 0) + bk_credit (pl_buckets l' ! p) + pl_requests_per_minute l * bk_last (pl_buckets l ! p)
    \<le> bk_credit (pl_buckets l ! p) + pl_requests_per_minute l * now"
    and "bk_last (pl_buckets l' ! p) = now"
proof -
  let ?b = "pl_buckets l ! p" and ?r = "pl_requests_per_minute l"
  have "refilled l now ?b \<le> bk_credit ?b + (now - bk_last ?b) * ?r" by (auto simp: refilled_def Let_def)
  moreover have "?r * now = ?r * bk_last ?b + (now - bk_last ?b) * ?r"
    using assms(3) by (metis add_mult_distrib2 le_add_diff_inverse mult.commute)
  ultimately show "(if d = Allow then MINUTE_NANOS else 0) + bk_credit (pl_buckets l' ! p) + ?r * bk_last ?b \<le> bk_credit ?b + ?r * now"
    using assms(1,2) by (auto simp: check_at_def Let_def split: if_splits)
  show "bk_last (pl_buckets l' ! p) = now" using assms(1,2) by (auto simp: check_at_def Let_def split: if_splits)
qed

definition in_order :: "nat \<Rightarrow> (nat \<times> nat) list \<Rightarrow> bool" where
  "in_order t reqs \<longleftrightarrow> sorted (t # map snd reqs)"

lemma allowed_Cons: "check_at q now l = (d, l') \<Longrightarrow>
    allowed p ((q, now) # rest) l = (if q = p \<and> d = Allow then 1 else 0) + allowed p rest l'"
  by (auto simp: allowed_def split: prod.splits)

lemma allowed_outside: "length (pl_buckets l) \<le> p \<Longrightarrow> allowed p reqs l = 0"
proof (induction reqs arbitrary: l)
  case (Cons r reqs)
  obtain q now where r: "r = (q, now)" by (cases r)
  obtain d l' where c: "check_at q now l = (d, l')" by (cases "check_at q now l")
  have "q = p \<Longrightarrow> d \<noteq> Allow" using c Cons.prems by (auto simp: check_at_def)
  then show ?case using Cons check_at_frame [OF c] by (simp add: r allowed_Cons [OF c])
qed (simp add: allowed_def)

lemma allowed_credit:
  "p < length (pl_buckets l) \<Longrightarrow> in_order (bk_last (pl_buckets l ! p)) reqs \<Longrightarrow> list_all (\<lambda>(q, t). t \<le> end_t) reqs \<Longrightarrow>
   bk_last (pl_buckets l ! p) \<le> end_t \<Longrightarrow>
   allowed p reqs l * MINUTE_NANOS + pl_requests_per_minute l * bk_last (pl_buckets l ! p)
     \<le> bk_credit (pl_buckets l ! p) + pl_requests_per_minute l * end_t"
proof (induction reqs arbitrary: l)
  case (Cons r reqs)
  obtain q now where r: "r = (q, now)" by (cases r)
  obtain d l' where c: "check_at q now l = (d, l')" by (cases "check_at q now l")
  note f = check_at_frame [OF c]
  have ord: "bk_last (pl_buckets l ! p) \<le> now" "in_order now reqs" "in_order (bk_last (pl_buckets l ! p)) reqs" "now \<le> end_t"
    using Cons.prems by (auto simp: r in_order_def)
  show ?case
  proof (cases "q = p")
    case True
    have last: "bk_last (pl_buckets l' ! p) = now" using check_at_credit(2) [OF c] True Cons.prems(1) ord(1) by simp
    have "allowed p reqs l' * MINUTE_NANOS + pl_requests_per_minute l * now \<le> bk_credit (pl_buckets l' ! p) + pl_requests_per_minute l * end_t"
      using Cons.IH [of l'] Cons.prems f ord last by simp
    moreover have "allowed p (r # reqs) l = (if d = Allow then 1 else 0) + allowed p reqs l'"
      using allowed_Cons [OF c, of p] True by (simp add: r)
    ultimately show ?thesis using check_at_credit(1) [OF c] True Cons.prems(1) ord(1) by (auto split: if_splits)
  next
    case False
    then show ?thesis using Cons.IH [of l'] Cons.prems f ord by (simp add: r allowed_Cons [OF c])
  qed
qed (simp add: allowed_def trans_le_add2 mult_le_mono2)

text \<open>C7: the rate limit holds over every run.  Start a limiter at time \<open>t0\<close> and serve any requests of any principals, at
  nondecreasing times up to \<open>t1\<close>.  A principal is then admitted at most \<open>burst\<close> requests plus its sustained rate over
  the time passed, however its requests interleave with others and saturate the bucket arithmetic.\<close>
theorem admission_rate_bound:
  assumes "limiter_new t0 limit n = Inr l" and "in_order t0 reqs" and "list_all (\<lambda>(q, t). t \<le> t1) reqs" and "t0 \<le> t1"
  shows "allowed p reqs l * MINUTE_NANOS \<le>
    unat (rl_burst limit) * MINUTE_NANOS + unat (rl_requests_per_minute limit) * (t1 - t0)"
proof (cases "p < length (pl_buckets l)")
  case True
  have b: "pl_buckets l ! p = \<lparr>bk_credit = unat (rl_burst limit) * MINUTE_NANOS, bk_last = t0\<rparr>"
    "pl_requests_per_minute l = unat (rl_requests_per_minute limit)"
    using assms(1) True by (auto simp: limiter_new_def Let_def split: if_splits)
  have "allowed p reqs l * MINUTE_NANOS + unat (rl_requests_per_minute limit) * t0
      \<le> unat (rl_burst limit) * MINUTE_NANOS + unat (rl_requests_per_minute limit) * t1"
    using allowed_credit [OF True, of reqs t1] assms(2-4) by (simp add: b)
  then show ?thesis using assms(4) by (simp add: diff_mult_distrib2)
qed (simp add: allowed_outside)

theorem admission_rate_bound_witness:
  "\<exists>l. limiter_new 5 \<lparr>rl_requests_per_minute = 60, rl_burst = 1\<rparr> 2 = Inr l \<and>
     allowed 0 [(0, 5), (0, 6), (1, 6), (0, 1000000006)] l * MINUTE_NANOS \<le> 1 * MINUTE_NANOS + 60 * 1000000001"
proof -
  obtain l where l: "limiter_new 5 \<lparr>rl_requests_per_minute = 60, rl_burst = 1\<rparr> 2 = Inr l"
    by (simp add: limiter_new_def Let_def MINUTE_NANOS_def u128_MAX_def)
  from admission_rate_bound [OF l, of "[(0, 5), (0, 6), (1, 6), (0, 1000000006)]" 1000000006 0] l show ?thesis
    by (simp add: in_order_def)
qed

section \<open>A rejected caller that waits is admitted\<close>

lemma retry_after_enough:
  assumes "limiter_inv l" "credit < MINUTE_NANOS"
  shows "MINUTE_NANOS \<le> credit + retry_after l credit * 1000000000 * pl_requests_per_minute l"
    and "retry_after l credit \<le> 60"
proof -
  let ?r = "pl_requests_per_minute l" and ?m = "MINUTE_NANOS - credit"
  let ?w = "div_ceil ?m ?r" and ?s = "max (div_ceil (div_ceil ?m ?r) 1000000000) 1"
  have r: "0 < ?r" using assms(1) by (simp add: limiter_inv_def)
  have "?w \<le> ?m"
  proof -
    have "?m + ?r - 1 \<le> ?m * ?r" using r assms(2) by (cases "?m"; cases "?r") auto
    then show ?thesis using r by (simp add: div_ceil_def less_Suc_eq_le [symmetric] div_less_iff_less_mult)
  qed
  then have "div_ceil ?w 1000000000 \<le> 60"
    using assms(2) by (simp add: div_ceil_def MINUTE_NANOS_def)
  then have s: "?s \<le> 60" by simp
  then have eq: "retry_after l credit = ?s" by (simp add: retry_after_def Let_def usize_MAX_num)
  show "retry_after l credit \<le> 60" using s eq by simp
  have "?m \<le> ?w * ?r" using div_ceil_mult_ge [OF r] .
  also have "\<dots> \<le> ?s * 1000000000 * ?r"
    using div_ceil_mult_ge [of 1000000000 ?w] by (intro mult_right_mono) auto
  finally show "MINUTE_NANOS \<le> credit + retry_after l credit * 1000000000 * ?r" using eq assms(2) by simp
qed

lemma check_all_inv: "limiter_inv l \<Longrightarrow> check_all reqs l = (ds, l') \<Longrightarrow> limiter_inv l' \<and> length (pl_buckets l') = length (pl_buckets l)"
proof (induction reqs arbitrary: l ds)
  case (Cons r reqs)
  obtain q now where r: "r = (q, now)" by (cases r)
  obtain d u where c: "check_at q now l = (d, u)" by (cases "check_at q now l")
  show ?case using Cons check_at_inv [OF _ c] check_at_frame [OF c] by (auto simp: r c split: prod.splits)
qed simp

lemma check_all_frame: "check_all reqs l = (ds, l') \<Longrightarrow> list_all (\<lambda>(q, t). q \<noteq> p) reqs \<Longrightarrow>
    pl_buckets l' ! p = pl_buckets l ! p \<and> pl_requests_per_minute l' = pl_requests_per_minute l"
proof (induction reqs arbitrary: l ds)
  case (Cons r reqs)
  obtain q now where r: "r = (q, now)" by (cases r)
  obtain d u where c: "check_at q now l = (d, u)" by (cases "check_at q now l")
  show ?case using Cons check_at_frame [OF c] by (auto simp: r c split: prod.splits)
qed simp

lemma check_at_Reject:
  assumes "check_at p now l = (Reject s, l')" "p < length (pl_buckets l)"
  obtains credit where "credit < MINUTE_NANOS" "s = retry_after l credit" "pl_buckets l' ! p = \<lparr>bk_credit = credit, bk_last = now\<rparr>"
  using assms that by (auto simp: check_at_def Let_def split: if_splits)

lemma check_at_Allow:
  assumes "limiter_inv l" "p < length (pl_buckets l)"
    "MINUTE_NANOS \<le> bk_credit (pl_buckets l ! p) + (now - bk_last (pl_buckets l ! p)) * pl_requests_per_minute l"
  shows "fst (check_at p now l) = Allow"
proof -
  have "MINUTE_NANOS \<le> pl_capacity l" "pl_capacity l \<le> u128_MAX" using assms(1) by (simp_all add: limiter_inv_def)
  then have "MINUTE_NANOS \<le> refilled l now (pl_buckets l ! p)" using assms(3) by (auto simp: refilled_def Let_def min_def)
  then show ?thesis using assms(2) by (simp add: check_at_def Let_def)
qed

text \<open>C26: \<open>Retry-After\<close> is honest.  In any state a limiter reaches, a rejected principal is told to wait at most a
  minute, and if it asks again no earlier than that, it is admitted, whatever the other principals did meanwhile.\<close>
theorem retry_after_admits:
  assumes new: "limiter_new t0 limit n = Inr l0" and run: "check_all reqs l0 = (ds, l)" and p: "p < n"
    and rej: "check_at p now l = (Reject s, l')"
    and others: "check_all reqs' l' = (ds', l'')" "list_all (\<lambda>(q, t). q \<noteq> p) reqs'"
    and later: "now + s * 1000000000 \<le> now'"
  shows "s \<le> 60 \<and> fst (check_at p now' l'') = Allow"
proof -
  have len: "length (pl_buckets l0) = n" using new by (auto simp: limiter_new_def Let_def split: if_splits)
  have l: "limiter_inv l" "p < length (pl_buckets l)"
    using check_all_inv [OF limiter_new_inv [OF new] run] len p by simp_all
  obtain credit where c: "credit < MINUTE_NANOS" "s = retry_after l credit" "pl_buckets l' ! p = \<lparr>bk_credit = credit, bk_last = now\<rparr>"
    using check_at_Reject [OF rej l(2)] .
  have l'': "limiter_inv l''" "p < length (pl_buckets l'')" "pl_buckets l'' ! p = \<lparr>bk_credit = credit, bk_last = now\<rparr>"
    "pl_requests_per_minute l'' = pl_requests_per_minute l"
    using check_all_inv [OF check_at_inv [OF l(1) rej] others(1)] check_all_frame [OF others] check_at_frame [OF rej] l(2) c(3)
    by simp_all
  have "s * 1000000000 \<le> now' - now" using later by simp
  then have "s * 1000000000 * pl_requests_per_minute l \<le> (now' - now) * pl_requests_per_minute l" by (rule mult_right_mono) simp
  then have "MINUTE_NANOS \<le> credit + (now' - now) * pl_requests_per_minute l"
    using retry_after_enough(1) [OF l(1) c(1)] unfolding c(2) by linarith
  then have "fst (check_at p now' l'') = Allow" using l'' by (intro check_at_Allow) simp_all
  then show ?thesis using retry_after_enough(2) [OF l(1) c(1)] c(2) by simp
qed

theorem retry_after_admits_witness:
  "\<exists>l s l'. limiter_new 0 \<lparr>rl_requests_per_minute = 60, rl_burst = 1\<rparr> 1 = Inr l \<and>
     check_at 0 0 (snd (check_all [(0, 0)] l)) = (Reject s, l') \<and> s \<le> 60 \<and> fst (check_at 0 (s * 1000000000) l') = Allow"
proof -
  obtain l where l: "limiter_new 0 \<lparr>rl_requests_per_minute = 60, rl_burst = 1\<rparr> 1 = Inr l"
    "l = \<lparr>pl_requests_per_minute = 60, pl_capacity = MINUTE_NANOS, pl_buckets = [\<lparr>bk_credit = MINUTE_NANOS, bk_last = 0\<rparr>]\<rparr>"
    by (simp add: limiter_new_def Let_def MINUTE_NANOS_def u128_MAX_def)
  obtain ds u where u: "check_all [(0, 0)] l = (ds, u)" by (cases "check_all [(0, 0)] l")
  then have "u = l\<lparr>pl_buckets := [\<lparr>bk_credit = 0, bk_last = 0\<rparr>]\<rparr>"
    by (auto simp: l(2) check_at_def refilled_def Let_def MINUTE_NANOS_def u128_MAX_def)
  then obtain s l' where rej: "check_at 0 0 u = (Reject s, l')"
    by (simp add: check_at_def refilled_def Let_def l(2) MINUTE_NANOS_def)
  from retry_after_admits [OF l(1) u _ rej, of "[]" _ l'] l(1) rej u show ?thesis by auto
qed

section \<open>Callers that read the clock before they take the lock\<close>

text \<open>\<open>check\<close> reads the clock and then calls \<open>check_at\<close>, which takes the lock: two atomic steps of a caller, between which time passes and
  other callers run.  The state has the clock, the callers that have read it and wait for the lock, the limiter, and the decisions made.\<close>
record CheckState =
  cs_clock :: nat
  cs_waiting :: "(nat \<times> nat) list"
  cs_limiter :: PrincipalLimiter
  cs_decided :: "(nat \<times> AdmissionDecision) list"

text \<open>\<open>turn\<close> says which of the waiting callers may be the next to get the lock: any for the mutex of the standard library, the first for a queue.\<close>
inductive check_step :: "(nat \<Rightarrow> bool) \<Rightarrow> CheckState \<Rightarrow> CheckState \<Rightarrow> bool" for turn where
  tick: "check_step turn s (s\<lparr>cs_clock := cs_clock s + d\<rparr>)"
| read_clock: "check_step turn s (s\<lparr>cs_waiting := cs_waiting s @ [(p, cs_clock s)]\<rparr>)"
| locked: "turn i \<Longrightarrow> i < length (cs_waiting s) \<Longrightarrow> cs_waiting s ! i = (p, now) \<Longrightarrow> check_at p now (cs_limiter s) = (d, l') \<Longrightarrow>
    check_step turn s (s\<lparr>cs_waiting := take i (cs_waiting s) @ drop (Suc i) (cs_waiting s), cs_limiter := l', cs_decided := cs_decided s @ [(p, d)]\<rparr>)"

abbreviation check_steps :: "(nat \<Rightarrow> bool) \<Rightarrow> CheckState \<Rightarrow> CheckState \<Rightarrow> bool" where
  "check_steps turn \<equiv> (check_step turn)\<^sup>*\<^sup>*"

abbreviation any_caller :: "nat \<Rightarrow> bool" where "any_caller \<equiv> \<lambda>i. True"
abbreviation first_caller :: "nat \<Rightarrow> bool" where "first_caller \<equiv> \<lambda>i. i = 0"

definition check_start :: "nat \<Rightarrow> PrincipalLimiter \<Rightarrow> CheckState" where
  "check_start now l = \<lparr>cs_clock = now, cs_waiting = [], cs_limiter = l, cs_decided = []\<rparr>"

definition admitted :: "nat \<Rightarrow> CheckState \<Rightarrow> nat" where
  "admitted p s = length (filter (\<lambda>(q, d). q = p \<and> d = Allow) (cs_decided s))"

lemma reads_clock: "check_steps any_caller s (s\<lparr>cs_waiting := cs_waiting s @ replicate n (p, cs_clock s)\<rparr>)"
proof (induction n)
  case (Suc n)
  let ?s = "s\<lparr>cs_waiting := cs_waiting s @ replicate n (p, cs_clock s)\<rparr>"
  have "check_step any_caller ?s (?s\<lparr>cs_waiting := cs_waiting ?s @ [(p, cs_clock ?s)]\<rparr>)" by (rule read_clock)
  then show ?case using Suc by (simp add: replicate_append_same rtranclp.rtrancl_into_rtrancl)
qed simp

text \<open>One caller that read the clock at \<open>t0\<close> and one that read it a minute later, in this order, cost no more than a minute and admit one request.\<close>
lemma late_pair:
  assumes w: "cs_waiting s = replicate (Suc m) (p, t0) @ replicate (Suc m) (p, t0 + MINUTE_NANOS)"
    and l: "limiter_inv (cs_limiter s)" "p < length (pl_buckets (cs_limiter s))"
  obtains s' where "check_steps any_caller s s'" "cs_waiting s' = replicate m (p, t0) @ replicate m (p, t0 + MINUTE_NANOS)" "cs_clock s' = cs_clock s"
    "limiter_inv (cs_limiter s')" "p < length (pl_buckets (cs_limiter s'))" "admitted p s < admitted p s'"
proof -
  obtain d1 l1 where c1: "check_at p t0 (cs_limiter s) = (d1, l1)" by (cases "check_at p t0 (cs_limiter s)")
  obtain d2 l2 where c2: "check_at p (t0 + MINUTE_NANOS) l1 = (d2, l2)" by (cases "check_at p (t0 + MINUTE_NANOS) l1")
  let ?w1 = "replicate m (p, t0) @ replicate (Suc m) (p, t0 + MINUTE_NANOS)" and ?w2 = "replicate m (p, t0) @ replicate m (p, t0 + MINUTE_NANOS)"
  let ?s1 = "s\<lparr>cs_waiting := ?w1, cs_limiter := l1, cs_decided := cs_decided s @ [(p, d1)]\<rparr>"
  let ?s2 = "?s1\<lparr>cs_waiting := ?w2, cs_limiter := l2, cs_decided := cs_decided ?s1 @ [(p, d2)]\<rparr>"
  have "check_step any_caller s ?s1" using locked [of any_caller 0 s p t0 d1 l1] c1 by (simp add: w)
  moreover have "check_step any_caller ?s1 ?s2" using locked [of any_caller m ?s1 p "t0 + MINUTE_NANOS" d2 l2] c2 by (simp add: nth_append)
  ultimately have "check_steps any_caller s ?s2" by (meson rtranclp.rtrancl_into_rtrancl rtranclp.rtrancl_refl)
  note i1 = check_at_inv [OF l(1) c1] and f1 = check_at_frame [OF c1] and f2 = check_at_frame [OF c2]
  have b: "bk_last (pl_buckets l1 ! p) = t0" using c1 l(2) by (auto simp: check_at_def Let_def split: if_splits)
  have "MINUTE_NANOS * 1 \<le> MINUTE_NANOS * pl_requests_per_minute l1" using i1 by (intro mult_le_mono2) (simp add: limiter_inv_def)
  then have "MINUTE_NANOS \<le> bk_credit (pl_buckets l1 ! p) + MINUTE_NANOS * pl_requests_per_minute l1" by linarith
  then have "fst (check_at p (t0 + MINUTE_NANOS) l1) = Allow" using i1 f1 l(2) b by (intro check_at_Allow) simp_all
  then have "admitted p s < admitted p ?s2" using c2 by (simp add: admitted_def)
  then show ?thesis using that [of ?s2] \<open>check_steps any_caller s ?s2\<close> check_at_inv [OF i1 c2] f1 f2 l(2) by simp
qed

lemma late_pairs:
  assumes "cs_waiting s = replicate m (p, t0) @ replicate m (p, t0 + MINUTE_NANOS)" "limiter_inv (cs_limiter s)" "p < length (pl_buckets (cs_limiter s))"
  shows "\<exists>s'. check_steps any_caller s s' \<and> cs_clock s' = cs_clock s \<and> admitted p s + m \<le> admitted p s'"
  using assms
proof (induction m arbitrary: s)
  case (Suc m)
  obtain s1 where s1: "check_steps any_caller s s1" "cs_waiting s1 = replicate m (p, t0) @ replicate m (p, t0 + MINUTE_NANOS)" "cs_clock s1 = cs_clock s"
    "limiter_inv (cs_limiter s1)" "p < length (pl_buckets (cs_limiter s1))" "admitted p s < admitted p s1"
    by (rule late_pair [OF Suc.prems])
  obtain s' where "check_steps any_caller s1 s'" "cs_clock s' = cs_clock s1" "admitted p s1 + m \<le> admitted p s'" using Suc.IH [OF s1(2,4,5)] by blast
  then show ?case using s1(1,3,6) by (intro exI [of _ s']) (auto intro: rtranclp_trans)
qed auto

lemma late_callers:
  assumes new: "limiter_new t0 limit n = Inr l" and p: "p < n"
  shows "\<exists>s. check_steps any_caller (check_start t0 l) s \<and> cs_clock s = t0 + MINUTE_NANOS \<and> m \<le> admitted p s"
proof -
  let ?s0 = "check_start t0 l" and ?early = "replicate m (p, t0)" and ?late = "replicate m (p, t0 + MINUTE_NANOS)"
  let ?s1 = "?s0\<lparr>cs_waiting := ?early\<rparr>"
  let ?s2 = "?s1\<lparr>cs_clock := t0 + MINUTE_NANOS\<rparr>"
  let ?s3 = "?s2\<lparr>cs_waiting := ?early @ ?late\<rparr>"
  have "check_steps any_caller ?s0 ?s1" using reads_clock [of ?s0 m p] by (simp add: check_start_def)
  moreover have "check_step any_caller ?s1 ?s2" using tick [of any_caller ?s1 MINUTE_NANOS] by (simp add: check_start_def)
  moreover have "check_steps any_caller ?s2 ?s3" using reads_clock [of ?s2 m p] by simp
  ultimately have run: "check_steps any_caller ?s0 ?s3" by (meson rtranclp.rtrancl_into_rtrancl rtranclp_trans)
  have "length (pl_buckets l) = n" using new by (auto simp: limiter_new_def Let_def split: if_splits)
  then obtain s where "check_steps any_caller ?s3 s" "cs_clock s = cs_clock ?s3" "admitted p ?s3 + m \<le> admitted p s"
    using late_pairs [of ?s3 m p t0] limiter_new_inv [OF new] p by (auto simp: check_start_def)
  then show ?thesis using run by (intro exI [of _ s]) (auto intro: rtranclp_trans)
qed

text \<open>With a queue, callers are served in the order in which they read the clock, and what a bucket has spent and kept is covered by its burst and its time.\<close>
definition queue_inv :: "nat \<Rightarrow> nat \<Rightarrow> nat \<Rightarrow> nat \<Rightarrow> CheckState \<Rightarrow> bool" where
  "queue_inv t0 p burst rate s \<longleftrightarrow> (let l = cs_limiter s; b = pl_buckets l ! p in
     p < length (pl_buckets l) \<and> pl_requests_per_minute l = rate \<and> sorted (t0 # bk_last b # map snd (cs_waiting s) @ [cs_clock s]) \<and>
     admitted p s * MINUTE_NANOS + bk_credit b + rate * t0 \<le> burst * MINUTE_NANOS + rate * bk_last b)"

lemma queue_inv_step:
  assumes step: "check_step first_caller s s'" and inv: "queue_inv t0 p burst rate s"
  shows "queue_inv t0 p burst rate s'"
  using step
proof cases
  case (locked i q now d l')
  then obtain rest where w: "cs_waiting s = (q, now) # rest" by (cases "cs_waiting s") auto
  have s': "cs_waiting s' = rest" "cs_limiter s' = l'" "cs_decided s' = cs_decided s @ [(q, d)]" "cs_clock s' = cs_clock s"
    using locked w by simp_all
  note f = check_at_frame [OF locked(5)]
  show ?thesis
  proof (cases "q = p")
    case True
    have i: "p < length (pl_buckets (cs_limiter s))" "bk_last (pl_buckets (cs_limiter s) ! p) \<le> now" using inv w by (auto simp: queue_inv_def Let_def)
    note c = check_at_credit [OF locked(5), unfolded True, OF i]
    have "admitted p s' = admitted p s + (if d = Allow then 1 else 0)" using s' True by (simp add: admitted_def)
    then show ?thesis using inv f c s' w True by (auto simp: queue_inv_def Let_def add_mult_distrib split: if_splits)
  next
    case False
    then have "admitted p s' = admitted p s" using s' by (simp add: admitted_def)
    then show ?thesis using inv f s' w False by (simp add: queue_inv_def Let_def)
  qed
qed (use inv in \<open>auto simp: queue_inv_def Let_def admitted_def sorted_append\<close>)

text \<open>C40: the limit needs the lock to keep the order of the clock.  If the lock goes to waiting callers in the order in which they read
  the clock, then in every state that any number of callers reach a principal has been admitted at most its burst and its rate over the time passed.  If it
  may go to any of them, as with the mutex the code uses, no bound holds at all: for every limiter, every principal and every \<open>m\<close>
  there is a run of a single minute in which at least \<open>m\<close> requests are admitted, because a caller that read the clock before the others moves
  the bucket back in time and the same minute is credited again.\<close>
theorem late_instant_recredits:
  assumes "limiter_new t0 limit n = Inr l" "p < n"
  shows "(\<forall>s. check_steps first_caller (check_start t0 l) s \<longrightarrow>
      admitted p s * MINUTE_NANOS \<le> unat (rl_burst limit) * MINUTE_NANOS + unat (rl_requests_per_minute limit) * (cs_clock s - t0))
    \<and> (\<exists>s. check_steps any_caller (check_start t0 l) s \<and> cs_clock s = t0 + MINUTE_NANOS \<and> m \<le> admitted p s)"
proof -
  let ?b = "unat (rl_burst limit)" and ?r = "unat (rl_requests_per_minute limit)"
  have "queue_inv t0 p ?b ?r (check_start t0 l)"
    using assms by (auto simp: limiter_new_def queue_inv_def check_start_def admitted_def Let_def split: if_splits)
  then have inv: "queue_inv t0 p ?b ?r s" if "check_steps first_caller (check_start t0 l) s" for s
    using that by (rule_tac rtranclp_induct [OF that]) (auto intro: queue_inv_step)
  have "admitted p s * MINUTE_NANOS \<le> ?b * MINUTE_NANOS + ?r * (cs_clock s - t0)" if run: "check_steps first_caller (check_start t0 l) s" for s
  proof -
    let ?last = "bk_last (pl_buckets (cs_limiter s) ! p)"
    have "t0 \<le> cs_clock s" "?last \<le> cs_clock s" "admitted p s * MINUTE_NANOS + ?r * t0 \<le> ?b * MINUTE_NANOS + ?r * ?last"
      using inv [OF run] by (auto simp: queue_inv_def Let_def)
    moreover from this have "?r * ?last \<le> ?r * cs_clock s" by simp
    ultimately have "admitted p s * MINUTE_NANOS \<le> ?b * MINUTE_NANOS + ?r * cs_clock s - ?r * t0" by linarith
    then show ?thesis by (simp add: diff_mult_distrib2)
  qed
  then show ?thesis using late_callers [OF assms] by blast
qed

theorem late_instant_recredits_witness:
  "\<exists>l s. limiter_new 0 \<lparr>rl_requests_per_minute = 60, rl_burst = 1\<rparr> 1 = Inr l \<and> check_steps any_caller (check_start 0 l) s
    \<and> cs_clock s = MINUTE_NANOS \<and> 1 * MINUTE_NANOS + 60 * (cs_clock s - 0) < admitted 0 s * MINUTE_NANOS"
proof -
  obtain l where l: "limiter_new 0 \<lparr>rl_requests_per_minute = 60, rl_burst = 1\<rparr> 1 = Inr l"
    by (simp add: limiter_new_def Let_def MINUTE_NANOS_def u128_MAX_def)
  obtain s where s: "check_steps any_caller (check_start 0 l) s" "cs_clock s = MINUTE_NANOS" "62 \<le> admitted 0 s"
    using late_instant_recredits [OF l, of 0 62] by auto
  have "62 * MINUTE_NANOS \<le> admitted 0 s * MINUTE_NANOS" using s(3) by (rule mult_le_mono1)
  then show ?thesis using l s by (intro exI [of _ l] exI [of _ s]) (simp add: MINUTE_NANOS_def)
qed

section \<open>Authentication is exact\<close>

lemma or_eq_0_word: "(a OR b = 0) \<longleftrightarrow> a = 0 \<and> b = (0 :: 'a :: len word)"
  by (simp add: bit_eq_iff bit_simps) blast

lemma fold_or_zero: "fold (\<lambda>i d. d OR f i) is (d :: u64) = 0 \<longleftrightarrow> d = 0 \<and> (\<forall>i\<in>set is. f i = 0)"
  by (induction "is" arbitrary: d) (auto simp: or_eq_0_word)

lemma xor_eq_0_word: "a XOR b = 0 \<longleftrightarrow> a = (b :: 'a :: len word)"
  by (simp add: bit_eq_iff bit_simps)

lemma ucast_byte_eq_0: "(ucast (x :: u8) :: u64) = 0 \<longleftrightarrow> x = 0"
  using bit_imp_le_length [of x] by (auto simp: bit_eq_iff bit_simps) fastforce

lemma of_nat_u64_eq: "a < 2 ^ 64 \<Longrightarrow> b < 2 ^ 64 \<Longrightarrow> (of_nat a :: u64) = of_nat b \<longleftrightarrow> a = b"
  by (simp add: word_of_nat_eq_iff take_bit_nat_eq_self)

text \<open>The comparison without early exit decides equality.\<close>
lemma constant_time_eq_iff:
  assumes "length a < 2 ^ 64" "length b < 2 ^ 64"
  shows "constant_time_eq a b \<longleftrightarrow> a = b"
  unfolding constant_time_eq_def fold_or_zero
  using assms by (auto simp: xor_eq_0_word ucast_byte_eq_0 of_nat_u64_eq byte_or_zero_def intro!: nth_equalityI)

lemma fold_match_none: "\<forall>x\<in>set xs. \<not> P x \<Longrightarrow> fold (\<lambda>(i, x) m. if P x then Some i else m) (List.enumerate n xs) m = m"
  by (induction xs arbitrary: n) simp_all

lemma fold_match: "distinct xs \<Longrightarrow> i < length xs \<Longrightarrow> \<forall>x\<in>set xs. P x \<longleftrightarrow> x = xs ! i \<Longrightarrow>
    fold (\<lambda>(i, x) m. if P x then Some i else m) (List.enumerate n xs) m = Some (n + i)"
proof (induction xs arbitrary: n m i)
  case (Cons x xs)
  show ?case
  proof (cases i)
    case 0
    have "\<forall>y\<in>set xs. \<not> P y" using Cons.prems 0 by auto
    then show ?thesis using Cons.prems 0 by (simp add: fold_match_none)
  next
    case (Suc j)
    have "fold (\<lambda>(i, x) m. if P x then Some i else m) (List.enumerate (Suc n) xs) u = Some (Suc n + j)" for u
      using Cons.prems by (intro Cons.IH) (auto simp: Suc)
    then show ?thesis using Suc by simp
  qed
qed simp

text \<open>With tokens configured, exactly the holders of a configured digest are authenticated, each as the token's index.\<close>
lemma authenticate_iff:
  assumes "ad_token_digests ad \<noteq> []" "distinct (ad_token_digests ad)" "\<forall>d\<in>set (ad_token_digests ad). length d < 2 ^ 64"
    "\<forall>x. length (h x) = 32"
  shows "authenticate h ad presented = Some i \<longleftrightarrow>
    (\<exists>p. presented = Some p \<and> length p \<le> 4096 \<and> i < length (ad_token_digests ad) \<and> ad_token_digests ad ! i = h p)"
proof (cases presented)
  case None
  then show ?thesis using assms(1) by (simp add: authenticate_def)
next
  case (Some p)
  let ?ds = "ad_token_digests ad"
  have ct: "constant_time_eq d (h p) \<longleftrightarrow> d = h p" if "d \<in> set ?ds" for d
    using that assms(3,4) by (intro constant_time_eq_iff) auto
  show ?thesis
  proof (cases "4096 < length p \<or> h p \<notin> set ?ds")
    case True
    have "authenticate h ad presented = None"
    proof (cases "4096 < length p")
      case False
      with True ct have "\<forall>d\<in>set ?ds. \<not> constant_time_eq d (h p)" by auto
      from fold_match_none [OF this, of 0 None] show ?thesis using assms(1) False by (simp add: authenticate_def Some)
    qed (use assms(1) in \<open>simp add: authenticate_def Some\<close>)
    moreover have "\<not> (length p \<le> 4096 \<and> i < length ?ds \<and> ?ds ! i = h p)" using True by (metis not_less nth_mem)
    ultimately show ?thesis by (simp add: Some)
  next
    case False
    then obtain j where j: "j < length ?ds" "?ds ! j = h p" by (auto simp: in_set_conv_nth)
    have "fold (\<lambda>(i, x) m. if constant_time_eq x (h p) then Some i else m) (List.enumerate 0 ?ds) None = Some (0 + j)"
      using ct j by (intro fold_match [OF assms(2)]) auto
    then have "authenticate h ad presented = Some j" using False assms(1) by (simp add: authenticate_def Some)
    moreover have "i < length ?ds \<and> ?ds ! i = h p \<longleftrightarrow> i = j"
      using j nth_eq_iff_index_eq [OF assms(2), of i j] by auto
    ultimately show ?thesis using False by (auto simp: Some)
  qed
qed

lemma check_tokens_distinct: "check_tokens k prior tokens = Inr () \<Longrightarrow> distinct prior \<Longrightarrow> distinct (prior @ tokens)"
  by (induction k prior tokens rule: check_tokens.induct) (auto split: if_splits)

lemma validate_tokens_ok: "validate_tokens tokens = Inr () \<Longrightarrow> distinct tokens \<and> length tokens \<le> 32"
  using check_tokens_distinct [of 0 "[]" tokens] by (auto simp: validate_tokens_def MAX_BEARER_TOKENS_def split: if_splits)

end
