(* ===== verification/KvCache.thy ===== *)
theory KvCache
  imports F32 Errors
begin

text \<open>
  The key/value cache of one attention layer (\<open>tritium-nn/src/kv_cache/mod.rs\<close>).  A buffer is a \<open>Vec\<close>: its
  elements and its capacity.  The allocator is the parameter \<open>alloc\<close>: given the buffer and the
  capacity \<open>try_reserve_exact\<close> asks for, it grants one or fails, and it may do so differently for the two buffers.  The abstract cache is the list of cached rows.
\<close>

section \<open>State\<close>

definition GROWTH_ROWS :: nat where "GROWTH_ROWS = 64"

text \<open>The texts of the \<open>Backend\<close> errors of this file; the text of an allocation failure holds the buffer and the target.\<close>
datatype kv_message = RowWidth | AppendLength | BackingLength | GrowthLength | WriteOffset | Allocate string usize

datatype NnError =
    Shape usize usize
  | MissingMetadata rstring
  | MissingConfig rstring
  | InvalidArtifact rstring
  | ResourceExhausted rstring
  | Provenance rstring
  | Verification rstring
  | Backend kv_message
  | UnsupportedTensorType u32
  | MissingTensor rstring
  | BackendUnavailable
  | Tokenizer rstring

record vec_f32 =
  vec_elems :: "f32 list"
  vec_capacity :: nat

record KvCache =
  kc_k :: vec_f32
  kc_v :: vec_f32
  kc_len :: usize
  kc_max_ctx :: usize
  kc_row_width :: usize

definition vec_new :: vec_f32 where "vec_new = \<lparr>vec_elems = [], vec_capacity = 0\<rparr>"

text \<open>\<open>Vec::resize\<close> to a length within the capacity, and \<open>Vec::truncate\<close>.\<close>
definition vec_resize :: "nat \<Rightarrow> vec_f32 \<Rightarrow> vec_f32" where
  "vec_resize n b = b\<lparr>vec_elems := take n (vec_elems b) @ replicate (n - length (vec_elems b)) f32_zero,
     vec_capacity := max n (vec_capacity b)\<rparr>"

definition vec_truncate :: "nat \<Rightarrow> vec_f32 \<Rightarrow> vec_f32" where
  "vec_truncate n b = b\<lparr>vec_elems := take n (vec_elems b)\<rparr>"

definition copy_at :: "nat \<Rightarrow> f32 list \<Rightarrow> vec_f32 \<Rightarrow> vec_f32" where
  "copy_at start src b = b\<lparr>vec_elems := take start (vec_elems b) @ src @ drop (start + length src) (vec_elems b)\<rparr>"

section \<open>Operations\<close>

definition kv_try_new :: "usize \<Rightarrow> usize \<Rightarrow> usize \<Rightarrow> NnError + KvCache" where
  "kv_try_new max_ctx n_head_kv head_dim =
    rbind (ok_or (checked_mul n_head_kv head_dim) (Backend RowWidth)) (\<lambda>row_width.
    Inr \<lparr>kc_k = vec_new, kc_v = vec_new, kc_len = 0, kc_max_ctx = max_ctx, kc_row_width = row_width\<rparr>)"

definition kv_new :: "usize \<Rightarrow> usize \<Rightarrow> usize \<Rightarrow> KvCache option" where
  "kv_new max_ctx n_head_kv head_dim =
    (case kv_try_new max_ctx n_head_kv head_dim of Inr c \<Rightarrow> Some c | Inl _ \<Rightarrow> None)"

definition reserve_to :: "(string \<Rightarrow> nat \<Rightarrow> nat option) \<Rightarrow> string \<Rightarrow> nat \<Rightarrow> vec_f32 \<Rightarrow> NnError + vec_f32" where
  "reserve_to alloc what target b =
    (if vec_capacity b < target
     then (case alloc what (length (vec_elems b) + (target - length (vec_elems b))) of
             None \<Rightarrow> Inl (Backend (Allocate what target))
           | Some cap \<Rightarrow> Inr (b\<lparr>vec_capacity := cap\<rparr>))
     else Inr b)"

text \<open>The sizes \<open>append\<close> computes before it touches a buffer: the new length, the backing length and the capacity.\<close>
definition append_sizes :: "KvCache \<Rightarrow> nat \<Rightarrow> nat \<Rightarrow> nat \<Rightarrow> NnError + nat \<times> nat \<times> nat \<times> nat" where
  "append_sizes c k_len v_len n_new =
    rbind (ok_or (checked_mul n_new (kc_row_width c)) (Backend AppendLength)) (\<lambda>need.
    rbind (ensure (k_len = need) (Shape need k_len)) (\<lambda>_.
    rbind (ensure (v_len = need) (Shape need v_len)) (\<lambda>_.
    rbind (ok_or (checked_add (kc_len c) n_new) (Shape (kc_max_ctx c) usize_MAX)) (\<lambda>new_len.
    rbind (ensure (new_len \<le> kc_max_ctx c) (Shape (kc_max_ctx c) new_len)) (\<lambda>_.
    rbind (ok_or (checked_mul new_len (kc_row_width c)) (Backend BackingLength)) (\<lambda>required_elements.
    let growth_rows = min (case checked_mul (div_ceil new_len GROWTH_ROWS) GROWTH_ROWS of
          None \<Rightarrow> kc_max_ctx c | Some g \<Rightarrow> g) (kc_max_ctx c) in
    rbind (ok_or (checked_mul growth_rows (kc_row_width c)) (Backend GrowthLength)) (\<lambda>target_elements.
    Inr (need, new_len, required_elements, target_elements))))))))"

text \<open>The buffers after a failed reservation are returned too: a key reservation stays when the value reservation fails.\<close>
definition kv_append :: "(string \<Rightarrow> nat \<Rightarrow> nat option) \<Rightarrow> f32 list \<Rightarrow> f32 list \<Rightarrow> nat \<Rightarrow> KvCache \<Rightarrow> (NnError + unit) \<times> KvCache" where
  "kv_append alloc k_new v_new n_new c =
    (case append_sizes c (length k_new) (length v_new) n_new of
       Inl e \<Rightarrow> (Inl e, c)
     | Inr (need, new_len, required_elements, target_elements) \<Rightarrow>
         (case reserve_to alloc ''key'' target_elements (kc_k c) of
            Inl e \<Rightarrow> (Inl e, c)
          | Inr k \<Rightarrow>
              (case reserve_to alloc ''value'' target_elements (kc_v c) of
                 Inl e \<Rightarrow> (Inl e, c\<lparr>kc_k := k\<rparr>)
               | Inr v \<Rightarrow>
                   let k = vec_resize required_elements k; v = vec_resize required_elements v in
                   (case checked_mul (kc_len c) (kc_row_width c) of
                      None \<Rightarrow> (Inl (Backend WriteOffset), c\<lparr>kc_k := k, kc_v := v\<rparr>)
                    | Some start \<Rightarrow> (Inr (), c\<lparr>kc_k := copy_at start k_new k, kc_v := copy_at start v_new v, kc_len := new_len\<rparr>)))))"

text \<open>A slice out of range and a failed \<open>expect\<close> panic; the result is then \<^const>\<open>None\<close>.\<close>
definition kv_view :: "KvCache \<Rightarrow> (f32 list \<times> f32 list \<times> nat) option" where
  "kv_view c = (let n = kc_len c * kc_row_width c in
     if n \<le> length (vec_elems (kc_k c)) \<and> n \<le> length (vec_elems (kc_v c))
     then Some (take n (vec_elems (kc_k c)), take n (vec_elems (kc_v c)), kc_len c) else None)"

definition kv_rollback_to :: "nat \<Rightarrow> KvCache \<Rightarrow> KvCache option" where
  "kv_rollback_to n c = map_option (\<lambda>elements.
     c\<lparr>kc_k := vec_truncate elements (kc_k c), kc_v := vec_truncate elements (kc_v c), kc_len := n\<rparr>)
     (checked_mul n (kc_row_width c))"

definition kv_reset :: "KvCache \<Rightarrow> KvCache option" where
  "kv_reset c = kv_rollback_to 0 c"

section \<open>The invariant\<close>

definition kv_inv :: "KvCache \<Rightarrow> bool" where
  "kv_inv c \<longleftrightarrow> kc_len c \<le> kc_max_ctx c \<and> kc_max_ctx c \<le> usize_MAX \<and> kc_len c * kc_row_width c \<le> usize_MAX \<and>
     length (vec_elems (kc_k c)) = kc_len c * kc_row_width c \<and> length (vec_elems (kc_v c)) = kc_len c * kc_row_width c"

lemma kv_try_new_inv: "kv_try_new m n d = Inr c \<Longrightarrow> m \<le> usize_MAX \<Longrightarrow> kv_inv c"
  by (auto simp: kv_try_new_def rbind_eq_Inr ok_or_def kv_inv_def vec_new_def split: option.splits)

lemma kv_view_inv: "kv_inv c \<Longrightarrow> kv_view c = Some (vec_elems (kc_k c), vec_elems (kc_v c), kc_len c)"
  by (simp add: kv_inv_def kv_view_def)

lemma kv_rollback_inv:
  assumes "kv_inv c" "n \<le> kc_len c"
  obtains c' where "kv_rollback_to n c = Some c'" "kv_inv c'" "kc_len c' = n"
    "vec_elems (kc_k c') = take (n * kc_row_width c) (vec_elems (kc_k c))"
    "vec_elems (kc_v c') = take (n * kc_row_width c) (vec_elems (kc_v c))"
proof -
  have le: "n * kc_row_width c \<le> kc_len c * kc_row_width c" using assms(2) by simp
  have m: "n * kc_row_width c \<le> usize_MAX" using assms(1) le unfolding kv_inv_def by linarith
  show thesis using that assms le m by (simp add: kv_inv_def kv_rollback_to_def vec_truncate_def checked_mul_def)
qed

lemma reserve_to_elems: "reserve_to alloc what target b = Inr b' \<Longrightarrow> vec_elems b' = vec_elems b"
  by (auto simp: reserve_to_def split: if_splits option.splits)

definition alloc_ok :: "(string \<Rightarrow> nat \<Rightarrow> nat option) \<Rightarrow> bool" where
  "alloc_ok alloc \<longleftrightarrow> (\<forall>what n cap. alloc what n = Some cap \<longrightarrow> n \<le> cap)"

lemma reserve_to_capacity:
  assumes "alloc_ok alloc" "reserve_to alloc what target b = Inr b'"
  shows "target \<le> vec_capacity b'"
proof (cases "vec_capacity b < target")
  case True
  then obtain cap where cap: "alloc what (length (vec_elems b) + (target - length (vec_elems b))) = Some cap" "b' = b\<lparr>vec_capacity := cap\<rparr>"
    using assms(2) by (auto simp: reserve_to_def split: option.splits)
  have "length (vec_elems b) + (target - length (vec_elems b)) \<le> cap" using assms(1) cap(1) by (simp add: alloc_ok_def)
  then show ?thesis using cap(2) by simp
qed (use assms(2) in \<open>simp add: reserve_to_def\<close>)

lemma append_sizes_ok: "append_sizes c kl vl n = Inr (need, new_len, required, target) \<longleftrightarrow>
    need = n * kc_row_width c \<and> kl = need \<and> vl = need \<and> new_len = kc_len c + n \<and> new_len \<le> kc_max_ctx c \<and>
    required = new_len * kc_row_width c \<and>
    target = min (case checked_mul (div_ceil new_len GROWTH_ROWS) GROWTH_ROWS of None \<Rightarrow> kc_max_ctx c | Some g \<Rightarrow> g) (kc_max_ctx c) * kc_row_width c \<and>
    need \<le> usize_MAX \<and> new_len \<le> usize_MAX \<and> required \<le> usize_MAX \<and> target \<le> usize_MAX"
  by (auto simp: append_sizes_def rbind_eq_Inr ok_or_def Let_def checked_mul_def checked_add_def split: option.splits if_splits)

lemma append_target: "append_sizes c kl vl n = Inr (need, new_len, required, target) \<Longrightarrow> required \<le> target"
  using div_ceil_mult_ge [of GROWTH_ROWS new_len]
  by (auto simp: append_sizes_ok GROWTH_ROWS_def min_def checked_mul_def intro!: mult_right_mono split: option.splits if_splits)

text \<open>After a reservation the resize stays within the capacity, so the only allocation is the fallible one.\<close>
lemma append_never_reallocates:
  assumes "alloc_ok alloc" "append_sizes c kl vl n = Inr (need, new_len, required, target)" "reserve_to alloc what target b = Inr b'"
  shows "vec_capacity (vec_resize required b') = vec_capacity b'"
  using append_target [OF assms(2)] reserve_to_capacity [OF assms(1,3)] by (simp add: vec_resize_def)

lemma copy_resize_elems:
  assumes "length (vec_elems b) = l * w" "length src = n * w"
  shows "vec_elems (copy_at (l * w) src (vec_resize ((l + n) * w) b)) = vec_elems b @ src"
  using assms by (simp add: copy_at_def vec_resize_def add_mult_distrib)

lemma kv_append_ok:
  assumes "kv_inv c" "kv_append alloc k v n c = (Inr (), c')"
  shows "vec_elems (kc_k c') = vec_elems (kc_k c) @ k" "vec_elems (kc_v c') = vec_elems (kc_v c) @ v"
    "kc_len c' = kc_len c + n" "kc_row_width c' = kc_row_width c" "kc_max_ctx c' = kc_max_ctx c"
    "kv_inv c'"
proof -
  obtain target bk bv where s: "append_sizes c (length k) (length v) n =
      Inr (n * kc_row_width c, kc_len c + n, (kc_len c + n) * kc_row_width c, target)"
    and r: "reserve_to alloc ''key'' target (kc_k c) = Inr bk" "reserve_to alloc ''value'' target (kc_v c) = Inr bv"
    and c': "c' = c\<lparr>kc_k := copy_at (kc_len c * kc_row_width c) k (vec_resize ((kc_len c + n) * kc_row_width c) bk),
        kc_v := copy_at (kc_len c * kc_row_width c) v (vec_resize ((kc_len c + n) * kc_row_width c) bv), kc_len := kc_len c + n\<rparr>"
    using assms(2) by (auto simp: kv_append_def Let_def append_sizes_ok split: sum.splits prod.splits option.splits)
  have len: "length k = n * kc_row_width c" "length v = n * kc_row_width c" "kc_len c + n \<le> kc_max_ctx c"
    "(kc_len c + n) * kc_row_width c \<le> usize_MAX" using s by (simp_all add: append_sizes_ok)
  have b: "length (vec_elems bk) = kc_len c * kc_row_width c" "length (vec_elems bv) = kc_len c * kc_row_width c"
    using r [THEN reserve_to_elems] assms(1) by (simp_all add: kv_inv_def)
  show k: "vec_elems (kc_k c') = vec_elems (kc_k c) @ k" and v: "vec_elems (kc_v c') = vec_elems (kc_v c) @ v"
    using copy_resize_elems [OF b(1) len(1)] copy_resize_elems [OF b(2) len(2)] r [THEN reserve_to_elems] by (simp_all add: c')
  show f: "kc_len c' = kc_len c + n" "kc_row_width c' = kc_row_width c" "kc_max_ctx c' = kc_max_ctx c" by (simp_all add: c')
  show "kv_inv c'" using assms(1) len f k v by (simp add: kv_inv_def add_mult_distrib)
qed

lemma kv_append_fails:
  assumes "kv_inv c" "kv_append alloc k v n c = (Inl e, c')"
  shows "kv_view c' = kv_view c \<and> kv_inv c'"
  using assms by (auto simp: kv_append_def Let_def kv_view_def kv_inv_def checked_mul_def dest!: reserve_to_elems
      split: sum.splits prod.splits option.splits if_splits)

text \<open>C5: the cache refines an append-only list of rows with rollback.  On a well-formed cache, whatever the allocator
  grants, \<open>append\<close> either succeeds and extends the view by exactly the new rows, or fails and leaves the view as it was;
  the cache stays well formed either way, and rolling back to the old length restores the old view.\<close>
theorem kv_append_refines:
  assumes "kv_inv c" and "kv_append alloc k v n c = (res, c')"
  shows "kv_inv c' \<and> (\<exists>k0 v0. kv_view c = Some (k0, v0, kc_len c) \<and>
    (case res of
       Inr _ \<Rightarrow> kv_view c' = Some (k0 @ k, v0 @ v, kc_len c + n) \<and>
              (\<exists>c''. kv_rollback_to (kc_len c) c' = Some c'' \<and> kv_inv c'' \<and> kv_view c'' = kv_view c)
     | Inl _ \<Rightarrow> kv_view c' = kv_view c))"
proof (cases res)
  case (Inl e)
  then show ?thesis using kv_append_fails assms kv_view_inv by simp
next
  case (Inr u)
  have a: "kv_append alloc k v n c = (Inr (), c')" using assms(2) Inr by simp
  note f = kv_append_ok [OF assms(1) a]
  obtain c'' where c'': "kv_rollback_to (kc_len c) c' = Some c''" "kv_inv c''" "kc_len c'' = kc_len c"
    "vec_elems (kc_k c'') = take (kc_len c * kc_row_width c') (vec_elems (kc_k c'))"
    "vec_elems (kc_v c'') = take (kc_len c * kc_row_width c') (vec_elems (kc_v c'))"
    using kv_rollback_inv [OF f(6), of "kc_len c"] f(3) by auto
  have "kv_view c'' = kv_view c"
    using assms(1) kv_view_inv [OF c''(2)] kv_view_inv [OF assms(1)] by (simp add: c''(3-5) kv_inv_def f(1,2,4))
  then show ?thesis using f c'' assms(1) Inr by (simp add: kv_view_inv)
qed

text \<open>Two rows into a cache of width two.\<close>
theorem kv_append_refines_witness:
  "\<exists>c c'. kv_try_new 8 1 2 = Inr c \<and> kv_append (\<lambda>_. Some) [1, 2, 3, 4] [5, 6, 7, 8] 2 c = (Inr (), c') \<and>
     kv_view c' = Some ([1, 2, 3, 4], [5, 6, 7, 8], 2)"
proof -
  obtain c where c: "kv_try_new 8 1 2 = Inr c"
    "c = \<lparr>kc_k = vec_new, kc_v = vec_new, kc_len = 0, kc_max_ctx = 8, kc_row_width = 2\<rparr>"
    by (simp add: kv_try_new_def checked_mul_def usize_MAX_num ok_or_def)
  have inv: "kv_inv c" by (simp add: c(2) kv_inv_def vec_new_def usize_MAX_num)
  obtain c' where c': "kv_append (\<lambda>_. Some) [1, 2, 3, 4] [5, 6, 7, 8] 2 c = (Inr (), c')"
    by (simp add: kv_append_def append_sizes_def c(2) vec_new_def checked_mul_def checked_add_def usize_MAX_num
        ok_or_def reserve_to_def Let_def div_ceil_def GROWTH_ROWS_def)
  from kv_append_refines [OF inv c'] c c' show ?thesis by (auto simp: kv_view_def vec_new_def)
qed

end
