(* ===== verification/Mcu.thy ===== *)
theory Mcu
  imports Kernels
begin

text \<open>
  The microcontroller executor (\<open>tritium-mcu/src/lib.rs\<close>): the bump arena and the three kernels that run out of it.
  A slice handed out by the arena is the interval of the backing buffer it occupies.  A panic of a kernel is passed on
  as \<^const>\<open>Panic\<close>.
\<close>

section \<open>The arena\<close>

datatype McuError = ArenaOverflow usize usize | McuShape TritError

record Arena =
  ar_buf :: "f32 list"
  ar_used :: usize
  ar_peak :: usize

definition arena_new :: "f32 list \<Rightarrow> Arena" where
  "arena_new buf = \<lparr>ar_buf = buf, ar_used = 0, ar_peak = 0\<rparr>"

definition capacity_f32 :: "Arena \<Rightarrow> usize" where "capacity_f32 a = length (ar_buf a)"
definition used_f32 :: "Arena \<Rightarrow> usize" where "used_f32 a = ar_used a"
definition peak_f32 :: "Arena \<Rightarrow> usize" where "peak_f32 a = ar_peak a"

definition arena_reset :: "Arena \<Rightarrow> Arena" where
  "arena_reset a = a\<lparr>ar_used := 0\<rparr>"

definition splice :: "nat \<Rightarrow> 'a list \<Rightarrow> 'a list \<Rightarrow> 'a list" where
  "splice start src xs = take start xs @ src @ drop (start + length src) xs"

text \<open>The slice is its start; it ends at the new watermark.\<close>
definition arena_alloc :: "nat \<Rightarrow> Arena \<Rightarrow> McuError + nat \<times> Arena" where
  "arena_alloc n a =
    (case checked_add (ar_used a) n of
       None \<Rightarrow> Inl (ArenaOverflow n (length (ar_buf a) - ar_used a))
     | Some end_i \<Rightarrow>
         if length (ar_buf a) < end_i then Inl (ArenaOverflow n (length (ar_buf a) - ar_used a))
         else Inr (ar_used a, a\<lparr>ar_buf := splice (ar_used a) (replicate n f32_zero) (ar_buf a), ar_used := end_i,
                ar_peak := (if ar_peak a < end_i then end_i else ar_peak a)\<rparr>))"

section \<open>Kernels\<close>

text \<open>The common shape: allocate the output, run the kernel into it, keep the allocation even when the kernel refuses.\<close>
definition run_in_arena :: "nat \<Rightarrow> (nat \<Rightarrow> TritError fault + f32 list) \<Rightarrow> Arena \<Rightarrow> (McuError fault + f32 list) \<times> Arena" where
  "run_in_arena n kern a =
    (case arena_alloc n a of
       Inl e \<Rightarrow> (Inl (Fail e), a)
     | Inr (start, a') \<Rightarrow>
         (case kern n of
            Inl (Fail e) \<Rightarrow> (Inl (Fail (McuShape e)), a')
          | Inl Panic \<Rightarrow> (Inl Panic, a')
          | Inr out \<Rightarrow> (Inr out, a'\<lparr>ar_buf := splice start out (ar_buf a')\<rparr>)))"

definition mcu_mpgemm :: "Arena \<Rightarrow> f32 list \<Rightarrow> trit list \<Rightarrow> f32 list \<Rightarrow> GemmShape \<Rightarrow> (McuError fault + f32 list) \<times> Arena" where
  "mcu_mpgemm arena act weights scale_n shape =
    run_in_arena (gemm_m shape * gemm_n shape) (\<lambda>out_len. map_err Fail (reference_mpgemm act weights scale_n shape out_len)) arena"

definition mcu_conv1d :: "Arena \<Rightarrow> f32 list \<Rightarrow> trit list \<Rightarrow> f32 list \<Rightarrow> ConvShape \<Rightarrow> (McuError fault + f32 list) \<times> Arena" where
  "mcu_conv1d arena x weights scale_n shape =
    run_in_arena (cv_batch shape * cv_c_out shape * l_out shape)
      (\<lambda>out_len. map_err Fail (reference_conv1d x weights scale_n shape out_len)) arena"

definition mcu_fsq :: "Arena \<Rightarrow> f32 list \<Rightarrow> u32 list \<Rightarrow> usize \<Rightarrow> usize \<Rightarrow> (McuError fault + f32 list) \<times> Arena" where
  "mcu_fsq arena x levels channels len =
    run_in_arena (wrapping_mul channels len) (\<lambda>out_len. reference_fsq x levels channels len out_len) arena"

section \<open>The static budget\<close>

definition arena_inv :: "Arena \<Rightarrow> bool" where
  "arena_inv a \<longleftrightarrow> ar_used a \<le> ar_peak a \<and> ar_peak a \<le> length (ar_buf a) \<and> length (ar_buf a) \<le> usize_MAX"

lemma arena_alloc_ok: "arena_inv a \<Longrightarrow> arena_alloc n a = Inr (start, a') \<longleftrightarrow>
    ar_used a + n \<le> length (ar_buf a) \<and> start = ar_used a \<and>
    a' = a\<lparr>ar_buf := splice (ar_used a) (replicate n f32_zero) (ar_buf a), ar_used := ar_used a + n, ar_peak := max (ar_peak a) (ar_used a + n)\<rparr>"
  by (auto simp: arena_alloc_def checked_add_def arena_inv_def max_def split: option.splits if_splits)

lemma length_splice: "start + length src \<le> length xs \<Longrightarrow> length (splice start src xs) = length xs"
  by (simp add: splice_def)

lemma take_splice: "start + length src \<le> length xs \<Longrightarrow> take start (splice start src xs) = take start xs"
  by (simp add: splice_def)

lemma window_splice: "start + length src \<le> length xs \<Longrightarrow> window start (length src) (splice start src xs) = src"
  by (simp add: splice_def window_def)

definition kernel_fits :: "(nat \<Rightarrow> TritError fault + f32 list) \<Rightarrow> nat \<Rightarrow> bool" where
  "kernel_fits kern n \<longleftrightarrow> (\<forall>out. kern n = Inr out \<longrightarrow> length out = n)"

text \<open>What one run of a kernel does to the arena.\<close>
lemma run_in_arena_spec:
  assumes inv: "arena_inv a" and fits: "kernel_fits kern n" and run: "run_in_arena n kern a = (res, a')"
  shows "arena_inv a' \<and> length (ar_buf a') = length (ar_buf a) \<and> take (ar_used a) (ar_buf a') = take (ar_used a) (ar_buf a) \<and>
    ar_used a \<le> ar_used a' \<and> (\<forall>out. res = Inr out \<longleftrightarrow> kern n = Inr out \<and> ar_used a + n \<le> length (ar_buf a)) \<and>
    (\<forall>out. res = Inr out \<longrightarrow> window (ar_used a) (length out) (ar_buf a') = out \<and> ar_used a + length out \<le> ar_used a')"
proof (cases "ar_used a + n \<le> length (ar_buf a)")
  case False
  then have "arena_alloc n a = Inl (ArenaOverflow n (length (ar_buf a) - ar_used a))"
    by (auto simp: arena_alloc_def checked_add_def)
  then show ?thesis using run False inv by (auto simp: run_in_arena_def)
next
  case True
  let ?b = "a\<lparr>ar_buf := splice (ar_used a) (replicate n f32_zero) (ar_buf a), ar_used := ar_used a + n, ar_peak := max (ar_peak a) (ar_used a + n)\<rparr>"
  have al: "arena_alloc n a = Inr (ar_used a, ?b)" using arena_alloc_ok [OF inv] True by blast
  have b: "arena_inv ?b" "length (ar_buf ?b) = length (ar_buf a)" "take (ar_used a) (ar_buf ?b) = take (ar_used a) (ar_buf a)"
    using inv True by (auto simp: arena_inv_def length_splice take_splice)
  show ?thesis
  proof (cases "kern n")
    case (Inl e)
    then show ?thesis using run al b True by (cases e) (auto simp: run_in_arena_def)
  next
    case (Inr out)
    have len: "length out = n" using fits Inr by (simp add: kernel_fits_def)
    then have "ar_used a + length out \<le> length (ar_buf ?b)" using b(2) True by simp
    note s = length_splice [OF this] take_splice [OF this] window_splice [OF this]
    have a': "res = Inr out" "a' = ?b\<lparr>ar_buf := splice (ar_used a) out (ar_buf ?b)\<rparr>"
      using run al Inr by (auto simp: run_in_arena_def)
    show ?thesis using a' b s True Inr len by (auto simp: arena_inv_def)
  qed
qed

lemma mpgemm_fits: "kernel_fits (\<lambda>n. map_err Fail (reference_mpgemm act weights scale_n shape n)) n"
  by (auto simp: kernel_fits_def map_err_def reference_mpgemm_ok gemm_buffers_fit_def split: sum.splits)

lemma conv1d_fits: "kernel_fits (\<lambda>n. map_err Fail (reference_conv1d x weights scale_n shape n)) n"
proof -
  have "length out = n" if "reference_conv1d x weights scale_n shape n = Inr out" for out
  proof -
    have fit: "conv_buffers_fit shape (length x) (length weights) (length scale_n) n" using that
      by (auto simp: reference_conv1d_def split: if_splits)
    have "length out = cv_batch shape * (cv_groups shape * (n_g shape * l_out shape))"
      using that by (auto simp: reference_conv1d_def length_concat comp_def sum_list_triv split: if_splits)
    moreover have "cv_groups shape * n_g shape = cv_c_out shape" using fit by (auto simp: conv_buffers_fit_def n_g_def)
    ultimately show ?thesis using fit by (simp add: conv_buffers_fit_def mult.assoc [symmetric])
  qed
  then show ?thesis by (auto simp: kernel_fits_def map_err_def split: sum.splits)
qed

lemma fsq_fits: "kernel_fits (\<lambda>n. reference_fsq x levels channels len n) n"
  by (auto simp: kernel_fits_def reference_fsq_def rbind_eq_Inr check_def map_err_def dest: mapR_length split: if_splits sum.splits)

section \<open>A window of operations\<close>

datatype mcu_op =
    OpMpgemm "f32 list" "trit list" "f32 list" GemmShape
  | OpConv1d "f32 list" "trit list" "f32 list" ConvShape
  | OpFsq "f32 list" "u32 list" usize usize

fun mcu_step :: "mcu_op \<Rightarrow> Arena \<Rightarrow> (McuError fault + f32 list) \<times> Arena" where
  "mcu_step (OpMpgemm act w s shape) a = mcu_mpgemm a act w s shape"
| "mcu_step (OpConv1d x w s shape) a = mcu_conv1d a x w s shape"
| "mcu_step (OpFsq x levels channels len) a = mcu_fsq a x levels channels len"

text \<open>The host's result of an operation, and the room it takes.\<close>
fun host_result :: "mcu_op \<Rightarrow> TritError fault + f32 list" where
  "host_result (OpMpgemm act w s shape) = map_err Fail (reference_mpgemm act w s shape (gemm_m shape * gemm_n shape))"
| "host_result (OpConv1d x w s shape) = map_err Fail (reference_conv1d x w s shape (cv_batch shape * cv_c_out shape * l_out shape))"
| "host_result (OpFsq x levels channels len) = reference_fsq x levels channels len (wrapping_mul channels len)"

fun op_size :: "mcu_op \<Rightarrow> nat" where
  "op_size (OpMpgemm act w s shape) = gemm_m shape * gemm_n shape"
| "op_size (OpConv1d x w s shape) = cv_batch shape * cv_c_out shape * l_out shape"
| "op_size (OpFsq x levels channels len) = wrapping_mul channels len"

lemma mcu_step_spec:
  assumes "arena_inv a" "mcu_step op a = (res, a')"
  shows "arena_inv a' \<and> length (ar_buf a') = length (ar_buf a) \<and> take (ar_used a) (ar_buf a') = take (ar_used a) (ar_buf a) \<and>
    ar_used a \<le> ar_used a' \<and> (\<forall>out. res = Inr out \<longleftrightarrow> host_result op = Inr out \<and> ar_used a + op_size op \<le> length (ar_buf a)) \<and>
    (\<forall>out. res = Inr out \<longrightarrow> window (ar_used a) (length out) (ar_buf a') = out \<and> ar_used a + length out \<le> ar_used a')"
proof (cases op)
  case (OpMpgemm act w sc shape)
  then show ?thesis using run_in_arena_spec [OF assms(1) mpgemm_fits, of _ act w sc shape res a'] assms(2)
    by (simp add: mcu_mpgemm_def)
next
  case (OpConv1d x w sc shape)
  then show ?thesis using run_in_arena_spec [OF assms(1) conv1d_fits, of _ x w sc shape res a'] assms(2)
    by (simp add: mcu_conv1d_def)
next
  case (OpFsq x levels channels len)
  then show ?thesis using run_in_arena_spec [OF assms(1) fsq_fits, of _ x levels channels len res a'] assms(2)
    by (simp add: mcu_fsq_def)
qed

primrec mcu_run :: "mcu_op list \<Rightarrow> Arena \<Rightarrow> Arena" where
  "mcu_run [] a = a"
| "mcu_run (op # ops) a = mcu_run ops (snd (mcu_step op a))"

inductive arena_reach :: "f32 list \<Rightarrow> Arena \<Rightarrow> bool" for buf where
  reach_new: "arena_reach buf (arena_new buf)"
| reach_step: "arena_reach buf a \<Longrightarrow> arena_reach buf (snd (mcu_step op a))"
| reach_reset: "arena_reach buf a \<Longrightarrow> arena_reach buf (arena_reset a)"

lemma arena_reach_inv: "arena_reach buf a \<Longrightarrow> length buf \<le> usize_MAX \<Longrightarrow> arena_inv a \<and> length (ar_buf a) = length buf"
proof (induction rule: arena_reach.induct)
  case (reach_step a op)
  then show ?case using mcu_step_spec [of a op "fst (mcu_step op a)" "snd (mcu_step op a)"] by simp
qed (auto simp: arena_inv_def arena_new_def arena_reset_def)

lemma mcu_run_keeps: "arena_inv a \<Longrightarrow> arena_inv (mcu_run ops a) \<and> length (ar_buf (mcu_run ops a)) = length (ar_buf a) \<and>
    take (ar_used a) (ar_buf (mcu_run ops a)) = take (ar_used a) (ar_buf a)"
proof (induction ops arbitrary: a)
  case (Cons op ops)
  let ?b = "snd (mcu_step op a)"
  have b: "arena_inv ?b" "length (ar_buf ?b) = length (ar_buf a)" "take (ar_used a) (ar_buf ?b) = take (ar_used a) (ar_buf a)"
    "ar_used a \<le> ar_used ?b"
    using mcu_step_spec [OF Cons.prems, of op "fst (mcu_step op a)" ?b] by simp_all
  have "take (ar_used a) (ar_buf (mcu_run ops ?b)) = take (ar_used a) (take (ar_used ?b) (ar_buf (mcu_run ops ?b)))"
    using b(4) by (simp add: min_def)
  also have "\<dots> = take (ar_used a) (ar_buf a)" using Cons.IH [OF b(1)] b by (simp add: min_def)
  finally show ?case using Cons.IH [OF b(1)] b by simp
qed simp

lemma window_prefix: "take u xs = take u ys \<Longrightarrow> a + n \<le> u \<Longrightarrow> window a n xs = window a n ys"
  by (metis add.commute drop_take take_drop take_take min.absorb1 window_def)

text \<open>C8: the executor is the host, within its budget.  In any state the arena reaches, by kernels and resets, an operation
  succeeds exactly when the host's reference succeeds and the output fits the room left, with the host's result; that
  output stays in place whatever kernels run after it, failing ones included, until the next reset; and the peak
  never exceeds the declared buffer.\<close>
theorem mcu_matches_host:
  assumes "arena_reach buf a" and "length buf \<le> usize_MAX" and "mcu_step op a = (res, a')"
  shows "(res = Inr out \<longleftrightarrow> host_result op = Inr out \<and> ar_used a + op_size op \<le> length buf) \<and>
    (res = Inr out \<longrightarrow> window (ar_used a) (length out) (ar_buf (mcu_run ops a')) = out) \<and>
    peak_f32 (mcu_run ops a') \<le> length buf"
proof -
  note inv = arena_reach_inv [OF assms(1,2)]
  note s = mcu_step_spec [OF conjunct1 [OF inv] assms(3)]
  have k: "arena_inv (mcu_run ops a')" "length (ar_buf (mcu_run ops a')) = length (ar_buf a')"
    "take (ar_used a') (ar_buf (mcu_run ops a')) = take (ar_used a') (ar_buf a')"
    using mcu_run_keeps [of a' ops] s by simp_all
  have "res = Inr out \<Longrightarrow> window (ar_used a) (length out) (ar_buf (mcu_run ops a')) = out"
    using s window_prefix [OF k(3), of "ar_used a" "length out"] by simp
  moreover have "peak_f32 (mcu_run ops a') \<le> length buf" using k s inv by (simp add: peak_f32_def arena_inv_def)
  ultimately show ?thesis using s inv by auto
qed

text \<open>A two-row product in a four-element arena, then one that no longer fits.\<close>
definition sample_op :: "nat \<Rightarrow> mcu_op" where
  "sample_op m = OpMpgemm (replicate m f32_zero) [POS] [f32_zero] \<lparr>gemm_m = m, gemm_n = 1, gemm_k = 1\<rparr>"

theorem mcu_matches_host_witness:
  "\<exists>out a'. mcu_step (sample_op 2) (arena_new [7, 7, 7, 7]) = (Inr out, a') \<and> length out = 2 \<and>
     window 0 (length out) (ar_buf (mcu_run [sample_op 3] a')) = out"
proof -
  have r: "arena_reach [7, 7, 7, 7] (arena_new [7, 7, 7, 7])" by (rule reach_new)
  obtain out where out: "host_result (sample_op 2) = Inr out" "length out = 2"
    by (simp add: sample_op_def reference_mpgemm_def check_def map_err_def)
  obtain res a' where st: "mcu_step (sample_op 2) (arena_new [7, 7, 7, 7]) = (res, a')" by (meson surj_pair)
  have sz: "op_size (sample_op 2) = 2" by (simp add: sample_op_def)
  from mcu_matches_host [OF r _ st, of out "[sample_op 3]"] out st sz show ?thesis
    by (auto simp: arena_new_def usize_MAX_num)
qed

end
