(* ===== verification/Runtime.thy ===== *)
theory Runtime
  imports Errors "HOL-Library.Multiset"
begin

text \<open>
  Two shared pieces of the runtime: the payload ledger (\<open>tritium-runtime/src/tensor_budget.rs\<close>) and the backend
  registry (\<open>tritium-runtime/src/lib.rs\<close>).  Ledgers are used by many threads: a reservation is a load followed by a
  compare-and-exchange loop, and each access to the counter is one step of a transition relation, so every
  interleaving is a path.  A \<open>u64\<close> is a natural number with its wrap-around written out.
\<close>

section \<open>Ledgers\<close>

record Ledger =
  lg_limit :: nat
  lg_used :: nat
  lg_alive :: bool

text \<open>Who holds a reservation: caller-owned storage or an admitted buffer, or a child ledger, by its index.\<close>
datatype holder = Storage | Partition nat

record Reservation =
  rs_ledger :: nat
  rs_bytes :: nat
  rs_holder :: holder

datatype BudgetError = AggregateOverflow | TensorPayloadBudgetExceeded nat nat

text \<open>A call of \<open>reserve\<close> in progress: its arguments, its local copy of the counter and whether \<open>partition\<close> made the call.\<close>
record attempt =
  at_ledger :: nat
  at_bytes :: nat
  at_used :: nat
  at_partition :: bool

record budget_state =
  bs_ledgers :: "Ledger list"
  bs_live :: "Reservation multiset"
  bs_threads :: "nat \<Rightarrow> attempt option"

definition ledger_new :: "nat \<Rightarrow> Ledger" where
  "ledger_new limit = \<lparr>lg_limit = limit, lg_used = 0, lg_alive = True\<rparr>"

text \<open>The body of the loop up to the exchange.\<close>
definition reserve_try :: "nat \<Rightarrow> nat \<Rightarrow> nat \<Rightarrow> BudgetError + nat" where
  "reserve_try limit used bytes =
    rbind (ok_or (checked_add used bytes) AggregateOverflow) (\<lambda>requested.
    if limit < requested then Inl (TensorPayloadBudgetExceeded requested limit) else Inr requested)"

definition fetch_sub :: "nat \<Rightarrow> nat \<Rightarrow> nat" where
  "fetch_sub used bytes = (used + 2 ^ 64 - bytes) mod 2 ^ 64"

definition set_used :: "nat \<Rightarrow> nat \<Rightarrow> budget_state \<Rightarrow> budget_state" where
  "set_used i u s = s\<lparr>bs_ledgers := (bs_ledgers s)[i := (bs_ledgers s ! i)\<lparr>lg_used := u\<rparr>]\<rparr>"

definition budget_init :: budget_state where
  "budget_init = \<lparr>bs_ledgers = [], bs_live = {#}, bs_threads = (\<lambda>_. None)\<rparr>"

text \<open>The exchange succeeds: the counter moves and the reservation is live; \<open>partition\<close> gives it to a new ledger.\<close>
definition commit :: "nat \<Rightarrow> attempt \<Rightarrow> nat \<Rightarrow> budget_state \<Rightarrow> budget_state" where
  "commit t a requested s =
    (let s = set_used (at_ledger a) requested s;
         child = length (bs_ledgers s);
         r = \<lparr>rs_ledger = at_ledger a, rs_bytes = at_bytes a, rs_holder = (if at_partition a then Partition child else Storage)\<rparr> in
     s\<lparr>bs_ledgers := bs_ledgers s @ (if at_partition a then [ledger_new (at_bytes a)] else []),
       bs_live := add_mset r (bs_live s), bs_threads := (bs_threads s)(t := None)\<rparr>)"

definition release :: "Reservation \<Rightarrow> budget_state \<Rightarrow> budget_state" where
  "release r s = (set_used (rs_ledger r) (fetch_sub (lg_used (bs_ledgers s ! rs_ledger r)) (rs_bytes r)) s)
     \<lparr>bs_live := bs_live s - {#r#}\<rparr>"

definition kill :: "nat \<Rightarrow> budget_state \<Rightarrow> budget_state" where
  "kill i s = s\<lparr>bs_ledgers := (bs_ledgers s)[i := (bs_ledgers s ! i)\<lparr>lg_alive := False\<rparr>]\<rparr>"

definition owned :: "nat \<Rightarrow> budget_state \<Rightarrow> bool" where
  "owned i s \<longleftrightarrow> (\<exists>r. r \<in># bs_live s \<and> rs_ledger r = i) \<or> (\<exists>t a. bs_threads s t = Some a \<and> at_ledger a = i)"

inductive budget_step :: "budget_state \<Rightarrow> budget_state \<Rightarrow> bool" where
  b_new: "limit \<le> usize_MAX \<Longrightarrow> budget_step s (s\<lparr>bs_ledgers := bs_ledgers s @ [ledger_new limit]\<rparr>)"
| b_load: "bs_threads s t = None \<Longrightarrow> i < length (bs_ledgers s) \<Longrightarrow> lg_alive (bs_ledgers s ! i) \<Longrightarrow> bytes \<le> usize_MAX \<Longrightarrow>
    budget_step s (s\<lparr>bs_threads := (bs_threads s)(t \<mapsto> \<lparr>at_ledger = i, at_bytes = bytes, at_used = lg_used (bs_ledgers s ! i), at_partition = p\<rparr>)\<rparr>)"
| b_refuse: "bs_threads s t = Some a \<Longrightarrow> reserve_try (lg_limit (bs_ledgers s ! at_ledger a)) (at_used a) (at_bytes a) = Inl e \<Longrightarrow>
    budget_step s (s\<lparr>bs_threads := (bs_threads s)(t := None)\<rparr>)"
| b_exchange: "bs_threads s t = Some a \<Longrightarrow> reserve_try (lg_limit (bs_ledgers s ! at_ledger a)) (at_used a) (at_bytes a) = Inr requested \<Longrightarrow>
    lg_used (bs_ledgers s ! at_ledger a) = at_used a \<Longrightarrow> budget_step s (commit t a requested s)"
| b_retry: "bs_threads s t = Some a \<Longrightarrow> reserve_try (lg_limit (bs_ledgers s ! at_ledger a)) (at_used a) (at_bytes a) = Inr requested \<Longrightarrow>
    budget_step s (s\<lparr>bs_threads := (bs_threads s)(t \<mapsto> a\<lparr>at_used := lg_used (bs_ledgers s ! at_ledger a)\<rparr>)\<rparr>)"
| b_drop: "r \<in># bs_live s \<Longrightarrow> rs_holder r = Storage \<Longrightarrow> budget_step s (release r s)"
| b_drop_root: "i < length (bs_ledgers s) \<Longrightarrow> \<not> owned i s \<Longrightarrow> (\<forall>r. r \<in># bs_live s \<longrightarrow> rs_holder r \<noteq> Partition i) \<Longrightarrow>
    budget_step s (kill i s)"
| b_drop_child: "r \<in># bs_live s \<Longrightarrow> rs_holder r = Partition i \<Longrightarrow> \<not> owned i s \<Longrightarrow> budget_step s (release r (kill i s))"

section \<open>The budget is never exceeded\<close>

definition charged :: "nat \<Rightarrow> Reservation multiset \<Rightarrow> nat" where
  "charged i m = sum_mset (image_mset rs_bytes (filter_mset (\<lambda>r. rs_ledger r = i) m))"

definition budget_inv :: "budget_state \<Rightarrow> bool" where
  "budget_inv s \<longleftrightarrow>
    (\<forall>i < length (bs_ledgers s). lg_used (bs_ledgers s ! i) = charged i (bs_live s) \<and>
       lg_used (bs_ledgers s ! i) \<le> lg_limit (bs_ledgers s ! i) \<and> lg_limit (bs_ledgers s ! i) \<le> usize_MAX) \<and>
    (\<forall>r. r \<in># bs_live s \<longrightarrow> rs_ledger r < length (bs_ledgers s) \<and>
       (\<forall>j. rs_holder r = Partition j \<longrightarrow> j < length (bs_ledgers s) \<and> lg_limit (bs_ledgers s ! j) = rs_bytes r)) \<and>
    (\<forall>t a. bs_threads s t = Some a \<longrightarrow> at_ledger a < length (bs_ledgers s) \<and> at_bytes a \<le> usize_MAX)"

lemma charged_add [simp]: "charged i (add_mset r m) = (if rs_ledger r = i then rs_bytes r else 0) + charged i m"
  by (simp add: charged_def)

lemma charged_remove: "r \<in># m \<Longrightarrow> charged i m = (if rs_ledger r = i then rs_bytes r else 0) + charged i (m - {#r#})"
  by (metis charged_add insert_DiffM)

lemma reserve_try_ok: "reserve_try limit used bytes = Inr q \<longleftrightarrow> q = used + bytes \<and> q \<le> usize_MAX \<and> q \<le> limit"
  by (auto simp: reserve_try_def rbind_eq_Inr ok_or_def checked_add_def split: if_splits)

lemma fetch_sub_exact: "bytes \<le> used \<Longrightarrow> used \<le> usize_MAX \<Longrightarrow> fetch_sub used bytes = used - bytes"
proof -
  assume "bytes \<le> used" "used \<le> usize_MAX"
  then have "used + 2 ^ 64 - bytes = (used - bytes) + 2 ^ 64" "used - bytes < 2 ^ 64" by (simp_all add: usize_MAX_num)
  then show "fetch_sub used bytes = used - bytes" unfolding fetch_sub_def by (simp only: mod_add_self2 mod_less)
qed

lemma set_used_ledgers [simp]: "length (bs_ledgers (set_used i u s)) = length (bs_ledgers s)"
  "bs_live (set_used i u s) = bs_live s" "bs_threads (set_used i u s) = bs_threads s"
  by (simp_all add: set_used_def)

lemma set_used_nth: "j < length (bs_ledgers s) \<Longrightarrow> bs_ledgers (set_used i u s) ! j =
    (if i = j then (bs_ledgers s ! j)\<lparr>lg_used := u\<rparr> else bs_ledgers s ! j)"
  by (simp add: set_used_def nth_list_update)

lemma kill_simps [simp]: "length (bs_ledgers (kill i s)) = length (bs_ledgers s)" "bs_live (kill i s) = bs_live s"
  "bs_threads (kill i s) = bs_threads s"
  by (simp_all add: kill_def)

lemma kill_nth: "j < length (bs_ledgers s) \<Longrightarrow> lg_used (bs_ledgers (kill i s) ! j) = lg_used (bs_ledgers s ! j) \<and>
    lg_limit (bs_ledgers (kill i s) ! j) = lg_limit (bs_ledgers s ! j)"
  by (cases "i = j") (simp_all add: kill_def)

lemma release_inv:
  assumes inv: "budget_inv s" and r: "r \<in># bs_live s"
  shows "budget_inv (release r s)"
proof -
  let ?u = "lg_used (bs_ledgers s ! rs_ledger r)"
  have len: "rs_ledger r < length (bs_ledgers s)" using inv r by (simp add: budget_inv_def)
  have ch: "charged i (bs_live s) = (if rs_ledger r = i then rs_bytes r else 0) + charged i (bs_live s - {#r#})" for i
    using charged_remove [OF r] .
  have u: "?u = rs_bytes r + charged (rs_ledger r) (bs_live s - {#r#})" "?u \<le> lg_limit (bs_ledgers s ! rs_ledger r)"
    "lg_limit (bs_ledgers s ! rs_ledger r) \<le> usize_MAX"
    using inv len ch [of "rs_ledger r"] by (auto simp: budget_inv_def)
  then have fs: "fetch_sub ?u (rs_bytes r) = charged (rs_ledger r) (bs_live s - {#r#})"
    using fetch_sub_exact [of "rs_bytes r" ?u] by simp
  show ?thesis
    using inv len ch u fs
    by (auto simp: budget_inv_def release_def set_used_nth dest: in_diffD)
qed

lemma kill_inv: "budget_inv s \<Longrightarrow> budget_inv (kill i s)"
  by (auto simp: budget_inv_def kill_nth)

lemma charged_none: "\<forall>r. r \<in># m \<longrightarrow> rs_ledger r \<noteq> i \<Longrightarrow> charged i m = 0"
  by (induction m) (auto simp: charged_def)

lemma charged_fresh: "budget_inv s \<Longrightarrow> charged (length (bs_ledgers s)) (bs_live s) = 0"
  by (rule charged_none) (auto simp: budget_inv_def)

lemma commit_inv:
  assumes inv: "budget_inv s" and t: "bs_threads s t = Some a" and cur: "lg_used (bs_ledgers s ! at_ledger a) = at_used a"
    and q: "reserve_try (lg_limit (bs_ledgers s ! at_ledger a)) (at_used a) (at_bytes a) = Inr requested"
  shows "budget_inv (commit t a requested s)"
proof -
  have a: "at_ledger a < length (bs_ledgers s)" "at_bytes a \<le> usize_MAX" using inv t by (simp_all add: budget_inv_def)
  note r = q [unfolded reserve_try_ok]
  have out: "charged (length (bs_ledgers s)) (bs_live s) = 0"
    using charged_fresh [OF inv] .
  show ?thesis
    using inv a r cur out
    by (auto simp: budget_inv_def commit_def Let_def set_used_nth nth_append less_Suc_eq ledger_new_def)
qed

lemma budget_step_inv: "budget_step s s' \<Longrightarrow> budget_inv s \<Longrightarrow> budget_inv s'"
proof (induction rule: budget_step.induct)
  case (b_new limit s)
  then show ?case using charged_fresh [OF b_new.prems] by (auto simp: budget_inv_def nth_append less_Suc_eq ledger_new_def)
next
  case (b_drop_child r s i)
  then show ?case by (intro release_inv kill_inv) simp_all
next
  case (b_exchange s t a requested)
  then show ?case by (intro commit_inv)
next
  case (b_drop r s)
  then show ?case by (intro release_inv)
next
  case (b_drop_root i s)
  then show ?case by (intro kill_inv)
qed (auto simp: budget_inv_def)

definition budget_reach :: "budget_state \<Rightarrow> bool" where
  "budget_reach s \<longleftrightarrow> budget_step\<^sup>*\<^sup>* budget_init s"

lemma budget_reach_inv: "budget_reach s \<Longrightarrow> budget_inv s"
  unfolding budget_reach_def
proof (induction rule: rtranclp_induct)
  case base
  show ?case by (simp add: budget_init_def budget_inv_def)
qed (rule budget_step_inv)

text \<open>Bytes in use below a ledger: what its direct holders reserved and what its partitions have in use.\<close>
definition in_use :: "budget_state \<Rightarrow> Reservation \<Rightarrow> nat" where
  "in_use s r = (case rs_holder r of Storage \<Rightarrow> rs_bytes r | Partition j \<Rightarrow> lg_used (bs_ledgers s ! j))"

definition below :: "nat \<Rightarrow> budget_state \<Rightarrow> nat" where
  "below i s = sum_mset (image_mset (in_use s) (filter_mset (\<lambda>r. rs_ledger r = i) (bs_live s)))"

lemma in_use_le: "budget_inv s \<Longrightarrow> r \<in># bs_live s \<Longrightarrow> in_use s r \<le> rs_bytes r"
proof (cases "rs_holder r")
  case (Partition j)
  assume "budget_inv s" "r \<in># bs_live s"
  then have "j < length (bs_ledgers s)" "lg_limit (bs_ledgers s ! j) = rs_bytes r" "lg_used (bs_ledgers s ! j) \<le> lg_limit (bs_ledgers s ! j)"
    using Partition unfolding budget_inv_def by blast+
  then show ?thesis by (simp add: in_use_def Partition)
qed (simp add: in_use_def)

text \<open>C3: no interleaving oversubscribes a ledger.  In every state that any number of threads reach by creating ledgers and
  partitions, reserving and dropping, in any interleaving of their loads and exchanges, spurious exchange failures
  included, each ledger's counter is the sum of its live reservations and within its limit; what its holders and the holders of
  its partitions really use is within the limit too; and dropping any live reservation does not wrap the counter.\<close>
theorem budget_never_exceeded:
  assumes "budget_reach s" and "i < length (bs_ledgers s)"
  shows "lg_used (bs_ledgers s ! i) = charged i (bs_live s) \<and> charged i (bs_live s) \<le> lg_limit (bs_ledgers s ! i) \<and>
    below i s \<le> lg_limit (bs_ledgers s ! i) \<and>
    (\<forall>r. r \<in># bs_live s \<and> rs_ledger r = i \<longrightarrow> fetch_sub (lg_used (bs_ledgers s ! i)) (rs_bytes r) + rs_bytes r = lg_used (bs_ledgers s ! i))"
proof -
  note inv = budget_reach_inv [OF assms(1)]
  have u: "lg_used (bs_ledgers s ! i) = charged i (bs_live s)" "charged i (bs_live s) \<le> lg_limit (bs_ledgers s ! i)"
    "lg_limit (bs_ledgers s ! i) \<le> usize_MAX" using inv assms(2) by (auto simp: budget_inv_def)
  have "below i s \<le> charged i (bs_live s)"
    unfolding below_def charged_def by (rule sum_mset_mono) (auto intro: in_use_le [OF inv])
  moreover have "fetch_sub (lg_used (bs_ledgers s ! i)) (rs_bytes r) + rs_bytes r = lg_used (bs_ledgers s ! i)"
    if "r \<in># bs_live s" "rs_ledger r = i" for r
    using charged_remove [OF that(1), of i] that(2) u fetch_sub_exact [of "rs_bytes r" "lg_used (bs_ledgers s ! i)"] by simp
  ultimately show ?thesis using u by auto
qed

text \<open>A ledger of ten bytes with a partition of four.\<close>
theorem budget_never_exceeded_witness:
  "\<exists>s. budget_reach s \<and> length (bs_ledgers s) = 2 \<and> lg_used (bs_ledgers s ! 0) = 4 \<and> lg_limit (bs_ledgers s ! 0) = 10 \<and>
     charged 0 (bs_live s) = 4 \<and> below 0 s \<le> 10"
proof -
  define s1 where "s1 = budget_init\<lparr>bs_ledgers := bs_ledgers budget_init @ [ledger_new 10]\<rparr>"
  define a where "a = \<lparr>at_ledger = 0, at_bytes = 4, at_used = lg_used (bs_ledgers s1 ! 0), at_partition = True\<rparr>"
  define s2 where "s2 = s1\<lparr>bs_threads := (bs_threads s1)(0 \<mapsto> a)\<rparr>"
  define s3 where "s3 = commit 0 a 4 s2"
  have 1: "budget_step budget_init s1" unfolding s1_def by (rule b_new) (simp add: usize_MAX_num)
  have 2: "budget_step s1 s2" unfolding s2_def a_def
    by (rule b_load) (simp_all add: s1_def budget_init_def ledger_new_def usize_MAX_num)
  have 3: "budget_step s2 s3" unfolding s3_def
    by (rule b_exchange) (simp_all add: s2_def s1_def a_def budget_init_def ledger_new_def reserve_try_ok usize_MAX_num)
  have r: "budget_reach s3" unfolding budget_reach_def using 1 2 3 by (meson converse_rtranclp_into_rtranclp rtranclp.rtrancl_refl)
  have s3: "length (bs_ledgers s3) = 2" "lg_used (bs_ledgers s3 ! 0) = 4" "lg_limit (bs_ledgers s3 ! 0) = 10"
    by (simp_all add: s3_def s2_def s1_def a_def commit_def Let_def set_used_def budget_init_def ledger_new_def)
  from budget_never_exceeded [OF r, of 0] r s3 show ?thesis by auto
qed

section \<open>The backend registry\<close>

record ('e, 'b) BackendEntry =
  be_name :: rstring
  be_init :: "'e + 'b"

definition reference_name :: rstring where
  "reference_name = map of_char ''reference''"

definition with_entries :: "'b \<Rightarrow> ('e, 'b) BackendEntry list \<Rightarrow> (rstring \<times> 'b) list" where
  "with_entries reference_backend entries =
    concat (map (\<lambda>entry.
      if be_name entry = reference_name then []
      else (case be_init entry of Inr backend \<Rightarrow> [(be_name entry, backend)] | Inl _ \<Rightarrow> [])) entries)
    @ [(reference_name, reference_backend)]"

definition registry_get :: "rstring \<Rightarrow> (rstring \<times> 'b) list \<Rightarrow> 'b option" where
  "registry_get name backends = map_option snd (List.find (\<lambda>(n, _). n = name) backends)"

lemma find_append: "List.find P (xs @ ys) = (case List.find P xs of None \<Rightarrow> List.find P ys | Some x \<Rightarrow> Some x)"
  by (induction xs) auto

text \<open>The reserved name always finds the built-in reference, and an external entry under it is never taken.\<close>
lemma registry_reference: "registry_get reference_name (with_entries ref entries) = Some ref"
proof -
  have "List.find (\<lambda>(n, _). n = reference_name) (concat (map (\<lambda>entry.
      if be_name entry = reference_name then []
      else (case be_init entry of Inr backend \<Rightarrow> [(be_name entry, backend)] | Inl _ \<Rightarrow> [])) entries)) = None"
    by (auto simp: find_None_iff split: sum.splits)
  then show ?thesis by (simp add: registry_get_def with_entries_def find_append)
qed

text \<open>Any other name finds the first entry under it whose constructor succeeded.\<close>
lemma registry_first: "name \<noteq> reference_name \<Longrightarrow> registry_get name (with_entries ref entries) =
    (case filter (\<lambda>e. be_name e = name \<and> is_ok (be_init e)) entries of [] \<Rightarrow> None
     | e # _ \<Rightarrow> (case be_init e of Inr b \<Rightarrow> Some b | Inl _ \<Rightarrow> None))"
  by (induction entries) (auto simp: registry_get_def with_entries_def is_ok_def split: sum.splits)

end
