(* ===== verification/Spec2Isabelle.thy ===== *)
theory Spec2Isabelle
  imports Kernels I2s Tb1 Corpus JointBundle GgufLive EvidenceRun Admission KvCache Mcu Runtime
begin

text \<open>
  A verification development of the tritium workspace: a Rust library for models with ternary weights.  Its parts
  are the core vocabulary and reference kernels, the weight codecs and containers of the format crate, the evidence log,
  and the services that load and serve models.  Each theory models one part; the properties stand with the part they are about
  and are numbered across the development.

  \<^bold>\<open>Conventions\<close> (theory \<open>Prelude\<close>).  A Rust \<open>Result\<close> is a sum with the error on the left; \<open>rbind\<close>, \<open>ensure\<close>,
  \<open>ok_or\<close>, \<open>map_err\<close>, \<open>mapR\<close> and \<open>foldR\<close> are the question mark, a guard, the conversions and the loops that stop at the first
  error.  A panic is the constructor \<open>Panic\<close> of \<open>fault\<close>, or \<^const>\<open>None\<close> where nothing else can fail.  Fields of a file keep their
  width (\<open>u8\<close> to \<open>u64\<close> words, little endian through \<open>le16\<close>, \<open>le32\<close>, \<open>le64\<close>); lengths and other computed \<open>usize\<close> and
  \<open>u64\<close> values are natural numbers, with \<open>checked_add\<close>, \<open>checked_mul\<close> and the saturating operations bounded by \<open>usize_MAX\<close> where the
  code checks or saturates.  An output buffer is passed as its length and returned as a list.  A product of two dimensions that
  the code does not check is the exact product, except in the FSQ grid, where it wraps (\<open>wrapping_mul\<close>) as it does in a build without overflow
  checks; the panics of builds with overflow checks are not modelled.  A slice or an index out of range panics in the row readers (\<open>slice_at\<close>,
  \<open>slice_from\<close>, \<open>index_at\<close>); where the surrounding code has established the range, \<open>take\<close>, \<open>drop\<close> and \<open>!\<close> are used.  Strings are UTF-8 byte lists.

  \<^bold>\<open>Core\<close> (\<open>tritium-core\<close>).  \<open>Trits\<close> holds trits, errors, shapes, dtypes and scales.  \<open>F32\<close> is IEEE single precision
  on 32-bit words with round to nearest even, so equality of results is equality of bits.  \<open>Kernels\<close> holds the
  reference GEMM, convolution, FSQ grid and dense view, the training forwards of \<open>tritium-train\<close>, and shows that the
  multiply-free kernels agree bit for bit with the training forwards on finite inputs, and when the FSQ grid succeeds and its range.

  \<^bold>\<open>Codecs\<close> (\<open>tritium-format\<close>).  \<open>Errors\<close> has the error types.  \<open>Blocks\<close> and \<open>Rows\<close> model the TQ1_0, TQ2_0 and Q2_0
  blocks, rows and zero bitmaps; the row loops are proved once in the locale \<open>block_codec\<close> and interpreted on the three block
  codecs.  \<open>Sparse\<close> extends it with \<open>exact_codec\<close> and shows that the density switch between dense and sparse planes is
  lossless and that the sparse sidecar is read back; \<open>Salt\<close> models the rows of several such planes, and shows that both row versions are
  read back, in whole or truncated, and that the reader neither panics nor returns a row its own constructor would refuse.  \<open>JointCode\<close> and \<open>JointBuild\<close> model
  the joint Huffman code of several planes (canonical code, table, bit stream; Huffman lengths and their limit) and show that building returns, that a built code carries exactly the symbols that occur, that what is encoded is decoded, in
  whole or block by block, and that any code a file stores decodes what it encodes.  \<open>JointBundle\<close> models the file of such tensors: the writer
  returns, the strict reader rebuilds every row, and on any accepted file reading never panics.  \<open>I2s\<close> models the I2_S import and its two conversions, \<open>Tb1\<close> the bitmap
  rows.

  \<^bold>\<open>Containers\<close>.  \<open>Cursor\<close> has the locale \<open>byte_reader\<close> of bounds-checked readers: what a reader yields on a printed
  value, and what bytes it must have consumed.  It is interpreted on the two cursors of the crate and on the source of the bundle reader.  \<open>Corpus\<close> models the tokenised
  corpus files, \<open>Gguf\<close> the GGUF reader, \<open>GgufWrite\<close> the writer and \<open>GgufStream\<close> the streaming writer over any destination (locale
  \<open>io_writer\<close>).  \<open>BTree\<close> is the ordered map with its contract, the locale \<open>dict\<close>.  \<open>GgufRound\<close>, \<open>GgufStream\<close> and
  \<open>GgufLive\<close> show the round trip, well-formedness of what the reader accepts, that streaming any chunking writes the bytes of the one-shot
  writer, how the stream behaves after a failed write, and which chunks it refuses and that a refused chunk leaves no trace.

  \<^bold>\<open>Evidence\<close> (\<open>tritium-evidence\<close>).  \<open>Evidence\<close> models the recorder, the verifier, the run root, the JSON Lines form, sealing and
  claim aggregation.  BLAKE3, the JSON parser and the canonical printer are parameters; of the hash only the digest length is used,
  of canonical JSON that a text determines its sequence number, and for sealing that the printed lines parse back.  The verifier's walk to
  the root of a span is a partial function, since it need not end.  \<open>EvidenceLog\<close> has the recorder as a transition system and its
  invariant, and decides when the span hierarchy is accepted; \<open>EvidenceChain\<close> shows that a run root binds the log; \<open>EvidenceRun\<close>
  has the whole-run properties: what the verifier accepts, when it returns and an instance in which it does not, that interleaving does not
  matter, and that a recorded run seals.

  \<^bold>\<open>Services\<close>.  \<open>Admission\<close> (\<open>tritium-serve\<close>) has the token buckets and authentication: the rate bound over all
  runs with ordered instants, and that a rejected caller who waits is admitted.  The callers that read the clock before they take the lock
  are a transition system: the bound holds if the lock is granted in the order of the clock reads, and with the mutex, which may grant it in any order,
  any number of requests can be admitted in a minute.  \<open>KvCache\<close> (\<open>tritium-nn\<close>) shows that the lazily grown cache refines an append-only list of rows, over any allocator.
  \<open>Mcu\<close> (\<open>tritium-mcu\<close>) shows that the arena executor gives the host's results within its static budget.  \<open>Runtime\<close>
  (\<open>tritium-runtime\<close>) has the payload ledger as a transition system over all interleavings of its atomic accesses, with the invariant
  that no ledger is oversubscribed, and the backend registry.

  \<^bold>\<open>Bounds\<close>.  Recursion follows the data, so no fuel is used, except the ancestor walk above, which is an option-valued partial
  function, and the walk to the root of a Huffman tree, which is one too and is shown to return.  Loops over bytes, such as the padding loop of the stream and the blank-line test, have termination proofs.

  \<^bold>\<open>Not modelled\<close>.  Device backends (CUDA, ROCm, Metal, WebGPU) and vector code, bindings, the command line and HTTP routes,
  quantization and training beyond the two forwards, model execution beyond the key/value cache, the second salt format and the package containers, the
  additive and per-tile layouts, and rendering of errors as text.
\<close>

end
